(* ===== verification/Prelude.thy ===== *)
theory Prelude
  imports Main "HOL-Library.Word" "HOL-Library.Monad_Syntax" "HOL-Library.Multiset"
begin

text \<open>
  Shared vocabulary of the development: the machine-integer types the C code uses, the
  collections of simplification rules the component theories fill, and generic facts on
  lists, sortedness and words that several components need.
\<close>

section \<open>Machine integers\<close>

type_synonym u8 = "8 word"
type_synonym u16 = "16 word"
type_synonym u32 = "32 word"
type_synonym u64 = "64 word"

section \<open>Calls that may not return\<close>

text \<open>
  A call that may panic (a failing \<^verbatim>\<open>VERIFY\<close>, \<^verbatim>\<open>panic()\<close>) or go to sleep on a condition
  variable has an optional result: \<^const>\<open>None\<close> is a call that does not return.
\<close>

definition VERIFY :: "bool \<Rightarrow> unit option" where
  "VERIFY b = (if b then Some () else None)"

lemma VERIFY_bind [simp]:
  "(VERIFY b \<bind> f) = (if b then f () else None)"
  by (simp add: VERIFY_def)

fun foldM :: "('s \<Rightarrow> 'a \<Rightarrow> 's option) \<Rightarrow> 's \<Rightarrow> 'a list \<Rightarrow> 's option" where
  "foldM f s [] = Some s"
| "foldM f s (x # xs) = do { s' \<leftarrow> f s x; foldM f s' xs }"

lemma foldM_append: "foldM f s (xs @ ys) = do { s' \<leftarrow> foldM f s xs; foldM f s' ys }"
  by (induction xs arbitrary: s) (auto split: bind_splits)

lemma foldM_map: "foldM f s (map g xs) = foldM (\<lambda>s x. f s (g x)) s xs"
  by (induction xs arbitrary: s) (auto split: bind_splits)

section \<open>Alignment and bit fields\<close>

definition P2PHASE :: "u64 \<Rightarrow> u64 \<Rightarrow> u64" where
  "P2PHASE x align = and x (align - 1)"

definition P2ALIGN :: "u64 \<Rightarrow> u64 \<Rightarrow> u64" where
  "P2ALIGN x align = and x (- align)"

definition P2ROUNDUP :: "u64 \<Rightarrow> u64 \<Rightarrow> u64" where
  "P2ROUNDUP x align = - (and (- x) (- align))"

definition BF64_DECODE :: "u64 \<Rightarrow> nat \<Rightarrow> nat \<Rightarrow> u64" where
  "BF64_DECODE x low len = P2PHASE (drop_bit low x) (push_bit len 1)"

definition BF64_ENCODE :: "u64 \<Rightarrow> nat \<Rightarrow> nat \<Rightarrow> u64" where
  "BF64_ENCODE x low len = push_bit low (P2PHASE x (push_bit len 1))"

lemma P2PHASE_exp: "P2PHASE x (2 ^ n) = take_bit n x"
proof -
  have "2 ^ n - (1 :: u64) = mask n" by (simp add: mask_eq_exp_minus_1)
  then show ?thesis by (simp add: P2PHASE_def take_bit_eq_mask)
qed

lemma BF64_DECODE_take: "BF64_DECODE x low len = take_bit len (drop_bit low x)"
  by (simp add: BF64_DECODE_def P2PHASE_exp)

lemma BF64_ENCODE_take: "BF64_ENCODE x low len = push_bit low (take_bit len x)"
  by (simp add: BF64_ENCODE_def P2PHASE_exp)

lemma bit_BF64:
  "bit (BF64_DECODE x low len) k \<longleftrightarrow> k < len \<and> bit x (low + k)"
  "bit (BF64_ENCODE x low len) k \<longleftrightarrow> low \<le> k \<and> k < low + len \<and> k < 64 \<and> bit x (k - low)"
  by (auto simp: BF64_DECODE_take BF64_ENCODE_take bit_simps)

lemma unat_lt64: "unat (x :: u64) < 2 ^ 64"
  using unsigned_less [of x, where 'a = nat] by simp

definition highbit :: "u64 \<Rightarrow> nat" where
  "highbit i =
     (if i = 0 then 0
      else let h = 1;
        (h, i) = (if and i 0xffffffff00000000 \<noteq> 0 then (h + 32, drop_bit 32 i) else (h, i));
        (h, i) = (if and i 0xffff0000 \<noteq> 0 then (h + 16, drop_bit 16 i) else (h, i));
        (h, i) = (if and i 0xff00 \<noteq> 0 then (h + 8, drop_bit 8 i) else (h, i));
        (h, i) = (if and i 0xf0 \<noteq> 0 then (h + 4, drop_bit 4 i) else (h, i));
        (h, i) = (if and i 0xc \<noteq> 0 then (h + 2, drop_bit 2 i) else (h, i))
      in if and i 0x2 \<noteq> 0 then h + 1 else h)"

section \<open>Collections\<close>

named_theorems avl_simps \<open>structure of AVL nodes, paths and their infix order\<close>
named_theorems sm_simps \<open>space map segments\<close>

section \<open>Lists\<close>

lemma sorted_wrt_mid:
  "sorted_wrt R (xs @ x # ys) \<longleftrightarrow>
     sorted_wrt R xs \<and> sorted_wrt R ys \<and> (\<forall>y\<in>set xs. R y x) \<and> (\<forall>y\<in>set ys. R x y) \<and>
     (\<forall>a\<in>set xs. \<forall>b\<in>set ys. R a b)"
  by (auto simp: sorted_wrt_append)

lemma split_first_unique:
  "xs @ x # ys = us @ x # vs \<Longrightarrow> x \<notin> set xs \<Longrightarrow> x \<notin> set us \<Longrightarrow> xs = us \<and> ys = vs"
proof (induction xs arbitrary: us)
  case Nil
  then show ?case by (cases us) auto
next
  case (Cons a xs)
  then show ?case by (cases us) auto
qed

section \<open>Bits of numerals\<close>

unbundle bit_operations_syntax

lemma bit_mask_int: "(x::int) = mask n \<Longrightarrow> bit x k \<longleftrightarrow> k < n"
  by (simp add: bit_mask_iff)

lemma bit_exp_int: "(x::int) = 2 ^ n \<Longrightarrow> bit x k \<longleftrightarrow> k = n"
  by (auto simp: bit_exp_iff)

lemma bit_nums:
  "bit (2::int) k \<longleftrightarrow> k = 1" "bit (3::int) k \<longleftrightarrow> k < 2" "bit (4::int) k \<longleftrightarrow> k = 2" "bit (7::int) k \<longleftrightarrow> k < 3"
  by (rule bit_mask_int bit_exp_int, simp add: mask_eq_exp_minus_1)+

section \<open>Powers of two\<close>

lemma unat_drop_bit: "unat (drop_bit k (x :: u64)) = unat x div 2 ^ k"
  by (subst unsigned_drop_bit_eq) (use unat_lt64 [of x] in \<open>simp add: drop_bit_eq_div take_bit_eq_mod\<close>)

lemma unat_push_bit:
  assumes "unat x * 2 ^ k < 2 ^ 64" "k < 64"
  shows "unat (push_bit k (x :: u64)) = unat x * 2 ^ k"
  by (subst unsigned_push_bit_eq) (use assms in \<open>simp add: take_bit_eq_mod push_bit_eq_mult\<close>)

lemma unat_take_bit: "unat (take_bit k (x :: u64)) = unat x mod 2 ^ k"
  by (subst unsigned_take_bit_eq) (simp add: take_bit_eq_mod)

lemma take_bit_0_dvd: "take_bit k (x :: u64) = 0 \<longleftrightarrow> 2 ^ k dvd unat x"
  by (metis dvd_eq_mod_eq_0 unat_0 unat_take_bit unsigned_eq_0_iff)

lemma even_split: "0 < (n :: nat) \<Longrightarrow> \<exists>e m. n = 2 ^ e * m \<and> odd m"
proof (induction n rule: less_induct)
  case (less n)
  show ?case
  proof (cases "even n")
    case True
    then obtain k where k: "n = 2 * k" by blast
    with less obtain e m where "k = 2 ^ e * m" "odd m" by (metis less_add_same_cancel1 mult_2 nat_0_less_mult_iff)
    then show ?thesis using k by (metis mult.assoc power_Suc)
  next
    case False
    then show ?thesis by (metis mult_1 power_0)
  qed
qed

lemma clear_low: "x AND NOT (mask n) = (x :: u64) - take_bit n x"
proof -
  have "x AND NOT (mask n) = push_bit n (drop_bit n x)" by (rule bit_eqI) (auto simp: bit_simps)
  then show ?thesis using bits_ident [of n x] by (simp add: algebra_simps)
qed

lemma odd_and_minus: "odd (m :: u64) \<Longrightarrow> m AND - m = 1"
proof (rule bit_eqI)
  fix k assume m: "odd m"
  then have "m - 1 = m AND NOT (mask 1)" using clear_low [of m 1] by (simp add: odd_iff_mod_2_eq_one take_bit_eq_mod)
  then have "bit (m - 1) k \<longleftrightarrow> k \<noteq> 0 \<and> bit m k" if "k < 64"
    using that by (auto simp: bit_simps)
  then show "bit (m AND - m) k \<longleftrightarrow> bit 1 k" if "possible_bit TYPE(u64) k"
    using that m by (auto simp: bit_simps minus_eq_not_minus_1 bit_1_iff bit_0)
qed

text \<open>The alignment that a size implies, the lowest bit of it that is set.\<close>

lemma lowbit:
  assumes "(sz :: u64) \<noteq> 0"
  shows "\<exists>e. e < 64 \<and> sz AND - sz = 2 ^ e \<and> 2 ^ e dvd unat sz \<and> (\<forall>k. 2 ^ k dvd unat sz \<longrightarrow> k \<le> e)"
proof -
  obtain e m where em: "unat sz = 2 ^ e * m" "odd m" using assms even_split [of "unat sz"] unat_gt_0 by metis
  have "2 ^ e \<le> unat sz" using em by (cases m) auto
  then have e: "e < 64" using unat_lt64 [of sz] by (metis le_less_trans nat_power_less_imp_less zero_less_numeral)
  have "sz = of_nat (unat sz)" by simp
  also have "\<dots> = push_bit e (of_nat m)" unfolding em(1) by (simp add: push_bit_eq_mult mult.commute)
  finally have sz: "sz = push_bit e (of_nat m)" .
  moreover have "- push_bit e (of_nat m :: u64) = push_bit e (- of_nat m)" by (simp add: push_bit_eq_mult)
  ultimately have "sz AND - sz = push_bit e (of_nat m AND - of_nat m)" by (simp add: push_bit_and)
  also have "\<dots> = 2 ^ e" using odd_and_minus [of "of_nat m"] em(2) by simp
  finally have "sz AND - sz = 2 ^ e" .
  moreover have "k \<le> e" if "2 ^ k dvd unat sz" for k
  proof (rule ccontr)
    assume "\<not> k \<le> e"
    then have "2 ^ Suc e dvd unat sz" using that by (meson dvd_trans le_imp_power_dvd not_less_eq_eq)
    then show False using em by simp
  qed
  ultimately show ?thesis using e em(1) by auto
qed

lemma P2ROUNDUP_take: "P2ROUNDUP x (2 ^ e) = x + take_bit e (- x)"
proof -
  have "- (2 ^ e :: u64) = NOT (mask e)" by (simp add: mask_eq_exp_minus_1 minus_eq_not_minus_1)
  then have "- x AND - (2 ^ e) = - x - take_bit e (- x)"
    by (simp add: clear_low)
  then show ?thesis by (simp add: P2ROUNDUP_def)
qed

lemma P2ROUNDUP_unat:
  assumes "unat x + 2 ^ e \<le> 2 ^ 64"
  shows "2 ^ e dvd unat (P2ROUNDUP x (2 ^ e))" "unat x \<le> unat (P2ROUNDUP x (2 ^ e))"
    "unat (P2ROUNDUP x (2 ^ e)) < unat x + 2 ^ e"
    "2 ^ e dvd n \<Longrightarrow> unat x \<le> n \<Longrightarrow> unat (P2ROUNDUP x (2 ^ e)) \<le> n"
proof -
  let ?r = "P2ROUNDUP x (2 ^ e)"
  have t: "unat (take_bit e (- x)) < 2 ^ e" by (simp add: unat_take_bit)
  have u: "unat ?r = unat x + unat (take_bit e (- x))"
    unfolding P2ROUNDUP_take using assms t by (subst unat_plus_if') (simp; linarith)
  have "- x AND NOT (mask e) = push_bit e (drop_bit e (- x))" by (rule bit_eqI) (auto simp: bit_simps)
  moreover have "- (2 ^ e :: u64) = NOT (mask e)" by (simp add: mask_eq_exp_minus_1 minus_eq_not_minus_1)
  ultimately have "take_bit e ?r = 0"
    unfolding P2ROUNDUP_def by (simp add: take_bit_eq_0_iff push_bit_eq_mult)
  then show d: "2 ^ e dvd unat ?r" using take_bit_0_dvd [of e ?r] by simp
  show l: "unat x \<le> unat ?r" "unat ?r < unat x + 2 ^ e" using u t by auto
  show "unat ?r \<le> n" if n: "2 ^ e dvd n" "unat x \<le> n"
  proof (rule ccontr)
    assume "\<not> unat ?r \<le> n"
    moreover from this have "2 ^ e dvd unat ?r - n" using d n by (simp add: dvd_diff_nat)
    ultimately have "2 ^ e \<le> unat ?r - n" by (auto dest: dvd_imp_le)
    then show False using l n by linarith
  qed
qed

lemma P2ALIGN_unat: "unat (P2ALIGN x (2 ^ e)) = unat x div 2 ^ e * 2 ^ e"
proof -
  have "- (2 ^ e :: u64) = NOT (mask e)" by (simp add: mask_eq_exp_minus_1 minus_eq_not_minus_1)
  then have "P2ALIGN x (2 ^ e) = x - take_bit e x" by (simp add: P2ALIGN_def clear_low)
  moreover have "take_bit e x \<le> x" by (simp add: word_le_nat_alt unat_take_bit)
  ultimately have "unat (P2ALIGN x (2 ^ e)) = unat x - unat x mod 2 ^ e" by (simp add: unat_sub unat_take_bit)
  then show ?thesis by (simp add: minus_mod_eq_div_mult)
qed

text \<open>One halving step of \<^const>\<open>highbit\<close>.\<close>

definition hb_inv :: "u64 \<Rightarrow> nat \<Rightarrow> nat \<Rightarrow> u64 \<Rightarrow> bool" where
  "hb_inv x b h i \<longleftrightarrow> 1 \<le> h \<and> i \<noteq> 0 \<and> unat i < 2 ^ b \<and> unat i = unat x div 2 ^ (h - 1)"

lemma hb_step:
  assumes "hb_inv x (2 * k) h i" "m = push_bit k (mask k)"
  shows "case (if i AND m \<noteq> 0 then (h + k, drop_bit k i) else (h, i)) of (h, i) \<Rightarrow> hb_inv x k h i"
proof -
  have I: "unat i < 2 ^ (2 * k)" "i \<noteq> 0" "1 \<le> h" "unat i = unat x div 2 ^ (h - 1)" using assms(1) by (auto simp: hb_inv_def)
  have "i AND m = push_bit k (take_bit k (drop_bit k i))"
    unfolding assms(2) by (rule bit_eqI) (auto simp: bit_simps)
  moreover have "take_bit k (drop_bit k i) = drop_bit k i"
  proof -
    have "unat i div 2 ^ k < 2 ^ k" using I(1) by (simp add: less_mult_imp_div_less mult_2 power_add)
    then have "unat (take_bit k (drop_bit k i)) = unat (drop_bit k i)" by (simp add: unat_take_bit unat_drop_bit)
    then show ?thesis by (rule word_unat_eq_iff [THEN iffD2])
  qed
  ultimately have m: "i AND m = i - take_bit k i" using bits_ident [of k i] by (simp add: algebra_simps)
  show ?thesis
  proof (cases "i AND m = 0")
    case True
    then have "take_bit k i = i" using m by (metis eq_iff_diff_eq_0)
    from arg_cong [OF this, of unat] have "unat i mod 2 ^ k = unat i" by (simp add: unat_take_bit)
    then have "unat i < 2 ^ k" using mod_less_divisor [of "2 ^ k" "unat i"] by simp
    with True I show ?thesis by (simp add: hb_inv_def)
  next
    case False
    have "\<not> unat i < 2 ^ k"
    proof
      assume "unat i < 2 ^ k"
      then have "unat (take_bit k i) = unat i" by (simp add: unat_take_bit)
      then have "take_bit k i = i" by (rule word_unat_eq_iff [THEN iffD2])
      then show False using m False by simp
    qed
    then have "0 < unat (drop_bit k i)" by (simp add: unat_drop_bit div_greater_zero_iff)
    then have ne: "drop_bit k i \<noteq> 0" by auto
    have "h + k - 1 = h - 1 + k" using I(3) by simp
    then have "unat x div 2 ^ (h + k - 1) = unat (drop_bit k i)"
      unfolding unat_drop_bit I(4) by (simp only: power_add div_mult2_eq)
    moreover have "unat (drop_bit k i) < 2 ^ k"
      using I(1) by (simp add: unat_drop_bit less_mult_imp_div_less mult_2 power_add)
    ultimately show ?thesis using False I(3) ne by (simp add: hb_inv_def)
  qed
qed

lemma highbit_bounds:
  assumes "x \<noteq> 0"
  shows "1 \<le> highbit x" "2 ^ (highbit x - 1) \<le> unat x" "unat x < 2 ^ highbit x"
proof -
  have m: "0xffffffff00000000 = push_bit 32 (mask 32 :: u64)" "0xffff0000 = push_bit 16 (mask 16 :: u64)"
    "0xff00 = push_bit 8 (mask 8 :: u64)" "0xf0 = push_bit 4 (mask 4 :: u64)" "0xc = push_bit 2 (mask 2 :: u64)"
    "0x2 = push_bit 1 (mask 1 :: u64)"
    by (simp_all add: mask_eq_exp_minus_1)
  have I0: "hb_inv x (2 * 32) 1 x" using assms unat_lt64 [of x] by (simp add: hb_inv_def)
  obtain h1 i1 where 1: "(if x AND 0xffffffff00000000 \<noteq> 0 then (1 + 32, drop_bit 32 x) else (1, x)) = (h1 :: nat, i1)" by fastforce
  obtain h2 i2 where 2: "(if i1 AND 0xffff0000 \<noteq> 0 then (h1 + 16, drop_bit 16 i1) else (h1, i1)) = (h2, i2)" by fastforce
  obtain h3 i3 where 3: "(if i2 AND 0xff00 \<noteq> 0 then (h2 + 8, drop_bit 8 i2) else (h2, i2)) = (h3, i3)" by fastforce
  obtain h4 i4 where 4: "(if i3 AND 0xf0 \<noteq> 0 then (h3 + 4, drop_bit 4 i3) else (h3, i3)) = (h4, i4)" by fastforce
  obtain h5 i5 where 5: "(if i4 AND 0xc \<noteq> 0 then (h4 + 2, drop_bit 2 i4) else (h4, i4)) = (h5, i5)" by fastforce
  obtain h6 i6 where 6: "(if i5 AND 0x2 \<noteq> 0 then (h5 + 1, drop_bit 1 i5) else (h5, i5)) = (h6, i6)" by fastforce
  have "hb_inv x 32 h1 i1" using hb_step [OF I0 m(1)] unfolding 1 by simp
  then have "hb_inv x 16 h2 i2" using hb_step [of x 16 h1 i1, OF _ m(2)] unfolding 2 by simp
  then have "hb_inv x 8 h3 i3" using hb_step [of x 8 h2 i2, OF _ m(3)] unfolding 3 by simp
  then have "hb_inv x 4 h4 i4" using hb_step [of x 4 h3 i3, OF _ m(4)] unfolding 4 by simp
  then have "hb_inv x 2 h5 i5" using hb_step [of x 2 h4 i4, OF _ m(5)] unfolding 5 by simp
  then have I6: "hb_inv x 1 h6 i6" using hb_step [of x 1 h5 i5, OF _ m(6)] unfolding 6 by simp
  have "highbit x = h6"
    using assms 6 unfolding highbit_def Let_def 1 2 3 4 5 by (auto split: if_splits simp: 2 3 4 5)
  moreover have "unat x div 2 ^ (h6 - 1) = 1" "1 \<le> h6" using I6 unat_gt_0 [of i6] by (auto simp: hb_inv_def)
  moreover have "2 ^ h6 = 2 * (2 :: nat) ^ (h6 - 1)" using \<open>1 \<le> h6\<close> by (cases h6) auto
  moreover have "b \<le> a \<and> a < 2 * b" if "a div b = 1" for a b :: nat
  proof (cases "b = 0")
    case False
    then have "a mod b < b" by simp
    moreover have "a = b + a mod b" using that div_mult_mod_eq [of a b] by simp
    ultimately show ?thesis by linarith
  qed (use that in simp)
  ultimately show "1 \<le> highbit x" "2 ^ (highbit x - 1) \<le> unat x" "unat x < 2 ^ highbit x" by auto
qed

lemma highbit_exp: "e < 64 \<Longrightarrow> highbit (2 ^ e) = e + 1"
proof -
  assume e: "e < 64"
  have "(2 :: nat) ^ e < 2 ^ 64" using e by (rule power_strict_increasing) simp
  then have u: "unat (2 ^ e :: u64) = 2 ^ e" using e unat_push_bit [of 1 e] by simp
  then have "(2 :: u64) ^ e \<noteq> 0" by (metis power_not_zero unat_0 zero_neq_numeral)
  note B = highbit_bounds [OF this, unfolded u]
  have "highbit (2 ^ e) - 1 \<le> e" "e < highbit (2 ^ e)"
    using B(2,3) by (simp_all add: power_increasing_iff)
  then show ?thesis by simp
qed

end
