(* ===== verification/Avl.thy ===== *)
theory Avl
  imports Prelude
begin

unbundle bit_operations_syntax

text \<open>
  The AVL trees of \<^verbatim>\<open>src/lib/libavl/avl.c\<close>. A node of the C code holds two child pointers,
  its balance, and a parent pointer together with the index (0 or 1) it has in its parent.
  Here the children and the balance are a datatype; the parent pointer and the child index
  are the path from a node to the root, a list of crumbs, each of which is the parent of
  the node below it without that child. A pointer to a node is thus a pair of the subtree
  at that node and its path, and following a parent pointer rebuilds the parent from the
  first crumb. Child index 0 is \<^const>\<open>False\<close> and child index 1 is \<^const>\<open>True\<close>, so that the C
  code's \<^verbatim>\<open>1 - left\<close> is negation.
\<close>

section \<open>Nodes, paths and trees\<close>

datatype 'a avl_node =
    Null
  | Node (avl_child0: "'a avl_node") (avl_data: 'a) (avl_balance: int) (avl_child1: "'a avl_node")

datatype 'a crumb = Crumb (cr_child: bool) (cr_data: 'a) (cr_balance: int) (cr_sibling: "'a avl_node")

type_synonym 'a avl_index = "'a crumb list"
type_synonym 'a avl_pos = "'a avl_node \<times> 'a crumb list"

record 'a avl_tree =
  avl_root :: "'a avl_node"
  avl_compar :: "'a \<Rightarrow> 'a \<Rightarrow> int"
  avl_numnodes :: nat

definition avl_child2balance :: "bool \<Rightarrow> int" where
  "avl_child2balance c = (if c then 1 else - 1)"

definition avl_balance2child :: "int \<Rightarrow> bool" where
  \<comment> \<open>the array {0, 0, 1} read at index 1 + balance\<close>
  "avl_balance2child b = (b = 1)"

fun avl_child :: "bool \<Rightarrow> 'a avl_node \<Rightarrow> 'a avl_node" where
  "avl_child c Null = Null"
| "avl_child c (Node l x b r) = (if c then r else l)"

definition avl_mk :: "bool \<Rightarrow> 'a avl_node \<Rightarrow> 'a \<Rightarrow> int \<Rightarrow> 'a avl_node \<Rightarrow> 'a avl_node" where
  \<comment> \<open>the node whose child with index c is t and whose other child is s\<close>
  "avl_mk c t x b s = (if c then Node s x b t else Node t x b s)"

fun avl_plug :: "'a avl_node \<Rightarrow> 'a crumb list \<Rightarrow> 'a avl_node" where
  "avl_plug t [] = t"
| "avl_plug t (Crumb c x b s # p) = avl_plug (avl_mk c t x b s) p"

section \<open>Walking\<close>

fun avl_descend :: "bool \<Rightarrow> 'a avl_node \<Rightarrow> 'a crumb list \<Rightarrow> 'a avl_pos" where
  "avl_descend c Null p = (Null, p)"
| "avl_descend c (Node l x b r) p =
     (if (if c then r else l) = Null then (Node l x b r, p)
      else avl_descend c (if c then r else l) (Crumb c x b (if c then l else r) # p))"

fun avl_ascend :: "bool \<Rightarrow> 'a avl_node \<Rightarrow> 'a crumb list \<Rightarrow> 'a avl_pos option" where
  "avl_ascend right n [] = None"
| "avl_ascend right n (Crumb c x b s # p) =
     (if c = right then Some (avl_mk c n x b s, p) else avl_ascend right (avl_mk c n x b s) p)"

fun avl_walk :: "'a avl_pos \<Rightarrow> bool \<Rightarrow> 'a avl_pos option" where
  "avl_walk (Null, p) left = None"
| "avl_walk (Node l x b r, p) left =
     (let n = Node l x b r; right = (\<not> left) in
      if avl_child left n \<noteq> Null
      then Some (avl_descend right (avl_child left n) (Crumb left x b (avl_child right n) # p))
      else avl_ascend right n p)"

fun avl_run :: "bool \<Rightarrow> 'a avl_node \<Rightarrow> 'a crumb list \<Rightarrow> 'a avl_pos option \<Rightarrow> 'a avl_pos option" where
  \<comment> \<open>the loop of avl_first and avl_last: prev trails node\<close>
  "avl_run c Null p prev = prev"
| "avl_run c (Node l x b r) p prev =
     avl_run c (if c then r else l) (Crumb c x b (if c then l else r) # p) (Some (Node l x b r, p))"

definition avl_first :: "'a avl_tree \<Rightarrow> 'a avl_pos option" where
  "avl_first tree = avl_run False (avl_root tree) [] None"

definition avl_last :: "'a avl_tree \<Rightarrow> 'a avl_pos option" where
  "avl_last tree = avl_run True (avl_root tree) [] None"

fun avl_nearest :: "'a avl_tree \<Rightarrow> 'a avl_index \<Rightarrow> bool \<Rightarrow> 'a avl_pos option" where
  "avl_nearest tree [] direction = None"
| "avl_nearest tree (Crumb c x b s # p) direction =
     (let node = (avl_mk c Null x b s, p) in
      if c \<noteq> direction then Some node else avl_walk node direction)"

section \<open>Searching\<close>

fun avl_find_loop ::
  "('a \<Rightarrow> 'a \<Rightarrow> int) \<Rightarrow> 'a \<Rightarrow> 'a avl_node \<Rightarrow> 'a crumb list \<Rightarrow> 'a avl_pos + 'a avl_index" where
  "avl_find_loop compar value Null p = Inr p"
| "avl_find_loop compar value (Node l x b r) p =
     (let diff = compar value x in
      if diff = 0 then Inl (Node l x b r, p)
      else let child = avl_balance2child diff in
        avl_find_loop compar value (if child then r else l)
          (Crumb child x b (if child then l else r) # p))"

definition avl_find :: "'a avl_tree \<Rightarrow> 'a \<Rightarrow> 'a avl_pos + 'a avl_index" where
  \<comment> \<open>Inl is the node found; Inr is the insertion point stored through the where pointer\<close>
  "avl_find tree value = avl_find_loop (avl_compar tree) value (avl_root tree) []"

section \<open>Rotation, insertion and removal\<close>

definition avl_rotation :: "'a avl_node \<Rightarrow> int \<Rightarrow> 'a avl_node \<times> bool" where
  \<comment> \<open>the rebalanced subtree, which takes node's place in its parent, and whether it is
     shorter; balance \<open>>> 1\<close> of the two values -2 and 2 is -1 and 1\<close>
  "avl_rotation node balance =
     (let left = (\<not> balance < 0); right = (\<not> left);
          left_heavy = balance div 2; right_heavy = - left_heavy;
          child = avl_child left node; child_bal = avl_balance child in
      if child_bal \<noteq> right_heavy then
        let child_bal' = child_bal + right_heavy;
            cright = avl_child right child;
            node' = avl_mk left cright (avl_data node) (- child_bal') (avl_child right node);
            child' = avl_mk right node' (avl_data child) child_bal' (avl_child left child)
        in (child', child_bal' = 0)
      else
        let gchild = avl_child right child;
            gleft = avl_child left gchild; gright = avl_child right gchild;
            gbal = avl_balance gchild;
            node' = avl_mk left gright (avl_data node)
              (if gbal = left_heavy then right_heavy else 0) (avl_child right node);
            child' = avl_mk right gleft (avl_data child)
              (if gbal = right_heavy then left_heavy else 0) (avl_child left child);
            gchild' = avl_mk left child' (avl_data gchild) 0 node'
        in (gchild', True))"

fun avl_insert_loop :: "'a avl_node \<Rightarrow> 'a crumb list \<Rightarrow> 'a avl_node" where
  "avl_insert_loop n [] = n"
| "avl_insert_loop n (Crumb which_child x old_balance s # p) =
     (let new_balance = old_balance + avl_child2balance which_child in
      if new_balance = 0 then avl_plug (avl_mk which_child n x 0 s) p
      else if old_balance \<noteq> 0 then
        avl_plug (fst (avl_rotation (avl_mk which_child n x old_balance s) new_balance)) p
      else avl_insert_loop (avl_mk which_child n x new_balance s) p)"

definition avl_insert :: "'a avl_tree \<Rightarrow> 'a \<Rightarrow> 'a avl_index \<Rightarrow> 'a avl_tree" where
  "avl_insert tree new_data where =
     tree\<lparr>avl_numnodes := avl_numnodes tree + 1,
          avl_root := avl_insert_loop (Node Null new_data 0 Null) where\<rparr>"

fun avl_insert_here :: "'a avl_tree \<Rightarrow> 'a \<Rightarrow> 'a avl_pos \<Rightarrow> bool \<Rightarrow> 'a avl_tree" where
  "avl_insert_here tree new_data (here, p) direction =
     (case here of Null \<Rightarrow> tree
      | Node l x b r \<Rightarrow>
        let child = direction in
        if avl_child child here \<noteq> Null then
          (case avl_descend (\<not> child) (avl_child child here)
                  (Crumb child x b (avl_child (\<not> child) here) # p) of
             (Node l' x' b' r', p') \<Rightarrow>
               avl_insert tree new_data
                 (Crumb (\<not> child) x' b' (avl_child child (Node l' x' b' r')) # p')
           | (Null, p') \<Rightarrow> tree)
        else avl_insert tree new_data (Crumb child x b (avl_child (\<not> child) here) # p))"

definition avl_add :: "'a avl_tree \<Rightarrow> 'a \<Rightarrow> 'a avl_tree option" where
  \<comment> \<open>None is the panic of an element already in the tree\<close>
  "avl_add tree new_node =
     (case avl_find tree new_node of
        Inl _ \<Rightarrow> None
      | Inr where \<Rightarrow> Some (avl_insert tree new_node where))"

fun avl_remove_loop :: "'a avl_node \<Rightarrow> 'a crumb list \<Rightarrow> 'a avl_node" where
  "avl_remove_loop n [] = n"
| "avl_remove_loop n (Crumb which_child x old_balance s # p) =
     (let new_balance = old_balance - avl_child2balance which_child in
      if old_balance = 0 then avl_plug (avl_mk which_child n x new_balance s) p
      else if new_balance = 0 then avl_remove_loop (avl_mk which_child n x new_balance s) p
      else case avl_rotation (avl_mk which_child n x old_balance s) new_balance of
             (t, shorter) \<Rightarrow> if \<not> shorter then avl_plug t p else avl_remove_loop t p)"

fun avl_swap :: "'a avl_pos \<Rightarrow> 'a avl_pos" where
  \<comment> \<open>bring the neighbour of a node with two children into its place; the node to delete
     is then where the neighbour was\<close>
  "avl_swap (Null, p) = (Null, p)"
| "avl_swap (Node l x b r, p) =
     (let delete = Node l x b r in
      if l \<noteq> Null \<and> r \<noteq> Null then
        let left = avl_balance2child b; right = (\<not> left);
            (node, q) = avl_descend right (avl_child left delete) []
        in (node, q @ Crumb left (avl_data node) b (avl_child right delete) # p)
      else (delete, p))"

fun avl_remove :: "'a avl_tree \<Rightarrow> 'a avl_pos \<Rightarrow> 'a avl_tree" where
  "avl_remove tree pos =
     (case avl_swap pos of (delete, p) \<Rightarrow>
        let node = (if avl_child False delete \<noteq> Null then avl_child False delete
                    else avl_child True delete)
        in tree\<lparr>avl_numnodes := avl_numnodes tree - 1, avl_root := avl_remove_loop node p\<rparr>)"

definition avl_create :: "('a \<Rightarrow> 'a \<Rightarrow> int) \<Rightarrow> 'a avl_tree" where
  "avl_create compar = \<lparr>avl_root = Null, avl_compar = compar, avl_numnodes = 0\<rparr>"

definition avl_is_empty :: "'a avl_tree \<Rightarrow> bool" where
  "avl_is_empty tree \<longleftrightarrow> avl_numnodes tree = 0"

definition avl_reinsert :: "'a avl_tree \<Rightarrow> 'a avl_pos \<Rightarrow> 'a avl_tree option" where
  "avl_reinsert tree obj = avl_add (avl_remove tree obj) (avl_data (fst obj))"

definition avl_update_lt :: "'a avl_tree \<Rightarrow> 'a avl_pos \<Rightarrow> ('a avl_tree \<times> bool) option" where
  "avl_update_lt t obj =
     (case avl_walk obj False of
        Some neighbor \<Rightarrow>
          if avl_compar t (avl_data (fst obj)) (avl_data (fst neighbor)) < 0
          then map_option (\<lambda>t'. (t', True)) (avl_reinsert t obj) else Some (t, False)
      | None \<Rightarrow> Some (t, False))"

definition avl_update_gt :: "'a avl_tree \<Rightarrow> 'a avl_pos \<Rightarrow> ('a avl_tree \<times> bool) option" where
  "avl_update_gt t obj =
     (case avl_walk obj True of
        Some neighbor \<Rightarrow>
          if avl_compar t (avl_data (fst obj)) (avl_data (fst neighbor)) > 0
          then map_option (\<lambda>t'. (t', True)) (avl_reinsert t obj) else Some (t, False)
      | None \<Rightarrow> Some (t, False))"

definition avl_update :: "'a avl_tree \<Rightarrow> 'a avl_pos \<Rightarrow> ('a avl_tree \<times> bool) option" where
  "avl_update t obj =
     (case avl_update_lt t obj of
        Some (t', True) \<Rightarrow> Some (t', True)
      | Some (t', False) \<Rightarrow> avl_update_gt t' obj
      | None \<Rightarrow> None)"

section \<open>Pointers held by the user of a tree\<close>

text \<open>
  A user holds data pointers and changes fields in place. A pointer to an element stands
  for the node that holds it: \<open>avl_setpos\<close> stores new contents through a pointer to a node
  just found, and \<open>avl_set\<close> through a pointer kept while the tree changed, whose node is found
  again by the element's key. \<open>avl_list_from\<close> is the traversal
  \<^verbatim>\<open>for (x = avl_first(t); x != NULL; x = AVL_NEXT(t, x))\<close>.
\<close>

fun avl_setpos :: "'a avl_pos \<Rightarrow> 'a \<Rightarrow> 'a avl_pos" where
  "avl_setpos (Null, p) y = (Null, p)"
| "avl_setpos (Node l x b r, p) y = (Node l y b r, p)"

definition avl_set :: "'a avl_tree \<Rightarrow> 'a \<Rightarrow> 'a \<Rightarrow> 'a avl_tree" where
  "avl_set t x y =
     (case avl_find t x of
        Inl pos \<Rightarrow> t\<lparr>avl_root := avl_plug (fst (avl_setpos pos y)) (snd (avl_setpos pos y))\<rparr>
      | Inr _ \<Rightarrow> t)"

section \<open>Destroying a tree node by node\<close>

type_synonym 'a avl_cookie = "'a crumb list option"
  \<comment> \<open>None is the initial NULL cookie, Some [] is CHILDBIT without a parent, and the head of
     any other path is the parent with the index of the child visited last\<close>

fun avl_check_right_side :: "'a avl_pos \<Rightarrow> 'a avl_pos" where
  "avl_check_right_side (Node l x b r, p) =
     (if r \<noteq> Null then (r, Crumb True x b l # p) else (Node l x b r, p))"
| "avl_check_right_side (Null, p) = (Null, p)"

fun avl_destroy_nodes ::
  "'a avl_tree \<Rightarrow> 'a avl_cookie \<Rightarrow> 'a option \<times> 'a avl_tree \<times> 'a avl_cookie" where
  "avl_destroy_nodes tree None =
     (case avl_first tree of
        None \<Rightarrow> (None, tree, Some [])
      | Some first \<Rightarrow> (case avl_check_right_side first of
          (node, parent) \<Rightarrow> (Some (avl_data node), tree, Some parent)))"
| "avl_destroy_nodes tree (Some []) =
     (None, if avl_root tree \<noteq> Null then tree\<lparr>avl_root := Null, avl_numnodes := 0\<rparr> else tree, Some [])"
| "avl_destroy_nodes tree (Some (Crumb child x b s # p)) =
     (let parent = avl_mk child Null x b s;
          tree' = tree\<lparr>avl_root := avl_plug parent p, avl_numnodes := avl_numnodes tree - 1\<rparr> in
      if child \<or> avl_child True parent = Null then (Some x, tree', Some p)
      else case avl_check_right_side
                  (avl_descend False (avl_child True parent) (Crumb True x b Null # p)) of
             (node, parent') \<Rightarrow> (Some (avl_data node), tree', Some parent'))"

fun avl_destroy_loop :: "nat \<Rightarrow> 'a avl_tree \<Rightarrow> 'a avl_cookie \<Rightarrow> ('a list \<times> 'a avl_tree) option" where
  \<comment> \<open>the loop its users run, \<^verbatim>\<open>while ((node = avl_destroy_nodes(tree, &cookie)) != NULL)\<close>:
     the nodes handed out and the tree at the end, None when the fuel runs out\<close>
  "avl_destroy_loop 0 tree cookie = None"
| "avl_destroy_loop (Suc fuel) tree cookie =
     (case avl_destroy_nodes tree cookie of
        (None, tree', _) \<Rightarrow> Some ([], tree')
      | (Some node, tree', cookie') \<Rightarrow>
          map_option (\<lambda>(nodes, t). (node # nodes, t)) (avl_destroy_loop fuel tree' cookie'))"

section \<open>The packed parent, child and balance word\<close>

definition AVL_XPARENT :: "u64 \<Rightarrow> u64" where
  "AVL_XPARENT pcb = pcb AND NOT 7"

definition AVL_SETPARENT :: "u64 \<Rightarrow> u64 \<Rightarrow> u64" where
  "AVL_SETPARENT pcb p = (pcb AND 7) OR p"

definition AVL_XCHILD :: "u64 \<Rightarrow> u64" where
  "AVL_XCHILD pcb = drop_bit 2 pcb AND 1"

definition AVL_SETCHILD :: "u64 \<Rightarrow> u64 \<Rightarrow> u64" where
  "AVL_SETCHILD pcb c = (pcb AND NOT 4) OR push_bit 2 c"

definition AVL_XBALANCE :: "u64 \<Rightarrow> int" where
  \<comment> \<open>the cast to int keeps the low 32 bits as a signed value\<close>
  "AVL_XBALANCE pcb = sint (ucast ((pcb AND 3) - 1) :: 32 word)"

definition AVL_SETBALANCE :: "u64 \<Rightarrow> int \<Rightarrow> u64" where
  "AVL_SETBALANCE pcb b = (pcb AND NOT 3) OR word_of_int (b + 1)"

section \<open>Infix order, height and balance\<close>

fun avl_inorder :: "'a avl_node \<Rightarrow> 'a list" where
  "avl_inorder Null = []"
| "avl_inorder (Node l x b r) = avl_inorder l @ x # avl_inorder r"

fun avl_height :: "'a avl_node \<Rightarrow> nat" where
  "avl_height Null = 0"
| "avl_height (Node l x b r) = Suc (max (avl_height l) (avl_height r))"

fun avl_ok :: "'a avl_node \<Rightarrow> bool" where
  "avl_ok Null = True"
| "avl_ok (Node l x b r) \<longleftrightarrow>
     b = int (avl_height r) - int (avl_height l) \<and> \<bar>b\<bar> \<le> 1 \<and> avl_ok l \<and> avl_ok r"

fun path_before :: "'a crumb list \<Rightarrow> 'a list" where
  "path_before [] = []"
| "path_before (Crumb c x b s # p) = path_before p @ (if c then avl_inorder s @ [x] else [])"

fun path_after :: "'a crumb list \<Rightarrow> 'a list" where
  "path_after [] = []"
| "path_after (Crumb c x b s # p) = (if c then [] else x # avl_inorder s) @ path_after p"

fun path_ok :: "'a crumb list \<Rightarrow> nat \<Rightarrow> bool" where
  \<comment> \<open>the path is balanced around a hole of height h\<close>
  "path_ok [] h = True"
| "path_ok (Crumb c x b s # p) h \<longleftrightarrow>
     avl_ok s \<and> \<bar>b\<bar> \<le> 1 \<and>
     b = (if c then int h - int (avl_height s) else int (avl_height s) - int h) \<and>
     path_ok p (Suc (max h (avl_height s)))"

lemma avl_inorder_mk [avl_simps]:
  "avl_inorder (avl_mk c t x b s) =
     (if c then avl_inorder s @ x # avl_inorder t else avl_inorder t @ x # avl_inorder s)"
  by (simp add: avl_mk_def)

lemma avl_height_mk [avl_simps]: "avl_height (avl_mk c t x b s) = Suc (max (avl_height t) (avl_height s))"
  by (simp add: avl_mk_def max.commute)

lemma avl_ok_mk [avl_simps]:
  "avl_ok (avl_mk c t x b s) \<longleftrightarrow> avl_ok t \<and> avl_ok s \<and> \<bar>b\<bar> \<le> 1 \<and>
     b = (if c then int (avl_height t) - int (avl_height s) else int (avl_height s) - int (avl_height t))"
  by (auto simp: avl_mk_def)

lemma avl_mk_sel [avl_simps]:
  "avl_data (avl_mk c t x b s) = x" "avl_balance (avl_mk c t x b s) = b"
  "avl_child d (avl_mk c t x b s) = (if d = c then t else s)" "avl_mk c t x b s \<noteq> Null"
  by (auto simp: avl_mk_def)

lemma avl_mk_child: "n \<noteq> Null \<Longrightarrow> n = avl_mk c (avl_child c n) (avl_data n) (avl_balance n) (avl_child (\<not> c) n)"
  by (cases n) (auto simp: avl_mk_def)

lemma avl_height_0 [simp]: "avl_height n = 0 \<longleftrightarrow> n = Null"
  by (cases n) auto

lemma inorder_plug [avl_simps]:
  "avl_inorder (avl_plug t p) = path_before p @ avl_inorder t @ path_after p"
  by (induction t p rule: avl_plug.induct) (auto simp: avl_simps)

lemma avl_ok_plug [avl_simps]: "avl_ok (avl_plug t p) \<longleftrightarrow> avl_ok t \<and> path_ok p (avl_height t)"
  by (induction t p rule: avl_plug.induct) (auto simp: avl_simps)

lemma avl_plug_append [avl_simps]: "avl_plug t (p @ q) = avl_plug (avl_plug t p) q"
  by (induction t p rule: avl_plug.induct) auto

lemma path_append [avl_simps]:
  "path_before (p @ q) = path_before q @ path_before p"
  "path_after (p @ q) = path_after p @ path_after q"
  by (induction p rule: path_before.induct) auto

section \<open>Rotation\<close>

text \<open>
  Rebalancing restores the invariant: the tall child has height two more than the short
  one, and the flag returned says whether the subtree has become one shorter than the
  tall child plus one.
\<close>

lemma avl_rotation_ok:
  assumes node: "node = avl_mk c child x b s"
    and ok: "avl_ok child" "avl_ok s"
    and tall: "avl_height child = avl_height s + 2"
    and bal: "balance = (if c then 2 else - 2)"
    and rot: "avl_rotation node balance = (t, shorter)"
  shows "avl_ok t \<and> avl_inorder t = avl_inorder node \<and>
    avl_height t = (if shorter then avl_height s + 2 else avl_height s + 3)"
proof -
  obtain cl cx cb cr where child: "child = Node cl cx cb cr" using tall by (cases child) auto
  have cbal: "cb = int (avl_height cr) - int (avl_height cl)" "\<bar>cb\<bar> \<le> 1" "avl_ok cl" "avl_ok cr"
    using ok(1) by (auto simp: child)
  consider (single) "cb \<noteq> (if c then - 1 else 1)" | (double) "cb = (if c then - 1 else 1)" by blast
  then show ?thesis
  proof cases
    case single
    then show ?thesis
      using rot cbal tall ok(2) unfolding node child bal avl_rotation_def Let_def
      by (cases c) (auto simp: avl_simps max_def split: if_splits)
  next
    case double
    define g where "g = (if c then cl else cr)"
    obtain gl gx gb gr where g: "g = Node gl gx gb gr"
      using double cbal tall by (cases g) (auto simp: g_def child split: if_splits)
    show ?thesis
      using rot cbal tall ok(2) double g unfolding node child bal avl_rotation_def Let_def g_def
      by (cases c) (auto simp: avl_simps max_def split: if_splits)
  qed
qed

section \<open>Insertion\<close>

lemma avl_insert_loop_inorder_ok:
  assumes "avl_ok n" "n \<noteq> Null" "path_ok p h" "avl_height n = Suc h"
    and "h = 0 \<or> avl_balance n \<noteq> 0"
  shows "avl_ok (avl_insert_loop n p) \<and>
    avl_inorder (avl_insert_loop n p) = path_before p @ avl_inorder n @ path_after p"
  using assms
proof (induction n p arbitrary: h rule: avl_insert_loop.induct)
  case (1 n)
  then show ?case by simp
next
  case (2 n c x b s p)
  have s: "avl_ok s" "\<bar>b\<bar> \<le> 1" "path_ok p (Suc (max h (avl_height s)))"
    and b: "b = (if c then int h - int (avl_height s) else int (avl_height s) - int h)"
    using "2.prems" by auto
  define nb where "nb = b + avl_child2balance c"
  consider (even) "nb = 0" | (rot) "nb \<noteq> 0" "b \<noteq> 0" | (up) "nb \<noteq> 0" "b = 0" by blast
  then show ?case
  proof cases
    case even
    then have "Suc (max (avl_height n) (avl_height s)) = Suc (max h (avl_height s))"
      and "(if c then int (avl_height n) - int (avl_height s) else int (avl_height s) - int (avl_height n)) = 0"
      using b "2.prems" by (auto simp: nb_def avl_child2balance_def split: if_splits)
    with even "2.prems" s show ?thesis by (auto simp: avl_simps nb_def max_def)
  next
    case rot
    then have h: "h = Suc (avl_height s)" and nb: "nb = (if c then 2 else - 2)"
      using b s by (auto simp: nb_def avl_child2balance_def split: if_splits)
    obtain t sh where t: "avl_rotation (avl_mk c n x b s) nb = (t, sh)" by fastforce
    have tall: "avl_height n = avl_height s + 2" using "2.prems" h by simp
    note R = avl_rotation_ok [OF refl "2.prems"(1) s(1) tall nb t]
    have "sh"
      using t "2.prems"(1,2,5) h nb unfolding avl_rotation_def Let_def
      by (cases n) (auto simp: avl_simps split: if_splits)
    with R rot t s h show ?thesis by (auto simp: avl_simps nb_def max_def)
  next
    case up
    then have h: "avl_height s = h" and nb: "nb = (if c then 1 else - 1)"
      using b s by (auto simp: nb_def avl_child2balance_def split: if_splits)
    have "avl_ok (avl_mk c n x nb s)" "avl_height (avl_mk c n x nb s) = Suc (Suc h)"
      using "2.prems" s h nb by (auto simp: avl_simps)
    then show ?thesis
      using "2.IH" [of nb "Suc h"] up s h nb "2.prems" by (auto simp: avl_simps nb_def)
  qed
qed

section \<open>Removal\<close>

lemma avl_remove_loop_ok:
  assumes "avl_ok n" "path_ok p (Suc (avl_height n))"
  shows "avl_ok (avl_remove_loop n p) \<and>
    avl_inorder (avl_remove_loop n p) = path_before p @ avl_inorder n @ path_after p"
  using assms
proof (induction n p rule: avl_remove_loop.induct)
  case (1 n)
  then show ?case by simp
next
  case (2 n c x b s p)
  let ?h = "avl_height n"
  have s: "avl_ok s" "\<bar>b\<bar> \<le> 1" "path_ok p (Suc (max (Suc ?h) (avl_height s)))"
    and b: "b = (if c then int (Suc ?h) - int (avl_height s) else int (avl_height s) - int (Suc ?h))"
    using "2.prems" by auto
  define nb where "nb = b - avl_child2balance c"
  consider (stop) "b = 0" | (up) "b \<noteq> 0" "nb = 0" | (rot) "b \<noteq> 0" "nb \<noteq> 0" by blast
  then show ?case
  proof cases
    case stop
    then show ?thesis
      using s b "2.prems" by (auto simp: avl_simps nb_def avl_child2balance_def max_def split: if_splits)
  next
    case up
    then have "avl_height s = ?h"
      using s b by (auto simp: nb_def avl_child2balance_def split: if_splits)
    then have "avl_ok (avl_mk c n x nb s)" "path_ok p (Suc (avl_height (avl_mk c n x nb s)))"
      using "2.prems" s up by (auto simp: avl_simps)
    then show ?thesis
      using "2.IH"(1) [of nb] up by (auto simp: avl_simps nb_def)
  next
    case rot
    then have hs: "avl_height s = avl_height n + 2" and nb: "nb = (if \<not> c then 2 else - 2)"
      using b s by (auto simp: nb_def avl_child2balance_def split: if_splits)
    obtain t sh where t: "avl_rotation (avl_mk c n x b s) nb = (t, sh)" by fastforce
    have mk: "avl_mk c n x b s = avl_mk (\<not> c) s x b n" by (simp add: avl_mk_def)
    note R = avl_rotation_ok [OF mk s(1) "2.prems"(1) hs nb t]
    show ?thesis
    proof (cases sh)
      case True
      then have "avl_ok t" "path_ok p (Suc (avl_height t))" using R s hs by (auto simp: max_def)
      with True rot R t show ?thesis
        using "2.IH"(2) [of nb t sh] by (auto simp: avl_simps nb_def)
    next
      case False
      with R rot t s hs show ?thesis by (auto simp: avl_simps nb_def max_def numeral_3_eq_3)
    qed
  qed
qed

section \<open>Positions: a node among its neighbours\<close>

text \<open>
  A position stands for the node of the tree that has the elements \<open>xs\<close> before it and the
  elements \<open>ys\<close> after it in infix order.
\<close>

definition pos_at :: "'a avl_node \<Rightarrow> 'a list \<Rightarrow> 'a \<Rightarrow> 'a list \<Rightarrow> 'a avl_pos \<Rightarrow> bool" where
  "pos_at root xs x ys pos \<longleftrightarrow> (case pos of (n, p) \<Rightarrow>
     n \<noteq> Null \<and> avl_plug n p = root \<and> avl_data n = x \<and>
     path_before p @ avl_inorder (avl_child False n) = xs \<and>
     avl_inorder (avl_child True n) @ path_after p = ys)"

lemma pos_at_inorder: "pos_at root xs x ys pos \<Longrightarrow> avl_inorder root = xs @ x # ys"
  by (cases pos; cases "fst pos") (auto simp: pos_at_def avl_simps)

lemma avl_descend_first:
  assumes "n \<noteq> Null" "avl_descend False n p = (m, q)"
  shows "m \<noteq> Null \<and> avl_plug m q = avl_plug n p \<and> avl_child False m = Null \<and> path_before q = path_before p \<and>
    avl_inorder n @ path_after p = avl_data m # avl_inorder (avl_child True m) @ path_after q"
  using assms
  by (induction False n p arbitrary: m q rule: avl_descend.induct) (auto simp: avl_mk_def split: if_splits)

lemma avl_descend_last:
  assumes "n \<noteq> Null" "avl_descend True n p = (m, q)"
  shows "m \<noteq> Null \<and> avl_plug m q = avl_plug n p \<and> avl_child True m = Null \<and> path_after q = path_after p \<and>
    path_before p @ avl_inorder n = path_before q @ avl_inorder (avl_child False m) @ [avl_data m]"
  using assms
  by (induction True n p arbitrary: m q rule: avl_descend.induct) (auto simp: avl_mk_def split: if_splits)

lemma avl_ascend_next:
  "(case avl_ascend False n p of
      None \<Rightarrow> path_after p = []
    | Some (m, q) \<Rightarrow> m \<noteq> Null \<and> avl_plug m q = avl_plug n p \<and>
        path_after p = avl_data m # avl_inorder (avl_child True m) @ path_after q \<and>
        path_before q @ avl_inorder (avl_child False m) = path_before p @ avl_inorder n)"
  by (induction False n p rule: avl_ascend.induct) (auto simp: avl_simps split: option.splits)

lemma avl_ascend_prev:
  "(case avl_ascend True n p of
      None \<Rightarrow> path_before p = []
    | Some (m, q) \<Rightarrow> m \<noteq> Null \<and> avl_plug m q = avl_plug n p \<and>
        avl_inorder (avl_child True m) @ path_after q = avl_inorder n @ path_after p \<and>
        path_before p = path_before q @ avl_inorder (avl_child False m) @ [avl_data m])"
  by (induction True n p rule: avl_ascend.induct) (auto simp: avl_simps split: option.splits)

lemma avl_walk_next:
  assumes "pos_at root xs x ys pos"
  shows "case avl_walk pos True of None \<Rightarrow> ys = []
    | Some pos' \<Rightarrow> ys \<noteq> [] \<and> pos_at root (xs @ [x]) (hd ys) (tl ys) pos'"
proof -
  obtain l b r p where pos: "pos = (Node l x b r, p)" and a: "avl_plug (Node l x b r) p = root"
    "path_before p @ avl_inorder l = xs" "avl_inorder r @ path_after p = ys"
    using assms by (cases pos; cases "fst pos") (auto simp: pos_at_def)
  show ?thesis
  proof (cases "r = Null")
    case True
    then show ?thesis
      using avl_ascend_next [where n = "Node l x b r" and p = p] a pos
      by (auto simp: pos_at_def split: option.splits)
  next
    case False
    obtain m q where "avl_descend False r (Crumb True x b l # p) = (m, q)" by fastforce
    with avl_descend_first [OF False this] False a pos show ?thesis
      by (auto simp: pos_at_def avl_mk_def)
  qed
qed

lemma avl_walk_prev:
  assumes "pos_at root xs x ys pos"
  shows "case avl_walk pos False of None \<Rightarrow> xs = []
    | Some pos' \<Rightarrow> xs \<noteq> [] \<and> pos_at root (butlast xs) (last xs) (x # ys) pos'"
proof -
  obtain l b r p where pos: "pos = (Node l x b r, p)" and a: "avl_plug (Node l x b r) p = root"
    "path_before p @ avl_inorder l = xs" "avl_inorder r @ path_after p = ys"
    using assms by (cases pos; cases "fst pos") (auto simp: pos_at_def)
  show ?thesis
  proof (cases "l = Null")
    case True
    then show ?thesis
      using avl_ascend_prev [where n = "Node l x b r" and p = p] a pos
      by (auto simp: pos_at_def butlast_append split: option.splits)
  next
    case False
    obtain m q where "avl_descend True l (Crumb False x b r # p) = (m, q)" by fastforce
    with avl_descend_last [OF False this] False a pos show ?thesis
      by (auto simp: pos_at_def avl_mk_def butlast_append)
  qed
qed

lemma avl_run_descend: "avl_run c n p prev = (if n = Null then prev else Some (avl_descend c n p))"
  by (induction c n p prev rule: avl_run.induct) auto

lemma avl_first_pos:
  "case avl_first t of None \<Rightarrow> avl_inorder (avl_root t) = []
   | Some pos \<Rightarrow> avl_inorder (avl_root t) \<noteq> [] \<and>
       pos_at (avl_root t) [] (hd (avl_inorder (avl_root t))) (tl (avl_inorder (avl_root t))) pos"
proof (cases "avl_root t = Null")
  case True
  then show ?thesis by (simp add: avl_first_def)
next
  case False
  obtain m q where mq: "avl_descend False (avl_root t) [] = (m, q)" by fastforce
  have "avl_inorder (avl_root t) = avl_data m # avl_inorder (avl_child True m) @ path_after q"
    using avl_descend_first [OF False mq] by simp
  with avl_descend_first [OF False mq] False mq show ?thesis
    by (simp add: avl_first_def avl_run_descend pos_at_def)
qed

lemma avl_last_pos:
  "case avl_last t of None \<Rightarrow> avl_inorder (avl_root t) = []
   | Some pos \<Rightarrow> avl_inorder (avl_root t) \<noteq> [] \<and>
       pos_at (avl_root t) (butlast (avl_inorder (avl_root t))) (last (avl_inorder (avl_root t))) [] pos"
proof (cases "avl_root t = Null")
  case True
  then show ?thesis by (simp add: avl_last_def)
next
  case False
  obtain m q where mq: "avl_descend True (avl_root t) [] = (m, q)" by fastforce
  have "avl_inorder (avl_root t) = path_before q @ avl_inorder (avl_child False m) @ [avl_data m]"
    using avl_descend_last [OF False mq] by simp
  with avl_descend_last [OF False mq] False mq show ?thesis
    by (simp add: avl_last_def avl_run_descend pos_at_def butlast_append)
qed

lemma avl_nearest_after:
  "case avl_nearest t w True of None \<Rightarrow> path_after w = []
   | Some pos \<Rightarrow> path_after w \<noteq> [] \<and>
       pos_at (avl_plug Null w) (path_before w) (hd (path_after w)) (tl (path_after w)) pos"
proof (cases w)
  case Nil
  then show ?thesis by simp
next
  case (Cons cr p)
  obtain c x b s where cr: "cr = Crumb c x b s" by (cases cr)
  show ?thesis
  proof (cases c)
    case True
    have "pos_at (avl_plug Null w) (path_before p @ avl_inorder s) x (path_after p) (avl_mk c Null x b s, p)"
      using Cons cr True by (auto simp: pos_at_def avl_simps)
    from avl_walk_next [OF this] show ?thesis using Cons cr True by (auto simp: split: option.splits)
  next
    case False
    then show ?thesis using Cons cr by (auto simp: pos_at_def avl_simps)
  qed
qed

lemma avl_nearest_before:
  "case avl_nearest t w False of None \<Rightarrow> path_before w = []
   | Some pos \<Rightarrow> path_before w \<noteq> [] \<and>
       pos_at (avl_plug Null w) (butlast (path_before w)) (last (path_before w)) (path_after w) pos"
proof (cases w)
  case Nil
  then show ?thesis by simp
next
  case (Cons cr p)
  obtain c x b s where cr: "cr = Crumb c x b s" by (cases cr)
  show ?thesis
  proof (cases c)
    case False
    have "pos_at (avl_plug Null w) (path_before p) x (avl_inorder s @ path_after p) (avl_mk c Null x b s, p)"
      using Cons cr False by (auto simp: pos_at_def avl_simps)
    from avl_walk_prev [OF this] show ?thesis using Cons cr False by (auto simp: split: option.splits)
  next
    case True
    then show ?thesis using Cons cr by (auto simp: pos_at_def avl_simps butlast_append)
  qed
qed

section \<open>Traversal\<close>

definition pos_after :: "'a avl_pos \<Rightarrow> 'a list" where
  "pos_after pos = avl_inorder (avl_child True (fst pos)) @ path_after (snd pos)"

lemma avl_walk_shrinks:
  "avl_walk pos True = Some pos' \<Longrightarrow> length (pos_after pos') < length (pos_after pos)"
proof -
  assume w: "avl_walk pos True = Some pos'"
  obtain n p where pos: "pos = (n, p)" by fastforce
  have "n \<noteq> Null" using w pos by (cases n) auto
  then have "pos_at (avl_plug n p) (path_before p @ avl_inorder (avl_child False n)) (avl_data n) (pos_after pos) pos"
    by (simp add: pos_at_def pos pos_after_def)
  from avl_walk_next [OF this] w show ?thesis
    by (cases "pos_after pos") (auto simp: pos_at_def pos_after_def)
qed

function avl_list_from :: "'a avl_pos option \<Rightarrow> 'a list" where
  "avl_list_from None = []"
| "avl_list_from (Some pos) = avl_data (fst pos) # avl_list_from (avl_walk pos True)"
  by pat_completeness auto
termination
  by (relation "measure (\<lambda>q. case q of None \<Rightarrow> 0 | Some pos \<Rightarrow> Suc (length (pos_after pos)))")
    (auto split: option.splits dest: avl_walk_shrinks)

lemma avl_list_from_pos:
  "pos_at root xs x ys pos \<Longrightarrow> avl_list_from (Some pos) = x # ys"
proof (induction ys arbitrary: xs x pos)
  case Nil
  then show ?case using avl_walk_next [OF Nil] by (auto simp: pos_at_def split: option.splits)
next
  case (Cons y ys)
  show ?case
    using avl_walk_next [OF Cons.prems] Cons.IH Cons.prems
    by (auto simp: pos_at_def split: option.splits)
qed

lemma avl_list_from_first: "avl_list_from (avl_first t) = avl_inorder (avl_root t)"
  using avl_first_pos [of t] avl_list_from_pos by (fastforce split: option.splits)

section \<open>Removal at a position\<close>

lemma avl_swap_leafward:
  assumes "avl_swap (n, p) = (d, q)" "n \<noteq> Null" "avl_ok (avl_plug n p)"
  shows "d \<noteq> Null \<and> (avl_child False d = Null \<or> avl_child True d = Null) \<and>
    avl_ok d \<and> path_ok q (avl_height d) \<and>
    path_before q @ avl_inorder (avl_child False d) @ avl_inorder (avl_child True d) @ path_after q =
    path_before p @ avl_inorder (avl_child False n) @ avl_inorder (avl_child True n) @ path_after p"
proof -
  obtain l x b r where n: "n = Node l x b r" using assms(2) by (cases n) auto
  consider (one) "\<not> (l \<noteq> Null \<and> r \<noteq> Null)" | (pred) "l \<noteq> Null" "r \<noteq> Null" "\<not> avl_balance2child b"
    | (succ) "l \<noteq> Null" "r \<noteq> Null" "avl_balance2child b" by blast
  then show ?thesis
  proof cases
    case one
    with assms n show ?thesis by (auto simp: avl_simps)
  next
    case pred
    obtain m q' where m: "avl_descend True l [] = (m, q')" by fastforce
    have D: "d = m" "q = q' @ Crumb False (avl_data m) b r # p" using assms(1) n pred m by auto
    have "avl_ok (avl_plug (Node l (avl_data m) b r) p)" using assms(3) n by (auto simp: avl_simps)
    then have "avl_ok (avl_plug d q)"
      using D avl_descend_last [OF pred(1) m] by (auto simp: avl_simps avl_mk_def)
    then have "avl_ok d \<and> path_ok q (avl_height d)" by (simp only: avl_ok_plug)
    with D n avl_descend_last [OF pred(1) m] show ?thesis by (auto simp: avl_simps)
  next
    case succ
    obtain m q' where m: "avl_descend False r [] = (m, q')" by fastforce
    have D: "d = m" "q = q' @ Crumb True (avl_data m) b l # p" using assms(1) n succ m by auto
    have "avl_ok (avl_plug (Node l (avl_data m) b r) p)" using assms(3) n by (auto simp: avl_simps)
    then have "avl_ok (avl_plug d q)"
      using D avl_descend_first [OF succ(2) m] by (auto simp: avl_simps avl_mk_def)
    then have "avl_ok d \<and> path_ok q (avl_height d)" by (simp only: avl_ok_plug)
    with D n avl_descend_first [OF succ(2) m] show ?thesis by (auto simp: avl_simps)
  qed
qed

lemma avl_remove_root:
  assumes "pos_at (avl_root t) xs x ys pos" "avl_ok (avl_root t)"
  shows "avl_ok (avl_root (avl_remove t pos)) \<and> avl_inorder (avl_root (avl_remove t pos)) = xs @ ys"
proof -
  obtain n p where pos: "pos = (n, p)" by fastforce
  have n: "n \<noteq> Null" "avl_plug n p = avl_root t" and xy: "xs = path_before p @ avl_inorder (avl_child False n)"
    "ys = avl_inorder (avl_child True n) @ path_after p" using assms(1) pos by (auto simp: pos_at_def)
  obtain d q where d: "avl_swap (n, p) = (d, q)" by fastforce
  note S = avl_swap_leafward [OF d n(1)]
  define m where "m = (if avl_child False d \<noteq> Null then avl_child False d else avl_child True d)"
  have m: "avl_ok m" "path_ok q (Suc (avl_height m))"
    "avl_inorder (avl_child False d) @ avl_inorder (avl_child True d) = avl_inorder m"
    using S n(2) assms(2) by (cases d; auto simp: m_def)+
  have "path_before q @ avl_inorder m @ path_after q = xs @ ys" using S n(2) assms(2) xy m(3) by auto
  moreover have "avl_root (avl_remove t pos) = avl_remove_loop m q" using pos d by (simp add: m_def Let_def)
  ultimately show ?thesis using avl_remove_loop_ok [OF m(1,2)] by simp
qed

section \<open>Insertion at an index and next to a node\<close>

lemma avl_insert_at:
  assumes "avl_plug Null w = avl_root t" "avl_ok (avl_root t)"
  shows "avl_ok (avl_root (avl_insert t v w)) \<and>
    avl_inorder (avl_root (avl_insert t v w)) = path_before w @ v # path_after w"
proof -
  have "path_ok w 0" using assms avl_ok_plug [of Null w] by simp
  then show ?thesis
    using avl_insert_loop_inorder_ok [of "Node Null v 0 Null" w 0] by (auto simp: avl_insert_def)
qed

lemma avl_insert_sel [simp]:
  "avl_numnodes (avl_insert t v w) = avl_numnodes t + 1" "avl_compar (avl_insert t v w) = avl_compar t"
  by (simp_all add: avl_insert_def)

lemma avl_insert_here_after:
  assumes "pos_at (avl_root t) xs x ys pos" "avl_ok (avl_root t)"
  shows "avl_ok (avl_root (avl_insert_here t v pos True)) \<and>
    avl_inorder (avl_root (avl_insert_here t v pos True)) = xs @ x # v # ys \<and>
    avl_numnodes (avl_insert_here t v pos True) = avl_numnodes t + 1 \<and>
    avl_compar (avl_insert_here t v pos True) = avl_compar t"
proof -
  obtain l b r p where pos: "pos = (Node l x b r, p)" and a: "avl_plug (Node l x b r) p = avl_root t"
    "path_before p @ avl_inorder l = xs" "avl_inorder r @ path_after p = ys"
    using assms(1) by (cases pos; cases "fst pos") (auto simp: pos_at_def)
  show ?thesis
  proof (cases "r = Null")
    case True
    then show ?thesis
      using avl_insert_at [of "Crumb True x b l # p" t v] a assms(2) pos by (auto simp: avl_mk_def)
  next
    case False
    obtain m q where mq: "avl_descend False r (Crumb True x b l # p) = (m, q)" by fastforce
    note D = avl_descend_first [OF False mq]
    then obtain y c s where m: "m = Node Null y c s" by (cases m) auto
    show ?thesis
      using avl_insert_at [of "Crumb False y c s # q" t v] a assms(2) pos mq m D False
      by (auto simp: avl_mk_def)
  qed
qed

lemma avl_insert_here_before:
  assumes "pos_at (avl_root t) xs x ys pos" "avl_ok (avl_root t)"
  shows "avl_ok (avl_root (avl_insert_here t v pos False)) \<and>
    avl_inorder (avl_root (avl_insert_here t v pos False)) = xs @ v # x # ys \<and>
    avl_numnodes (avl_insert_here t v pos False) = avl_numnodes t + 1 \<and>
    avl_compar (avl_insert_here t v pos False) = avl_compar t"
proof -
  obtain l b r p where pos: "pos = (Node l x b r, p)" and a: "avl_plug (Node l x b r) p = avl_root t"
    "path_before p @ avl_inorder l = xs" "avl_inorder r @ path_after p = ys"
    using assms(1) by (cases pos; cases "fst pos") (auto simp: pos_at_def)
  show ?thesis
  proof (cases "l = Null")
    case True
    then show ?thesis
      using avl_insert_at [of "Crumb False x b r # p" t v] a assms(2) pos by (auto simp: avl_mk_def)
  next
    case False
    obtain m q where mq: "avl_descend True l (Crumb False x b r # p) = (m, q)" by fastforce
    note D = avl_descend_last [OF False mq]
    then obtain y c s where m: "m = Node s y c Null" by (cases m) auto
    show ?thesis
      using avl_insert_at [of "Crumb True y c s # q" t v] a assms(2) pos mq m D False
      by (auto simp: avl_mk_def)
  qed
qed

section \<open>Storing through a pointer\<close>

lemma avl_setpos_pos:
  assumes "pos_at root xs x ys pos"
  shows "pos_at (avl_plug (fst (avl_setpos pos y)) (snd (avl_setpos pos y))) xs y ys (avl_setpos pos y)"
  using assms by (cases pos; cases "fst pos") (auto simp: pos_at_def)

lemma avl_setpos_ok:
  assumes "pos_at root xs x ys pos"
  shows "avl_ok (avl_plug (fst (avl_setpos pos y)) (snd (avl_setpos pos y))) \<longleftrightarrow> avl_ok root"
  using assms by (cases pos; cases "fst pos") (auto simp: pos_at_def avl_ok_plug)

section \<open>The comparator contract\<close>

text \<open>
  What the tree code relies on of the comparison callback it is given, on the elements
  that its client stores and searches for: it is three-valued, reversing the arguments
  reverses the sign, and being smaller is transitive. Two elements may compare equal
  without being equal, as overlapping space map segments do.
\<close>

definition avl_wf :: "('a \<Rightarrow> bool) \<Rightarrow> 'a avl_tree \<Rightarrow> bool" where
  "avl_wf carrier t \<longleftrightarrow>
     avl_ok (avl_root t) \<and> avl_numnodes t = length (avl_inorder (avl_root t)) \<and>
     (\<forall>x\<in>set (avl_inorder (avl_root t)). carrier x) \<and>
     sorted_wrt (\<lambda>x y. avl_compar t x y = - 1) (avl_inorder (avl_root t))"

abbreviation avl_elems :: "'a avl_tree \<Rightarrow> 'a list" where
  "avl_elems t \<equiv> avl_inorder (avl_root t)"

locale avl_order =
  fixes compar :: "'a \<Rightarrow> 'a \<Rightarrow> int" and carrier :: "'a \<Rightarrow> bool"
  assumes compar_range: "carrier x \<Longrightarrow> carrier y \<Longrightarrow> compar x y = - 1 \<or> compar x y = 0 \<or> compar x y = 1"
    and compar_swap: "carrier x \<Longrightarrow> carrier y \<Longrightarrow> compar y x = - compar x y"
    and compar_trans: "carrier x \<Longrightarrow> carrier y \<Longrightarrow> carrier z \<Longrightarrow>
      compar x y = - 1 \<Longrightarrow> compar y z = - 1 \<Longrightarrow> compar x z = - 1"
begin

lemma compar_gt: "carrier x \<Longrightarrow> carrier y \<Longrightarrow> compar x y = 1 \<longleftrightarrow> compar y x = - 1"
  using compar_swap [of x y] by simp

lemma compar_refl: "carrier x \<Longrightarrow> compar x x = 0"
  using compar_swap [of x x] by simp

lemma find_loop_spec:
  assumes "carrier v" "\<forall>y\<in>set (path_before p @ avl_inorder n @ path_after p). carrier y"
    and "sorted_wrt (\<lambda>x y. compar x y = - 1) (path_before p @ avl_inorder n @ path_after p)"
    and "\<forall>y\<in>set (path_before p). compar v y = 1" "\<forall>y\<in>set (path_after p). compar v y = - 1"
  shows "case avl_find_loop compar v n p of
      Inl (m, q) \<Rightarrow> m \<noteq> Null \<and> avl_plug m q = avl_plug n p \<and> compar v (avl_data m) = 0
    | Inr w \<Rightarrow> avl_plug Null w = avl_plug n p \<and>
        (\<forall>y\<in>set (path_before w). compar v y = 1) \<and> (\<forall>y\<in>set (path_after w). compar v y = - 1)"
  using assms
proof (induction n arbitrary: p)
  case Null
  then show ?case by simp
next
  case (Node l x b r)
  have cx: "carrier x" and cy: "\<And>y. y \<in> set (avl_inorder l) \<union> set (avl_inorder r) \<Longrightarrow> carrier y"
    using Node.prems(2) by auto
  have lx: "\<And>y. y \<in> set (avl_inorder l) \<Longrightarrow> compar y x = - 1"
    and xr: "\<And>y. y \<in> set (avl_inorder r) \<Longrightarrow> compar x y = - 1"
    using Node.prems(3) by (auto simp: sorted_wrt_append)
  consider (eq) "compar v x = 0" | (lt) "compar v x = - 1" | (gt) "compar v x = 1"
    using compar_range [OF Node.prems(1) cx] by blast
  then show ?case
  proof cases
    case eq
    then show ?thesis by simp
  next
    case lt
    have "\<forall>y\<in>set (avl_inorder r). compar v y = - 1"
      using compar_trans [OF Node.prems(1) cx cy lt xr] by blast
    then have "\<forall>y\<in>set (path_after (Crumb False x b r # p)). compar v y = - 1"
      using lt Node.prems(5) by auto
    moreover have "sorted_wrt (\<lambda>x y. compar x y = - 1)
        (path_before (Crumb False x b r # p) @ avl_inorder l @ path_after (Crumb False x b r # p))"
      using Node.prems(3) by simp
    moreover have pl: "avl_plug (Node l x b r) p = avl_plug l (Crumb False x b r # p)"
      by (simp add: avl_mk_def)
    ultimately show ?thesis unfolding pl
      using Node.IH(1) [of "Crumb False x b r # p"] Node.prems(1,2,4) lt
      by (simp add: avl_balance2child_def ball_Un del: avl_plug.simps)
  next
    case gt
    have "\<forall>y\<in>set (avl_inorder l). compar v y = 1"
      using compar_trans [OF cy cx Node.prems(1) lx] compar_gt cx cy Node.prems(1) gt by blast
    then have "\<forall>y\<in>set (path_before (Crumb True x b l # p)). compar v y = 1"
      using gt Node.prems(4) by auto
    moreover have "sorted_wrt (\<lambda>x y. compar x y = - 1)
        (path_before (Crumb True x b l # p) @ avl_inorder r @ path_after (Crumb True x b l # p))"
      using Node.prems(3) by simp
    moreover have pl: "avl_plug (Node l x b r) p = avl_plug r (Crumb True x b l # p)"
      by (simp add: avl_mk_def)
    ultimately show ?thesis unfolding pl
      using Node.IH(2) [of "Crumb True x b l # p"] Node.prems(1,2,5) gt
      by (simp add: avl_balance2child_def ball_Un del: avl_plug.simps)
  qed
qed

lemma find_Inl:
  assumes "avl_wf carrier t" "avl_compar t = compar" "carrier v" "avl_find t v = Inl pos"
  shows "\<exists>xs y ys. pos_at (avl_root t) xs y ys pos \<and> compar v y = 0"
proof -
  obtain n p where pos: "pos = (n, p)" by fastforce
  show ?thesis
    using find_loop_spec [of v "[]" "avl_root t"] assms
    by (auto simp: pos avl_wf_def avl_find_def pos_at_def split: sum.splits)
qed

lemma find_Inr:
  assumes "avl_wf carrier t" "avl_compar t = compar" "carrier v" "avl_find t v = Inr w"
  shows "avl_plug Null w = avl_root t \<and> avl_elems t = path_before w @ path_after w \<and>
    (\<forall>y\<in>set (path_before w). compar v y = 1) \<and> (\<forall>y\<in>set (path_after w). compar v y = - 1)"
proof -
  have *: "avl_plug Null w = avl_root t \<and>
    (\<forall>y\<in>set (path_before w). compar v y = 1) \<and> (\<forall>y\<in>set (path_after w). compar v y = - 1)"
    using find_loop_spec [of v "[]" "avl_root t"] assms
    by (auto simp: avl_wf_def avl_find_def)
  then have "avl_elems t = path_before w @ path_after w" by (metis inorder_plug avl_inorder.simps(1) append_Nil)
  with * show ?thesis by simp
qed

lemma find_iff:
  assumes "avl_wf carrier t" "avl_compar t = compar" "carrier v"
  shows "(\<exists>pos. avl_find t v = Inl pos) \<longleftrightarrow> (\<exists>y\<in>set (avl_elems t). compar v y = 0)"
proof (cases "avl_find t v")
  case (Inl pos)
  then show ?thesis using find_Inl [OF assms Inl] pos_at_inorder by fastforce
next
  case (Inr w)
  then show ?thesis using find_Inr [OF assms Inr] by fastforce
qed

lemma wf_insert:
  assumes "avl_wf carrier t" "avl_compar t = compar" "carrier v" "avl_find t v = Inr w"
  shows "avl_wf carrier (avl_insert t v w) \<and> avl_compar (avl_insert t v w) = compar \<and>
    avl_elems (avl_insert t v w) = path_before w @ v # path_after w"
proof -
  note F = find_Inr [OF assms]
  have "path_ok w 0" using F assms(1) avl_ok_plug [of Null w] by (auto simp: avl_wf_def)
  then have I: "avl_ok (avl_root (avl_insert t v w))" "avl_elems (avl_insert t v w) = path_before w @ v # path_after w"
    using avl_insert_loop_inorder_ok [of "Node Null v 0 Null" w 0] by (auto simp: avl_insert_def)
  have "\<forall>y\<in>set (path_before w). compar y v = - 1"
    using F assms(1,3) compar_gt [of v] by (auto simp: avl_wf_def)
  then show ?thesis
    using I F assms by (auto simp: avl_wf_def avl_insert_def sorted_wrt_append)
qed

lemma wf_remove_gen:
  assumes "avl_ok (avl_root t)" "avl_numnodes t = length (avl_elems t)" "avl_compar t = compar"
    and "pos_at (avl_root t) xs x ys pos"
    and "sorted_wrt (\<lambda>x y. compar x y = - 1) (xs @ ys)" "\<forall>y\<in>set (xs @ ys). carrier y"
  shows "avl_wf carrier (avl_remove t pos) \<and> avl_compar (avl_remove t pos) = compar \<and>
    avl_elems (avl_remove t pos) = xs @ ys"
proof -
  have R: "avl_ok (avl_root (avl_remove t pos))" "avl_elems (avl_remove t pos) = xs @ ys"
    using avl_remove_root [OF assms(4,1)] by auto
  have C: "avl_compar (avl_remove t pos) = compar" "avl_numnodes (avl_remove t pos) = avl_numnodes t - 1"
    using assms(3) by (auto simp: Let_def split: prod.splits)
  show ?thesis
    using R C assms pos_at_inorder [OF assms(4)]
    by (auto simp: avl_wf_def simp del: avl_remove.simps)
qed

lemma wf_remove:
  assumes "avl_wf carrier t" "avl_compar t = compar" "pos_at (avl_root t) xs x ys pos"
  shows "avl_wf carrier (avl_remove t pos) \<and> avl_compar (avl_remove t pos) = compar \<and>
    avl_elems (avl_remove t pos) = xs @ ys"
  by (rule wf_remove_gen)
    (use assms pos_at_inorder [OF assms(3)] in \<open>auto simp: avl_wf_def sorted_wrt_append\<close>)

lemma wf_create: "avl_wf carrier (avl_create compar)"
  by (simp add: avl_wf_def avl_create_def)

lemma wf_add:
  assumes "avl_wf carrier t" "avl_compar t = compar" "carrier v" "\<forall>y\<in>set (avl_elems t). compar v y \<noteq> 0"
  shows "\<exists>t' xs ys. avl_add t v = Some t' \<and> avl_wf carrier t' \<and> avl_compar t' = compar \<and>
    avl_elems t = xs @ ys \<and> avl_elems t' = xs @ v # ys"
proof -
  obtain w where w: "avl_find t v = Inr w"
    using find_iff [OF assms(1-3)] assms(4) by (cases "avl_find t v") auto
  show ?thesis
    using wf_insert [OF assms(1-3) w] find_Inr [OF assms(1-3) w] w by (auto simp: avl_add_def)
qed

text \<open>
  Moving an element whose key was changed in place: all the other elements are in order,
  and no other element compares equal to the changed one.
\<close>

lemma wf_reinsert:
  assumes "avl_ok (avl_root t)" "avl_numnodes t = length (avl_elems t)" "avl_compar t = compar"
    and "pos_at (avl_root t) xs x ys pos"
    and "sorted_wrt (\<lambda>x y. compar x y = - 1) (xs @ ys)" "\<forall>y\<in>set (xs @ x # ys). carrier y"
    and "\<forall>y\<in>set (xs @ ys). compar x y \<noteq> 0"
  shows "\<exists>t' us vs. avl_reinsert t pos = Some t' \<and> avl_wf carrier t' \<and> avl_compar t' = compar \<and>
    us @ vs = xs @ ys \<and> avl_elems t' = us @ x # vs"
proof -
  note R = wf_remove_gen [OF assms(1-5)]
  have x: "avl_data (fst pos) = x" using assms(4) by (cases pos) (auto simp: pos_at_def)
  show ?thesis
    using wf_add [of "avl_remove t pos" x] R assms(6,7) unfolding avl_reinsert_def x
    by (auto simp del: avl_remove.simps) metis
qed

lemma update_cases:
  assumes "avl_compar t = compar" "pos_at (avl_root t) xs x ys pos"
  shows "avl_update t pos =
    (if (xs \<noteq> [] \<and> compar x (last xs) < 0) \<or> (ys \<noteq> [] \<and> compar x (hd ys) > 0)
     then map_option (\<lambda>t'. (t', True)) (avl_reinsert t pos) else Some (t, False))"
proof -
  have x: "avl_data (fst pos) = x" using assms(2) by (cases pos) (auto simp: pos_at_def)
  have D: "\<And>us y vs q. pos_at (avl_root t) us y vs q \<Longrightarrow> avl_data (fst q) = y" by (auto simp: pos_at_def)
  show ?thesis
    using avl_walk_prev [OF assms(2)] avl_walk_next [OF assms(2)] assms(1)
    by (auto simp: avl_update_def avl_update_lt_def avl_update_gt_def x dest!: D split: option.splits)
qed

lemma sorted_mid_neighbours:
  assumes "sorted_wrt (\<lambda>x y. compar x y = - 1) (xs @ ys)" "\<forall>y\<in>set (xs @ x # ys). carrier y"
    and "\<forall>y\<in>set (xs @ ys). compar x y \<noteq> 0"
    and "xs \<noteq> [] \<Longrightarrow> \<not> compar x (last xs) < 0" "ys \<noteq> [] \<Longrightarrow> \<not> compar x (hd ys) > 0"
  shows "sorted_wrt (\<lambda>x y. compar x y = - 1) (xs @ x # ys)"
proof -
  have cx: "carrier x" using assms(2) by simp
  have "compar y x = - 1" if y: "y \<in> set xs" for y
  proof -
    obtain us l where xs: "xs = us @ [l]" using y by (cases xs rule: rev_cases) auto
    have l: "carrier l" using assms(2) xs by simp
    have "compar x l = 1"
      using assms(3,4) xs compar_range [OF cx l] by auto
    then have "compar l x = - 1" using compar_gt [OF cx l] by simp
    then show ?thesis
      using y assms(1,2) xs compar_trans [of y l x] cx l by (auto simp: sorted_wrt_append)
  qed
  moreover have "compar x y = - 1" if y: "y \<in> set ys" for y
  proof -
    obtain h vs where ys: "ys = h # vs" using y by (cases ys) auto
    have h: "carrier h" using assms(2) ys by simp
    have "compar x h = - 1"
      using assms(3,5) ys compar_range [OF cx h] by auto
    then show ?thesis
      using y assms(1,2) ys compar_trans [of x h y] cx h by (auto simp: sorted_wrt_append)
  qed
  ultimately show ?thesis using assms(1) by (auto simp: sorted_wrt_append)
qed

lemma wf_update:
  assumes "avl_ok (avl_root t)" "avl_numnodes t = length (avl_elems t)" "avl_compar t = compar"
    and "pos_at (avl_root t) xs x ys pos"
    and "sorted_wrt (\<lambda>x y. compar x y = - 1) (xs @ ys)" "\<forall>y\<in>set (xs @ x # ys). carrier y"
    and "\<forall>y\<in>set (xs @ ys). compar x y \<noteq> 0"
  shows "\<exists>t' moved us vs. avl_update t pos = Some (t', moved) \<and> avl_wf carrier t' \<and>
    us @ vs = xs @ ys \<and> avl_elems t' = us @ x # vs"
proof (cases "(xs \<noteq> [] \<and> compar x (last xs) < 0) \<or> (ys \<noteq> [] \<and> compar x (hd ys) > 0)")
  case True
  then show ?thesis using update_cases [OF assms(3,4)] wf_reinsert [OF assms] by auto
next
  case False
  then have "sorted_wrt (\<lambda>x y. compar x y = - 1) (xs @ x # ys)"
    using sorted_mid_neighbours [OF assms(5-7)] by auto
  then show ?thesis
    using update_cases [OF assms(3,4)] False assms pos_at_inorder [OF assms(4)]
    by (auto simp: avl_wf_def)
qed

end

lemma pos_at_unique:
  assumes "avl_order compar carrier" "avl_wf carrier t" "avl_compar t = compar" "v \<in> set (avl_elems t)"
  shows "\<exists>pos xs ys. avl_find t v = Inl pos \<and> pos_at (avl_root t) xs v ys pos \<and> v \<notin> set xs"
proof -
  have cv: "carrier v" using assms(2,4) by (auto simp: avl_wf_def)
  note refl = avl_order.compar_refl [OF assms(1)]
  obtain pos where pos: "avl_find t v = Inl pos"
    using avl_order.find_iff [OF assms(1-3) cv] refl [OF cv] assms(4) by blast
  obtain xs y ys where y: "pos_at (avl_root t) xs y ys pos" "compar v y = 0"
    using avl_order.find_Inl [OF assms(1-3) cv pos] by blast
  have el: "avl_elems t = xs @ y # ys" by (rule pos_at_inorder [OF y(1)])
  have cy: "carrier y" using el assms(2) by (auto simp: avl_wf_def)
  have srt: "\<forall>z\<in>set xs. compar z y = - 1" "\<forall>z\<in>set ys. compar y z = - 1"
    using assms(2,3) el by (auto simp: avl_wf_def sorted_wrt_append)
  have "compar y v = 0" using avl_order.compar_swap [OF assms(1) cv cy] y(2) by simp
  then have "v = y" "v \<notin> set xs" using assms(4) el srt y(2) by auto
  with pos y show ?thesis by auto
qed

lemma avl_set_elems:
  assumes "avl_order compar carrier" "avl_wf carrier t" "avl_compar t = compar" "avl_elems t = xs @ x # ys"
  shows "avl_elems (avl_set t x y) = xs @ y # ys \<and> avl_ok (avl_root (avl_set t x y)) \<and>
    avl_numnodes (avl_set t x y) = avl_numnodes t \<and> avl_compar (avl_set t x y) = compar"
proof -
  obtain pos us vs where P: "avl_find t x = Inl pos" "pos_at (avl_root t) us x vs pos" "x \<notin> set us"
    using pos_at_unique [OF assms(1-3), of x] assms(4) by auto
  have "x \<notin> set xs"
    using assms(2-4) avl_order.compar_refl [OF assms(1), of x] by (auto simp: avl_wf_def sorted_wrt_append)
  then have "us = xs" "vs = ys"
    using pos_at_inorder [OF P(2)] assms(4) P(3) split_first_unique [of xs x ys us vs] by auto
  then show ?thesis
    using P avl_setpos_pos [OF P(2), of y] avl_setpos_ok [OF P(2), of y] assms(2,3)
    by (auto simp: avl_set_def avl_wf_def dest: pos_at_inorder)
qed

section \<open>Destroying visits every node once, children first\<close>

fun avl_postorder :: "'a avl_node \<Rightarrow> 'a list" where
  "avl_postorder Null = []"
| "avl_postorder (Node l x b r) = avl_postorder l @ avl_postorder r @ [x]"

fun path_rest :: "'a crumb list \<Rightarrow> 'a list" where
  \<comment> \<open>what is still to be visited once the node below the path is done\<close>
  "path_rest [] = []"
| "path_rest (Crumb c x b s # p) = (if c then [x] else avl_postorder s @ [x]) @ path_rest p"

fun path_pending :: "'a crumb list \<Rightarrow> bool" where
  "path_pending [] = True"
| "path_pending (Crumb c x b s # p) \<longleftrightarrow> (if c then s = Null else avl_ok s) \<and> path_pending p"

lemma avl_ok_right_leaf:
  assumes "avl_ok (Node Null x b r)"
  shows "r = Null \<or> (\<exists>y d. r = Node Null y d Null)"
  using assms by (cases r) (auto simp: max_def split: if_splits)

lemma avl_first_visit:
  assumes "n \<noteq> Null" "avl_ok n" "path_pending p"
  shows "case avl_check_right_side (avl_descend False n p) of (m, q) \<Rightarrow>
    m \<noteq> Null \<and> path_pending q \<and> avl_postorder n @ path_rest p = avl_data m # path_rest q"
  using assms
proof (induction False n p rule: avl_descend.induct)
  case (1 p)
  then show ?case by simp
next
  case (2 l x b r p)
  then show ?case
    using avl_ok_right_leaf [of x b r] by (cases "l = Null") auto
qed

lemma avl_plug_not_Null: "t \<noteq> Null \<Longrightarrow> avl_plug t p \<noteq> Null"
  by (induction t p rule: avl_plug.induct) (auto simp: avl_mk_def)

lemma destroy_step:
  assumes "path_pending p" "p \<noteq> []" "avl_root t \<noteq> Null"
  shows "\<exists>t' q. avl_destroy_nodes t (Some p) = (Some (hd (path_rest p)), t', Some q) \<and>
    path_pending q \<and> path_rest q = tl (path_rest p) \<and> avl_root t' \<noteq> Null \<and> path_rest p \<noteq> [] \<and>
    avl_compar t' = avl_compar t"
proof -
  obtain c x b s p' where p: "p = Crumb c x b s # p'" using assms(2) by (cases p; cases "hd p") auto
  show ?thesis
  proof (cases "c \<or> s = Null")
    case True
    then show ?thesis using assms p by (auto simp: avl_simps avl_plug_not_Null)
  next
    case False
    obtain m q where mq: "avl_check_right_side (avl_descend False s (Crumb True x b Null # p')) = (m, q)"
      by fastforce
    have "path_pending (Crumb True x b Null # p')" using assms p False by simp
    with avl_first_visit [of s "Crumb True x b Null # p'"] mq False assms p
    show ?thesis by (auto simp: avl_simps avl_plug_not_Null)
  qed
qed

lemma destroy_loop_rest:
  assumes "path_pending p" "avl_root t \<noteq> Null" "length (path_rest p) < fuel"
  shows "\<exists>t'. avl_destroy_loop fuel t (Some p) = Some (path_rest p, t') \<and>
    avl_root t' = Null \<and> avl_numnodes t' = 0 \<and> avl_compar t' = avl_compar t"
  using assms
proof (induction fuel arbitrary: t p)
  case 0
  then show ?case by simp
next
  case (Suc fuel)
  show ?case
  proof (cases "p = []")
    case True
    with Suc.prems show ?thesis by simp
  next
    case False
    obtain t' q where S: "avl_destroy_nodes t (Some p) = (Some (hd (path_rest p)), t', Some q)"
      "path_pending q" "path_rest q = tl (path_rest p)" "avl_root t' \<noteq> Null" "path_rest p \<noteq> []"
      "avl_compar t' = avl_compar t"
      using destroy_step [OF Suc.prems(1) False Suc.prems(2)] by blast
    have "length (path_rest q) < fuel" using Suc.prems(3) S(3,5) by (cases "path_rest p") auto
    from Suc.IH [OF S(2,4) this] S show ?thesis by auto
  qed
qed

lemma mset_postorder: "mset (avl_postorder n) = mset (avl_inorder n)"
  by (induction n) auto

lemma length_postorder: "length (avl_postorder n) = length (avl_inorder n)"
  using mset_postorder [of n] by (metis size_mset)

lemma set_postorder: "set (avl_postorder n) = set (avl_inorder n)"
  using mset_postorder [of n] by (metis set_mset_mset)

lemma destroy_loop_postorder:
  assumes "avl_ok (avl_root t)" "avl_numnodes t = length (avl_elems t)" "length (avl_elems t) + 1 < fuel"
  shows "\<exists>t'. avl_destroy_loop fuel t None = Some (avl_postorder (avl_root t), t') \<and>
    avl_root t' = Null \<and> avl_numnodes t' = 0 \<and> avl_compar t' = avl_compar t"
proof (cases "avl_root t = Null")
  case True
  with assms show ?thesis by (cases fuel) (auto simp: avl_first_def)
next
  case False
  obtain f where fuel: "fuel = Suc f" using assms(3) by (cases fuel) auto
  obtain m q where mq: "avl_check_right_side (avl_descend False (avl_root t) []) = (m, q)" by fastforce
  have V: "path_pending q" "avl_postorder (avl_root t) = avl_data m # path_rest q"
    using avl_first_visit [OF False assms(1), of "[]"] mq by auto
  have "length (path_rest q) < f"
    using assms(3) fuel V(2) length_postorder [of "avl_root t"] by simp
  from destroy_loop_rest [OF V(1) False this] show ?thesis
    using V fuel mq False by (auto simp: avl_first_def avl_run_descend)
qed

section \<open>Height of a balanced tree\<close>

lemma avl_height_log: "avl_ok n \<Longrightarrow> 2 ^ (avl_height n div 2) \<le> length (avl_inorder n) + 1"
proof (induction n rule: measure_induct_rule [of size])
  case (less n)
  show ?case
  proof (cases n)
    case Null
    then show ?thesis by simp
  next
    case (Node l x b r)
    have ok: "avl_ok l" "avl_ok r" "\<bar>int (avl_height r) - int (avl_height l)\<bar> \<le> 1"
      using less.prems Node by auto
    have IH: "2 ^ (avl_height l div 2) \<le> length (avl_inorder l) + 1"
      "2 ^ (avl_height r div 2) \<le> length (avl_inorder r) + 1"
      using less.IH [of l] less.IH [of r] ok Node by auto
    define h where "h = max (avl_height l) (avl_height r)"
    show ?thesis
    proof (cases h)
      case 0
      then show ?thesis using Node by (simp add: h_def)
    next
      case (Suc k)
      have "k \<le> avl_height l" "k \<le> avl_height r" using ok(3) Suc by (auto simp: h_def max_def split: if_splits)
      then have "(2::nat) ^ (k div 2) \<le> 2 ^ (avl_height l div 2)" "(2::nat) ^ (k div 2) \<le> 2 ^ (avl_height r div 2)"
        by (auto intro!: power_increasing div_le_mono)
      moreover have "(2::nat) ^ (avl_height n div 2) = 2 * 2 ^ (k div 2)"
        using Node Suc by (simp add: h_def)
      moreover have "length (avl_inorder n) + 1 = (length (avl_inorder l) + 1) + (length (avl_inorder r) + 1)"
        using Node by simp
      ultimately show ?thesis using IH by linarith
    qed
  qed
qed

lemma find_loop_depth:
  "(case avl_find_loop compar v n p of Inl (m, q) \<Rightarrow> length q + 1 | Inr q \<Rightarrow> length q) \<le> length p + avl_height n"
proof (induction n arbitrary: p)
  case Null
  then show ?case by simp
next
  case (Node l x b r)
  show ?case
    using Node.IH(1) [of "Crumb False x b r # p"] Node.IH(2) [of "Crumb True x b l # p"]
    by (cases "avl_balance2child (compar v x)") (auto simp: Let_def split: sum.splits)
qed

section \<open>Properties\<close>

lemma avl_order_sgn: "avl_order (\<lambda>x y. sgn (x - y)) (\<lambda>x :: int. True)"
  by unfold_locales (auto simp: sgn_if split: if_splits)

text \<open>C5. Inserting at the place that the search reports keeps the tree a balanced search tree
  with the right node count, and puts the new element between the smaller elements and the
  larger ones, for every comparator that meets the contract of the callback.\<close>

theorem avl_insert_correct:
  assumes "avl_order compar carrier" "avl_wf carrier t" "avl_compar t = compar" "carrier v"
    and "avl_find t v = Inr w"
  shows "avl_wf carrier (avl_insert t v w) \<and>
    avl_elems (avl_insert t v w) =
      filter (\<lambda>y. compar v y = 1) (avl_elems t) @ v # filter (\<lambda>y. compar v y = - 1) (avl_elems t)"
proof -
  note F = avl_order.find_Inr [OF assms] and I = avl_order.wf_insert [OF assms]
  have "filter (\<lambda>y. compar v y = 1) (path_before w) = path_before w"
    "filter (\<lambda>y. compar v y = 1) (path_after w) = []"
    "filter (\<lambda>y. compar v y = - 1) (path_before w) = []"
    "filter (\<lambda>y. compar v y = - 1) (path_after w) = path_after w"
    using F by (auto simp: filter_id_conv filter_empty_conv)
  with F I show ?thesis by simp
qed

definition avl_example :: "int avl_tree" where
  "avl_example = \<lparr>avl_root = Node (Node Null 3 0 Null) 5 1 (Node Null 7 1 (Node Null 9 0 Null)),
     avl_compar = (\<lambda>x y. sgn (x - y)), avl_numnodes = 4\<rparr>"

lemma avl_example_wf: "avl_wf (\<lambda>_. True) avl_example" "avl_compar avl_example = (\<lambda>x y. sgn (x - y))"
  by (simp_all add: avl_wf_def avl_example_def)

theorem avl_insert_correct_witness:
  "avl_elems (avl_insert avl_example 11
     [Crumb True 9 0 Null, Crumb True 7 1 Null, Crumb True 5 1 (Node Null 3 0 Null)]) = [3, 5, 7, 9, 11]"
  using avl_insert_correct [OF avl_order_sgn avl_example_wf, of 11
    "[Crumb True 9 0 Null, Crumb True 7 1 Null, Crumb True 5 1 (Node Null 3 0 Null)]"]
  by (simp add: avl_find_def avl_example_def avl_balance2child_def)

text \<open>C6. An element of the tree is found by searching for it, and removing the node found
  (with the swap of an interior node, the rebalancing on the way up and its rotations) leaves
  a balanced search tree with exactly the other elements, in the same order.\<close>

theorem avl_remove_correct:
  assumes "avl_order compar carrier" "avl_wf carrier t" "avl_compar t = compar" "v \<in> set (avl_elems t)"
  shows "\<exists>pos. avl_find t v = Inl pos \<and> avl_wf carrier (avl_remove t pos) \<and>
    avl_elems (avl_remove t pos) = remove1 v (avl_elems t)"
proof -
  obtain pos xs ys where F: "avl_find t v = Inl pos" "pos_at (avl_root t) xs v ys pos" "v \<notin> set xs"
    using pos_at_unique [OF assms] by blast
  with avl_order.wf_remove [OF assms(1-3) F(2)] pos_at_inorder [OF F(2)] show ?thesis
    by (auto simp: remove1_append simp del: avl_remove.simps)
qed

theorem avl_remove_correct_witness:
  "\<exists>pos. avl_find avl_example 3 = Inl pos \<and> avl_elems (avl_remove avl_example pos) = [5, 7, 9]"
  using avl_remove_correct [OF avl_order_sgn avl_example_wf, of 3]
  by (auto simp: avl_example_def simp del: avl_remove.simps)

text \<open>C24. A search either returns a node that compares equal, or reports an insertion point
  whose neighbours, as read by \<^verbatim>\<open>avl_nearest\<close>, are the largest smaller element and the smallest
  larger one; it fails exactly when nothing in the tree compares equal.\<close>

theorem avl_find_nearest_correct:
  assumes "avl_order compar carrier" "avl_wf carrier t" "avl_compar t = compar" "carrier v"
  shows "(case avl_find t v of
      Inl pos \<Rightarrow> avl_data (fst pos) \<in> set (avl_elems t) \<and> compar v (avl_data (fst pos)) = 0
    | Inr w \<Rightarrow> (\<forall>y\<in>set (avl_elems t). compar v y \<noteq> 0) \<and>
        map_option (avl_data \<circ> fst) (avl_nearest t w False) =
          (let lo = filter (\<lambda>y. compar v y = 1) (avl_elems t) in if lo = [] then None else Some (last lo)) \<and>
        map_option (avl_data \<circ> fst) (avl_nearest t w True) =
          (let hi = filter (\<lambda>y. compar v y = - 1) (avl_elems t) in if hi = [] then None else Some (hd hi)))"
proof (cases "avl_find t v")
  case (Inl pos)
  then show ?thesis
    using avl_order.find_Inl [OF assms Inl] pos_at_inorder [of "avl_root t"] by (fastforce simp: pos_at_def)
next
  case (Inr w)
  note F = avl_order.find_Inr [OF assms Inr]
  have lo: "filter (\<lambda>y. compar v y = 1) (avl_elems t) = path_before w"
    and hi: "filter (\<lambda>y. compar v y = - 1) (avl_elems t) = path_after w"
    using F by (auto simp: filter_id_conv filter_empty_conv)
  show ?thesis
    using F Inr avl_nearest_before [of w t] avl_nearest_after [of w t] unfolding lo hi
    by (auto simp: pos_at_def split: option.splits)
qed

theorem avl_find_nearest_correct_witness:
  "\<exists>w. avl_find avl_example 6 = Inr w \<and>
     map_option (avl_data \<circ> fst) (avl_nearest avl_example w False) = Some 5 \<and>
     map_option (avl_data \<circ> fst) (avl_nearest avl_example w True) = Some 7"
  using avl_find_nearest_correct [OF avl_order_sgn avl_example_wf, of 6]
  by (auto simp: avl_example_def split: sum.splits)

text \<open>C25. The loop that destroys a tree node by node ends, hands out the nodes in postorder (so
  every node exactly once and none before its children) and leaves the empty tree. The walk
  looks at a right child without descending further, which is sound because the tree is
  balanced.\<close>

theorem avl_destroy_nodes_postorder:
  assumes "avl_ok (avl_root t)" "avl_numnodes t = length (avl_elems t)" "length (avl_elems t) + 1 < fuel"
  shows "\<exists>t'. avl_destroy_loop fuel t None = Some (avl_postorder (avl_root t), t') \<and>
    avl_root t' = Null \<and> avl_numnodes t' = 0"
  using destroy_loop_postorder [OF assms] by blast

theorem avl_destroy_nodes_postorder_witness:
  "\<exists>t'. avl_destroy_loop 6 avl_example None = Some ([3, 9, 7, 5], t')"
  using avl_destroy_nodes_postorder [of avl_example 6]
  by (auto simp: avl_example_def simp del: avl_destroy_loop.simps)

text \<open>C26. After one element was changed in place, \<^verbatim>\<open>avl_update\<close> restores the search order: if
  the other elements are in order and none of them equals the changed one, the tree is again a
  balanced search tree of the same elements, whether or not the element had to move.\<close>

theorem avl_update_correct:
  assumes "avl_order compar carrier" "avl_ok (avl_root t)" "avl_numnodes t = length (avl_elems t)"
    and "avl_compar t = compar" "pos_at (avl_root t) xs x ys pos"
    and "sorted_wrt (\<lambda>x y. compar x y = - 1) (xs @ ys)" "\<forall>y\<in>set (xs @ x # ys). carrier y"
    and "\<forall>y\<in>set (xs @ ys). compar x y \<noteq> 0"
  shows "\<exists>t' moved us vs. avl_update t pos = Some (t', moved) \<and> avl_wf carrier t' \<and>
    us @ vs = xs @ ys \<and> avl_elems t' = us @ x # vs"
  using avl_order.wf_update [OF assms] .

theorem avl_update_correct_witness:
  "\<exists>t' moved us vs.
     avl_update \<lparr>avl_root = Node (Node Null 8 0 Null) 5 0 (Node Null 7 0 Null),
        avl_compar = (\<lambda>x y :: int. sgn (x - y)), avl_numnodes = 3\<rparr>
       (Node Null 8 0 Null, [Crumb False 5 0 (Node Null 7 0 Null)]) = Some (t', moved) \<and>
     avl_wf (\<lambda>_. True) t' \<and> us @ vs = [5, 7] \<and> avl_elems t' = us @ 8 # vs"
  using avl_update_correct [OF avl_order_sgn,
    of "\<lparr>avl_root = Node (Node Null 8 0 Null) 5 0 (Node Null 7 0 Null),
        avl_compar = (\<lambda>x y :: int. sgn (x - y)), avl_numnodes = 3\<rparr>" "[]" 8 "[5, 7]"
       "(Node Null 8 0 Null, [Crumb False 5 0 (Node Null 7 0 Null)])"]
  by (simp add: pos_at_def avl_mk_def)

text \<open>C27. A search in a balanced tree of n elements visits at most 2 log2 (n + 1) + 1 nodes: the
  path it has followed, whether to a node or to an insertion point, is at most as long as the
  height, and the height is logarithmic.\<close>

theorem avl_find_depth:
  assumes "avl_ok (avl_root t)" "avl_numnodes t = length (avl_elems t)"
  shows "2 ^ ((case avl_find t v of Inl pos \<Rightarrow> length (snd pos) + 1 | Inr w \<Rightarrow> length w) div 2)
    \<le> avl_numnodes t + 1"
proof -
  let ?d = "case avl_find t v of Inl pos \<Rightarrow> length (snd pos) + 1 | Inr w \<Rightarrow> length w"
  have "?d \<le> avl_height (avl_root t)"
    using find_loop_depth [of "avl_compar t" v "avl_root t" "[]"]
    by (auto simp: avl_find_def split: sum.splits)
  then have "2 ^ (?d div 2) \<le> (2::nat) ^ (avl_height (avl_root t) div 2)"
    by (intro power_increasing div_le_mono) auto
  with avl_height_log [OF assms(1)] assms(2) show ?thesis by linarith
qed

theorem avl_find_depth_witness:
  "2 ^ ((case avl_find avl_example 8 of Inl pos \<Rightarrow> length (snd pos) + 1 | Inr w \<Rightarrow> length w) div 2) \<le> (5::nat)"
  using avl_find_depth [of avl_example 8] by (simp add: avl_example_def)

lemma aligned_bits: "p AND 7 = 0 \<Longrightarrow> bit (p :: u64) k \<Longrightarrow> \<not> k < 3"
proof
  assume "p AND 7 = 0" "bit p k" "k < 3"
  moreover have "bit (p AND 7) k \<longleftrightarrow> bit p k \<and> k < 3" by (auto simp: bit_simps bit_nums)
  ultimately show False by simp
qed

lemma pcb_parent:
  "p AND 7 = 0 \<Longrightarrow> ((pcb AND 7) OR p) AND NOT 7 = (p :: u64)"
  "p AND 7 = 0 \<Longrightarrow> drop_bit 2 ((pcb AND 7) OR p) AND 1 = drop_bit 2 pcb AND (1 :: u64)"
  "p AND 7 = 0 \<Longrightarrow> ((pcb AND 7) OR p) AND 3 = (pcb AND 3 :: u64)"
  by (rule bit_eqI; auto simp: bit_nums bit_simps dest: aligned_bits)+

lemma pcb_child:
  "c = 0 \<or> c = 1 \<Longrightarrow> ((pcb AND NOT 4) OR push_bit 2 c) AND NOT 7 = (pcb AND NOT 7 :: u64)"
  "c = 0 \<or> c = 1 \<Longrightarrow> drop_bit 2 ((pcb AND NOT 4) OR push_bit 2 c) AND 1 = (c :: u64)"
  "c = 0 \<or> c = 1 \<Longrightarrow> ((pcb AND NOT 4) OR push_bit 2 c) AND 3 = (pcb AND 3 :: u64)"
  by (rule bit_eqI; auto simp: bit_nums bit_simps)+

lemma pcb_balance:
  "v = 0 \<or> v = 1 \<or> v = 2 \<Longrightarrow> ((pcb AND NOT 3) OR v) AND NOT 7 = (pcb AND NOT 7 :: u64)"
  "v = 0 \<or> v = 1 \<or> v = 2 \<Longrightarrow> drop_bit 2 ((pcb AND NOT 3) OR v) AND 1 = (drop_bit 2 pcb AND 1 :: u64)"
  "v = 0 \<or> v = 1 \<or> v = 2 \<Longrightarrow> ((pcb AND NOT 3) OR v) AND 3 = (v :: u64)"
  by (rule bit_eqI; auto simp: bit_nums bit_simps)+

text \<open>C28. The three fields packed into one 64-bit word do not disturb each other: whatever the
  word held, setting the (8-byte aligned) parent, the child index and the balance makes each of
  them readable again, in any of the orders the code uses.\<close>

theorem avl_pcb_fields:
  assumes "p AND 7 = 0" "c = 0 \<or> c = 1" "b = - 1 \<or> b = 0 \<or> b = 1"
  shows "AVL_XPARENT (AVL_SETPARENT pcb p) = p \<and>
    AVL_XCHILD (AVL_SETPARENT pcb p) = AVL_XCHILD pcb \<and>
    AVL_XBALANCE (AVL_SETPARENT pcb p) = AVL_XBALANCE pcb \<and>
    AVL_XPARENT (AVL_SETCHILD pcb c) = AVL_XPARENT pcb \<and>
    AVL_XCHILD (AVL_SETCHILD pcb c) = c \<and>
    AVL_XBALANCE (AVL_SETCHILD pcb c) = AVL_XBALANCE pcb \<and>
    AVL_XPARENT (AVL_SETBALANCE pcb b) = AVL_XPARENT pcb \<and>
    AVL_XCHILD (AVL_SETBALANCE pcb b) = AVL_XCHILD pcb \<and>
    AVL_XBALANCE (AVL_SETBALANCE pcb b) = b"
proof -
  have v: "word_of_int (b + 1) = (0 :: u64) \<or> word_of_int (b + 1) = (1 :: u64) \<or> word_of_int (b + 1) = (2 :: u64)"
    using assms(3) by auto
  have "(ucast (- 1 :: u64) :: 32 word) = - 1" by (rule bit_word_eqI) (simp add: bit_simps)
  then have "AVL_XBALANCE (AVL_SETBALANCE pcb b) = b"
    using assms(3) unfolding AVL_XBALANCE_def AVL_SETBALANCE_def pcb_balance(3) [OF v] by auto
  then show ?thesis
    using pcb_parent [OF assms(1)] pcb_child [OF assms(2)] pcb_balance(1,2) [OF v]
    by (simp add: AVL_XPARENT_def AVL_SETPARENT_def AVL_XCHILD_def AVL_SETCHILD_def AVL_XBALANCE_def
        AVL_SETBALANCE_def)
qed

theorem avl_pcb_fields_witness:
  "AVL_XPARENT (AVL_SETPARENT 5 4096) = 4096 \<and> AVL_XCHILD (AVL_SETCHILD 2 1) = 1 \<and>
   AVL_XBALANCE (AVL_SETBALANCE 4102 (- 1)) = - 1"
  using avl_pcb_fields [of 4096 1 "- 1" 5] avl_pcb_fields [of 4096 1 "- 1" 2]
    avl_pcb_fields [of 4096 1 "- 1" 4102] by simp

end
