(* ===== verification/Space_Map.thy ===== *)
theory Space_Map
  imports Avl
begin

text \<open>
  Space maps, \<^verbatim>\<open>src/lib/libzpool/space_map.c\<close>: sets of offsets kept as an AVL tree of
  disjoint segments. Every operation of the file is here, with its \<^verbatim>\<open>VERIFY\<close> conditions as
  the branches that do not return. The tunable \<^verbatim>\<open>zfs_recover\<close> that turns
  \<^verbatim>\<open>zfs_panic_recover()\<close> into a warning is the argument \<open>zr\<close>. The block picker that
  \<^verbatim>\<open>sm_ops\<close> points to is a name, looked up in a table of operation vectors; the DMU calls
  that read and write the on-disk object are arguments.
\<close>

section \<open>Data\<close>

record space_seg =
  ss_start :: u64
  ss_end :: u64

datatype space_map_ops = metaslab_ff_ops | zdb_space_map_ops

record space_map =
  sm_root :: "space_seg avl_tree"
  sm_space :: u64
  sm_start :: u64
  sm_size :: u64
  sm_shift :: u8
  sm_loaded :: bool
  sm_loading :: bool
  sm_ops :: "space_map_ops option"
  sm_ppd :: "u64 list option"

record space_map_obj =
  smo_object :: u64
  smo_objsize :: u64
  smo_alloc :: u64

record smop_vec =
  smop_load :: "space_map \<Rightarrow> space_map"
  smop_unload :: "space_map \<Rightarrow> space_map"
  smop_alloc :: "space_map \<Rightarrow> u64 \<Rightarrow> (u64 \<times> space_map) option"
  smop_claim :: "space_map \<Rightarrow> u64 \<Rightarrow> u64 \<Rightarrow> space_map"
  smop_free :: "space_map \<Rightarrow> u64 \<Rightarrow> u64 \<Rightarrow> space_map"

section \<open>Operations on the tree of segments\<close>

definition space_map_seg_compare :: "space_seg \<Rightarrow> space_seg \<Rightarrow> int" where
  "space_map_seg_compare s1 s2 =
     (if ss_start s1 < ss_start s2 then (if ss_end s1 > ss_start s2 then 0 else - 1)
      else if ss_start s1 > ss_start s2 then (if ss_start s1 < ss_end s2 then 0 else 1)
      else 0)"

definition space_map_create :: "u64 \<Rightarrow> u64 \<Rightarrow> u8 \<Rightarrow> space_map" where
  "space_map_create start sz shift =
     \<lparr>sm_root = avl_create space_map_seg_compare, sm_space = 0, sm_start = start, sm_size = sz,
      sm_shift = shift, sm_loaded = False, sm_loading = False, sm_ops = None, sm_ppd = None\<rparr>"

definition space_map_destroy :: "space_map \<Rightarrow> unit option" where
  "space_map_destroy sm = VERIFY (sm_space sm = 0)"

definition sm_unit :: "space_map \<Rightarrow> u64" where
  "sm_unit sm = push_bit (unat (sm_shift sm)) 1"

definition space_map_add_tree :: "space_seg avl_tree \<Rightarrow> space_seg \<Rightarrow> space_seg avl_index \<Rightarrow> space_seg avl_tree" where
  \<comment> \<open>link the new segment in at its index, merging it with the neighbours it touches\<close>
  "space_map_add_tree t ss where =
     (let ss_before = avl_nearest t where False;
          ss_after = avl_nearest t where True;
          before = map_option (avl_data \<circ> fst) ss_before;
          after = map_option (avl_data \<circ> fst) ss_after;
          merge_before = (before \<noteq> None \<and> ss_end (the before) = ss_start ss);
          merge_after = (after \<noteq> None \<and> ss_start (the after) = ss_end ss) in
      if merge_before \<and> merge_after then
        avl_set (avl_remove t (the ss_before)) (the after) ((the after)\<lparr>ss_start := ss_start (the before)\<rparr>)
      else if merge_before then avl_set t (the before) ((the before)\<lparr>ss_end := ss_end ss\<rparr>)
      else if merge_after then avl_set t (the after) ((the after)\<lparr>ss_start := ss_start ss\<rparr>)
      else avl_insert t ss where)"

definition space_map_add :: "bool \<Rightarrow> space_map \<Rightarrow> u64 \<Rightarrow> u64 \<Rightarrow> space_map option" where
  "space_map_add zr sm start sz =
     (let end = start + sz; ssearch = \<lparr>ss_start = start, ss_end = end\<rparr>; t = sm_root sm in do {
        VERIFY (sz \<noteq> 0);
        VERIFY (start \<ge> sm_start sm);
        VERIFY (end \<le> sm_start sm + sm_size sm);
        VERIFY (sm_space sm + sz \<le> sm_size sm);
        VERIFY (P2PHASE start (sm_unit sm) = 0);
        VERIFY (P2PHASE sz (sm_unit sm) = 0);
        case avl_find t ssearch of
          Inl (ss, _) \<Rightarrow>
            if ss_start (avl_data ss) \<le> start \<and> ss_end (avl_data ss) \<ge> end
            then (if zr then Some sm else None) else None
        | Inr where \<Rightarrow>
            Some (sm\<lparr>sm_root := space_map_add_tree t ssearch where, sm_space := sm_space sm + sz\<rparr>)
      })"

definition space_map_remove_tree ::
  "space_seg avl_tree \<Rightarrow> space_seg avl_pos \<Rightarrow> u64 \<Rightarrow> u64 \<Rightarrow> space_seg avl_tree" where
  \<comment> \<open>cut [start, end) out of the segment found: split it, shorten it or drop it\<close>
  "space_map_remove_tree t pos start end =
     (let ss = avl_data (fst pos);
          left_over = (ss_start ss \<noteq> start);
          right_over = (ss_end ss \<noteq> end) in
      if left_over \<and> right_over then
        let newseg = \<lparr>ss_start = end, ss_end = ss_end ss\<rparr>;
            pos' = avl_setpos pos (ss\<lparr>ss_end := start\<rparr>)
        in avl_insert_here (t\<lparr>avl_root := avl_plug (fst pos') (snd pos')\<rparr>) newseg pos' True
      else if left_over then avl_set t ss (ss\<lparr>ss_end := start\<rparr>)
      else if right_over then avl_set t ss (ss\<lparr>ss_start := end\<rparr>)
      else avl_remove t pos)"

definition space_map_remove :: "bool \<Rightarrow> space_map \<Rightarrow> u64 \<Rightarrow> u64 \<Rightarrow> space_map option" where
  "space_map_remove zr sm start sz =
     (let end = start + sz; t = sm_root sm in do {
        VERIFY (sz \<noteq> 0);
        VERIFY (P2PHASE start (sm_unit sm) = 0);
        VERIFY (P2PHASE sz (sm_unit sm) = 0);
        case avl_find t \<lparr>ss_start = start, ss_end = end\<rparr> of
          Inr _ \<Rightarrow> (if zr then Some sm else None)
        | Inl pos \<Rightarrow> do {
            VERIFY (ss_start (avl_data (fst pos)) \<le> start);
            VERIFY (ss_end (avl_data (fst pos)) \<ge> end);
            VERIFY (sm_space sm - sz \<le> sm_size sm);
            Some (sm\<lparr>sm_root := space_map_remove_tree t pos start end, sm_space := sm_space sm - sz\<rparr>)
          }
      })"

definition space_map_contains :: "space_map \<Rightarrow> u64 \<Rightarrow> u64 \<Rightarrow> bool option" where
  "space_map_contains sm start sz =
     (let end = start + sz in do {
        VERIFY (sz \<noteq> 0);
        VERIFY (P2PHASE start (sm_unit sm) = 0);
        VERIFY (P2PHASE sz (sm_unit sm) = 0);
        Some (case avl_find (sm_root sm) \<lparr>ss_start = start, ss_end = end\<rparr> of
                Inl (ss, _) \<Rightarrow> ss_start (avl_data ss) \<le> start \<and> ss_end (avl_data ss) \<ge> end
              | Inr _ \<Rightarrow> False)
      })"

type_synonym 'm space_map_func = "'m \<Rightarrow> u64 \<Rightarrow> u64 \<Rightarrow> 'm option"

definition space_map_vacate :: "space_map \<Rightarrow> 'm space_map_func option \<Rightarrow> 'm \<Rightarrow> (space_map \<times> 'm) option" where
  "space_map_vacate sm func mdest = do {
     (segs, t) \<leftarrow> avl_destroy_loop (avl_numnodes (sm_root sm) + 2) (sm_root sm) None;
     mdest' \<leftarrow> (case func of None \<Rightarrow> Some mdest
        | Some f \<Rightarrow> foldM (\<lambda>m ss. f m (ss_start ss) (ss_end ss - ss_start ss)) mdest segs);
     Some (sm\<lparr>sm_root := t, sm_space := 0\<rparr>, mdest')
   }"

definition space_map_walk :: "space_map \<Rightarrow> 'm space_map_func \<Rightarrow> 'm \<Rightarrow> 'm option" where
  "space_map_walk sm func mdest =
     foldM (\<lambda>m ss. func m (ss_start ss) (ss_end ss - ss_start ss)) mdest
       (avl_list_from (avl_first (sm_root sm)))"

fun space_map_excise_loop :: "nat \<Rightarrow> bool \<Rightarrow> space_map \<Rightarrow> u64 \<Rightarrow> u64 \<Rightarrow> space_map option" where
  "space_map_excise_loop 0 zr sm start end = None"
| "space_map_excise_loop (Suc fuel) zr sm start end =
     (let t = sm_root sm;
          ss = (case avl_find t \<lparr>ss_start = start, ss_end = start\<rparr> of
                  Inl pos \<Rightarrow> Some (avl_data (fst pos))
                | Inr where \<Rightarrow> map_option (avl_data \<circ> fst) (avl_nearest t where True)) in
      case ss of
        None \<Rightarrow> Some sm
      | Some s \<Rightarrow>
          if ss_start s \<ge> end then Some sm
          else let rm_start = max (ss_start s) start; rm_end = min (ss_end s) end in do {
            sm' \<leftarrow> space_map_remove zr sm rm_start (rm_end - rm_start);
            space_map_excise_loop fuel zr sm' start end
          })"

definition space_map_excise :: "bool \<Rightarrow> space_map \<Rightarrow> u64 \<Rightarrow> u64 \<Rightarrow> space_map option" where
  "space_map_excise zr sm start sz =
     space_map_excise_loop (avl_numnodes (sm_root sm) + 1) zr sm start (start + sz)"

definition space_map_union :: "bool \<Rightarrow> space_map \<Rightarrow> space_map \<Rightarrow> space_map option" where
  "space_map_union zr smd sms =
     foldM (\<lambda>smd ss. do {
         smd' \<leftarrow> space_map_excise zr smd (ss_start ss) (ss_end ss - ss_start ss);
         space_map_add zr smd' (ss_start ss) (ss_end ss - ss_start ss)
       }) smd (avl_list_from (avl_first (sm_root sms)))"

section \<open>The set a space map stands for\<close>

abbreviation sm_segs :: "space_map \<Rightarrow> space_seg list" where
  "sm_segs sm \<equiv> avl_elems (sm_root sm)"

definition seg_set :: "space_seg \<Rightarrow> nat set" where
  "seg_set s = {unat (ss_start s)..<unat (ss_end s)}"

definition segs_set :: "space_seg list \<Rightarrow> nat set" where
  "segs_set xs = (\<Union>s\<in>set xs. seg_set s)"

definition sm_set :: "space_map \<Rightarrow> nat set" where
  "sm_set sm = segs_set (sm_segs sm)"

definition sm_range :: "space_map \<Rightarrow> nat set" where
  "sm_range sm = {unat (sm_start sm)..<unat (sm_start sm) + unat (sm_size sm)}"

definition sm_aligned :: "space_map \<Rightarrow> u64 \<Rightarrow> bool" where
  "sm_aligned sm x \<longleftrightarrow> P2PHASE x (sm_unit sm) = 0"

definition seg_ok :: "space_map \<Rightarrow> space_seg \<Rightarrow> bool" where
  "seg_ok sm s \<longleftrightarrow> ss_start s < ss_end s \<and> seg_set s \<subseteq> sm_range sm \<and>
     sm_aligned sm (ss_start s) \<and> sm_aligned sm (ss_end s)"

definition segs_ok :: "space_map \<Rightarrow> space_seg list \<Rightarrow> bool" where
  \<comment> \<open>in order, and no two segments touch: adjacent segments have been merged\<close>
  "segs_ok sm xs \<longleftrightarrow> (\<forall>s\<in>set xs. seg_ok sm s) \<and> sorted_wrt (\<lambda>a b. ss_end a < ss_start b) xs"

definition sm_inv :: "space_map \<Rightarrow> bool" where
  "sm_inv sm \<longleftrightarrow>
     avl_ok (avl_root (sm_root sm)) \<and> avl_numnodes (sm_root sm) = length (sm_segs sm) \<and>
     avl_compar (sm_root sm) = space_map_seg_compare \<and> segs_ok sm (sm_segs sm) \<and>
     unat (sm_space sm) = card (sm_set sm) \<and>
     unat (sm_start sm) + unat (sm_size sm) < 2 ^ 64"

lemma space_map_seg_compare_iff:
  "space_map_seg_compare a b = - 1 \<longleftrightarrow> ss_start a < ss_start b \<and> ss_end a \<le> ss_start b"
  "space_map_seg_compare a b = 1 \<longleftrightarrow> ss_start b < ss_start a \<and> ss_end b \<le> ss_start a"
  by (auto simp: space_map_seg_compare_def)

interpretation seg: avl_order space_map_seg_compare "\<lambda>_. True"
  by unfold_locales (auto simp: space_map_seg_compare_def split: if_splits)

lemmas seg_order = seg.avl_order_axioms

lemma segs_set_simps [sm_simps]:
  "segs_set [] = {}" "segs_set (s # xs) = seg_set s \<union> segs_set xs"
  "segs_set (xs @ ys) = segs_set xs \<union> segs_set ys"
  by (auto simp: segs_set_def)

lemma finite_segs_set [simp]: "finite (segs_set xs)"
  by (simp add: segs_set_def seg_set_def)

lemma segs_ok_sorted: "segs_ok sm xs \<Longrightarrow> sorted_wrt (\<lambda>x y. space_map_seg_compare x y = - 1) xs"
  unfolding segs_ok_def
  by (elim conjE sorted_wrt_mono_rel [rotated])
    (auto simp: space_map_seg_compare_iff seg_ok_def intro: order.strict_trans)

lemma sm_inv_wf: "sm_inv sm \<Longrightarrow> avl_wf (\<lambda>_. True) (sm_root sm)"
  using segs_ok_sorted [of sm "sm_segs sm"] by (simp add: sm_inv_def avl_wf_def)

lemma sm_set_range: "sm_inv sm \<Longrightarrow> sm_set sm \<subseteq> sm_range sm"
  by (auto simp: sm_inv_def segs_ok_def seg_ok_def sm_set_def segs_set_def)

lemma sm_aligned_add: "sm_aligned sm x \<Longrightarrow> sm_aligned sm y \<Longrightarrow> sm_aligned sm (x + y)"
  by (simp add: sm_aligned_def sm_unit_def P2PHASE_exp take_bit_eq_0_iff)

lemma sm_aligned_diff: "sm_aligned sm x \<Longrightarrow> sm_aligned sm y \<Longrightarrow> sm_aligned sm (x - y)"
  by (simp add: sm_aligned_def sm_unit_def P2PHASE_exp take_bit_eq_0_iff)

lemma unat_end:
  assumes "unat start + unat sz < 2 ^ 64"
  shows "unat (start + sz) = unat start + unat (sz :: u64)"
  using assms by (simp add: unat_word_ariths)

text \<open>
  The effect of an update of the tree on the invariant: it is enough to know the new list
  of segments.
\<close>

lemma sm_invI:
  assumes "sm_inv sm" "avl_ok (avl_root t)" "avl_numnodes t = length (avl_elems t)"
    "avl_compar t = space_map_seg_compare" "segs_ok sm (avl_elems t)"
    "unat sp = card (segs_set (avl_elems t))"
  shows "sm_inv (sm\<lparr>sm_root := t, sm_space := sp\<rparr>) \<and>
    sm_set (sm\<lparr>sm_root := t, sm_space := sp\<rparr>) = segs_set (avl_elems t)"
  using assms
  by (simp add: sm_inv_def sm_set_def segs_ok_def seg_ok_def sm_range_def sm_aligned_def sm_unit_def)

lemma find_overlap:
  assumes "sm_inv sm" "ss_start v < ss_end v"
  shows "case avl_find (sm_root sm) v of
      Inl pos \<Rightarrow> \<exists>xs ys. pos_at (avl_root (sm_root sm)) xs (avl_data (fst pos)) ys pos \<and>
        seg_set (avl_data (fst pos)) \<inter> seg_set v \<noteq> {}
    | Inr w \<Rightarrow> avl_plug Null w = avl_root (sm_root sm) \<and> sm_segs sm = path_before w @ path_after w \<and>
        (\<forall>s\<in>set (path_before w). ss_end s \<le> ss_start v) \<and>
        (\<forall>s\<in>set (path_after w). ss_end v \<le> ss_start s)"
proof -
  have C: "avl_compar (sm_root sm) = space_map_seg_compare" using assms(1) by (simp add: sm_inv_def)
  show ?thesis
  proof (cases "avl_find (sm_root sm) v")
    case (Inl pos)
    obtain xs y ys where P: "pos_at (avl_root (sm_root sm)) xs y ys pos" "space_map_seg_compare v y = 0"
      using seg.find_Inl [OF sm_inv_wf [OF assms(1)] C _ Inl] by blast
    have y: "avl_data (fst pos) = y" using P(1) by (auto simp: pos_at_def)
    have "seg_ok sm y" using assms(1) pos_at_inorder [OF P(1)] by (simp add: sm_inv_def segs_ok_def)
    then have "max (unat (ss_start y)) (unat (ss_start v)) \<in> seg_set y \<inter> seg_set v"
      using P(2) assms(2)
      by (auto simp: seg_ok_def seg_set_def space_map_seg_compare_def word_less_nat_alt max_def split: if_splits)
    with Inl P y show ?thesis by auto
  next
    case (Inr w)
    from seg.find_Inr [OF sm_inv_wf [OF assms(1)] C _ Inr] Inr show ?thesis
      by (auto simp: space_map_seg_compare_iff)
  qed
qed

section \<open>Adding a segment\<close>

text \<open>
  The four ways of adding a segment to the list of segments: joining both neighbours, one
  of them, or none.
\<close>

definition add_segs :: "space_seg list \<Rightarrow> space_seg \<Rightarrow> space_seg list \<Rightarrow> space_seg list" where
  "add_segs bs v as =
     (let mb = (bs \<noteq> [] \<and> ss_end (last bs) = ss_start v); ma = (as \<noteq> [] \<and> ss_start (hd as) = ss_end v) in
      (if mb then butlast bs else bs) @
      \<lparr>ss_start = (if mb then ss_start (last bs) else ss_start v),
       ss_end = (if ma then ss_end (hd as) else ss_end v)\<rparr> #
      (if ma then tl as else as))"

lemma merge_left:
  assumes "segs_ok sm bs" "ss_start v < ss_end v" "sm_aligned sm (ss_start v)" "\<forall>s\<in>set bs. ss_end s \<le> ss_start v"
    and "bs' = (if bs \<noteq> [] \<and> ss_end (last bs) = ss_start v then butlast bs else bs)"
    and "st = (if bs \<noteq> [] \<and> ss_end (last bs) = ss_start v then ss_start (last bs) else ss_start v)"
  shows "(\<forall>s\<in>set bs'. ss_end s < st) \<and> st \<le> ss_start v \<and> sm_aligned sm st \<and> set bs' \<subseteq> set bs \<and>
    segs_ok sm bs' \<and> segs_set bs' \<union> {unat st..<unat (ss_end v)} = segs_set bs \<union> seg_set v"
proof (cases bs rule: rev_cases)
  case Nil
  with assms show ?thesis by (simp add: segs_set_def seg_set_def)
next
  case (snoc xs p)
  have p: "ss_start p < ss_end p" "sm_aligned sm (ss_start p)" "ss_end p \<le> ss_start v"
    and xs: "\<forall>s\<in>set xs. ss_end s < ss_start p" "segs_ok sm xs"
    using assms(1,4) snoc by (auto simp: segs_ok_def seg_ok_def sorted_wrt_append)
  show ?thesis
  proof (cases "ss_end p = ss_start v")
    case True
    then have b: "bs' = xs" "st = ss_start p" using assms(5,6) snoc by auto
    have "seg_set p \<union> seg_set v = {unat st..<unat (ss_end v)}"
      using True p assms(2) by (auto simp: b seg_set_def word_less_nat_alt)
    with True xs p b snoc assms(2) show ?thesis
      by (auto simp: segs_set_simps order.strict_implies_order)
  next
    case False
    with snoc assms(5,6) have b: "bs' = bs" "st = ss_start v" by auto
    have "\<forall>s\<in>set bs. ss_end s < ss_start v"
      using snoc xs p False by (auto intro: order.strict_trans)
    with b assms(1,3) show ?thesis by (simp add: seg_set_def)
  qed
qed

lemma merge_right:
  assumes "segs_ok sm as" "ss_start v < ss_end v" "sm_aligned sm (ss_end v)" "\<forall>s\<in>set as. ss_end v \<le> ss_start s"
    and "as' = (if as \<noteq> [] \<and> ss_start (hd as) = ss_end v then tl as else as)"
    and "en = (if as \<noteq> [] \<and> ss_start (hd as) = ss_end v then ss_end (hd as) else ss_end v)"
  shows "(\<forall>s\<in>set as'. en < ss_start s) \<and> ss_end v \<le> en \<and> sm_aligned sm en \<and> set as' \<subseteq> set as \<and>
    segs_ok sm as' \<and> segs_set as' \<union> {unat (ss_start v)..<unat en} = segs_set as \<union> seg_set v"
proof (cases as)
  case Nil
  with assms show ?thesis by (simp add: segs_set_def seg_set_def)
next
  case (Cons p xs)
  have p: "ss_start p < ss_end p" "sm_aligned sm (ss_end p)" "ss_end v \<le> ss_start p"
    and xs: "\<forall>s\<in>set xs. ss_end p < ss_start s" "segs_ok sm xs"
    using assms(1,4) Cons by (auto simp: segs_ok_def seg_ok_def)
  show ?thesis
  proof (cases "ss_start p = ss_end v")
    case True
    then have b: "as' = xs" "en = ss_end p" using assms(5,6) Cons by auto
    have "seg_set p \<union> seg_set v = {unat (ss_start v)..<unat en}"
      using True p assms(2) by (auto simp: b seg_set_def word_less_nat_alt)
    with True xs p b Cons assms(2) show ?thesis
      by (auto simp: segs_set_simps order.strict_implies_order)
  next
    case False
    with Cons assms(5,6) have b: "as' = as" "en = ss_end v" by auto
    have "\<forall>s\<in>set as. ss_end v < ss_start s"
      using Cons xs p False by (auto intro: order.strict_trans order.strict_trans1)
    with b assms(1,3) show ?thesis by (simp add: seg_set_def)
  qed
qed

lemma add_segs_ok:
  assumes "segs_ok sm (bs @ as)" "seg_ok sm v"
    and "\<forall>s\<in>set bs. ss_end s \<le> ss_start v" "\<forall>s\<in>set as. ss_end v \<le> ss_start s"
  shows "segs_ok sm (add_segs bs v as) \<and> segs_set (add_segs bs v as) = segs_set (bs @ as) \<union> seg_set v"
proof -
  have ok: "segs_ok sm bs" "segs_ok sm as" using assms(1) by (auto simp: segs_ok_def sorted_wrt_append)
  have v: "ss_start v < ss_end v" "sm_aligned sm (ss_start v)" "sm_aligned sm (ss_end v)"
    using assms(2) by (auto simp: seg_ok_def)
  define bs' where "bs' = (if bs \<noteq> [] \<and> ss_end (last bs) = ss_start v then butlast bs else bs)"
  define st where "st = (if bs \<noteq> [] \<and> ss_end (last bs) = ss_start v then ss_start (last bs) else ss_start v)"
  define as' where "as' = (if as \<noteq> [] \<and> ss_start (hd as) = ss_end v then tl as else as)"
  define en where "en = (if as \<noteq> [] \<and> ss_start (hd as) = ss_end v then ss_end (hd as) else ss_end v)"
  note L = merge_left [OF ok(1) v(1,2) assms(3) bs'_def st_def]
  note R = merge_right [OF ok(2) v(1,3) assms(4) as'_def en_def]
  let ?w = "\<lparr>ss_start = st, ss_end = en\<rparr>"
  have eq: "add_segs bs v as = bs' @ ?w # as'"
    by (simp add: add_segs_def Let_def bs'_def st_def as'_def en_def)
  have lt: "st < en" using L R v(1) by (meson order.strict_trans1 order.strict_trans2)
  have w: "seg_set ?w = {unat st..<unat (ss_end v)} \<union> {unat (ss_start v)..<unat en}"
    using L R v(1) by (auto simp: seg_set_def word_le_nat_alt word_less_nat_alt)
  have sets: "segs_set (bs' @ ?w # as') = segs_set (bs @ as) \<union> seg_set v"
    using L R by (auto simp: segs_set_simps w)
  have "segs_set (bs @ as) \<union> seg_set v \<subseteq> sm_range sm"
    using assms(1,2) by (auto simp: segs_set_def segs_ok_def seg_ok_def)
  then have "seg_set ?w \<subseteq> sm_range sm" using sets by (auto simp: segs_set_simps)
  then have wok: "seg_ok sm ?w" using lt L R by (simp add: seg_ok_def)
  have "\<forall>x\<in>set bs'. \<forall>y\<in>set as'. ss_end x < ss_start y"
    using L R lt by (meson order.strict_trans)
  then have "segs_ok sm (bs' @ ?w # as')"
    using L R wok unfolding segs_ok_def sorted_wrt_append by auto
  with sets eq show ?thesis by simp
qed

definition tree_is :: "space_seg avl_tree \<Rightarrow> space_seg list \<Rightarrow> bool" where
  "tree_is t xs \<longleftrightarrow> avl_elems t = xs \<and> avl_ok (avl_root t) \<and> avl_numnodes t = length xs \<and>
     avl_compar t = space_map_seg_compare"

lemma tree_is_wf: "tree_is t xs \<Longrightarrow> segs_ok sm xs \<Longrightarrow> avl_wf (\<lambda>_. True) t"
  using segs_ok_sorted [of sm xs] by (simp add: tree_is_def avl_wf_def)

lemma sm_inv_tree: "sm_inv sm \<Longrightarrow> tree_is (sm_root sm) (sm_segs sm)"
  by (simp add: sm_inv_def tree_is_def)

lemma tree_set:
  assumes "tree_is t (xs @ x # ys)" "segs_ok sm (xs @ x # ys)"
  shows "tree_is (avl_set t x y) (xs @ y # ys)"
  using avl_set_elems [OF seg_order tree_is_wf [OF assms], of xs x ys y] assms(1)
  by (simp add: tree_is_def)

lemma tree_remove:
  assumes "tree_is t (xs @ x # ys)" "segs_ok sm (xs @ x # ys)" "pos_at (avl_root t) xs x ys pos"
  shows "tree_is (avl_remove t pos) (xs @ ys)"
  using seg.wf_remove [OF tree_is_wf [OF assms(1,2)] _ assms(3)] assms(1)
  by (simp add: tree_is_def avl_wf_def del: avl_remove.simps)

lemma add_tree:
  assumes T: "tree_is t (bs @ as)" and ok: "segs_ok sm (bs @ as)" and w: "avl_plug Null w = avl_root t"
    and bs: "bs = path_before w" and as: "as = path_after w"
  shows "tree_is (space_map_add_tree t v w) (add_segs bs v as)"
proof -
  define before where "before = map_option (avl_data \<circ> fst) (avl_nearest t w False)"
  define after where "after = map_option (avl_data \<circ> fst) (avl_nearest t w True)"
  define mb where "mb \<longleftrightarrow> before \<noteq> None \<and> ss_end (the before) = ss_start v"
  define ma where "ma \<longleftrightarrow> after \<noteq> None \<and> ss_start (the after) = ss_end v"
  have B: "before = (if bs = [] then None else Some (last bs))"
    "bs \<noteq> [] \<Longrightarrow> pos_at (avl_root t) (butlast bs) (last bs) as (the (avl_nearest t w False))"
    using avl_nearest_before [of w t] by (auto simp: before_def bs as w pos_at_def split: option.splits)
  have A: "after = (if as = [] then None else Some (hd as))"
    using avl_nearest_after [of w t] by (auto simp: after_def as w pos_at_def split: option.splits)
  have D: "space_map_add_tree t v w =
     (if mb \<and> ma then avl_set (avl_remove t (the (avl_nearest t w False))) (the after)
        ((the after)\<lparr>ss_start := ss_start (the before)\<rparr>)
      else if mb then avl_set t (the before) ((the before)\<lparr>ss_end := ss_end v\<rparr>)
      else if ma then avl_set t (the after) ((the after)\<lparr>ss_start := ss_start v\<rparr>)
      else avl_insert t v w)"
    by (simp only: space_map_add_tree_def Let_def before_def after_def mb_def ma_def)
  consider (both) bs1 p n as1 where "mb" "ma" "bs = bs1 @ [p]" "as = n # as1"
    | (left) bs1 p where "mb" "\<not> ma" "bs = bs1 @ [p]" | (right) n as1 where "\<not> mb" "ma" "as = n # as1"
    | (none) "\<not> mb" "\<not> ma"
    using A B(1) by (cases bs rule: rev_cases; cases as) (auto simp: mb_def ma_def split: if_splits)
  then show ?thesis
  proof cases
    case both
    have "tree_is (avl_remove t (the (avl_nearest t w False))) (bs1 @ as)"
      using tree_remove [of t bs1 p as sm] T ok B(2) both by simp
    moreover have "segs_ok sm (bs1 @ as)" using ok both by (auto simp: segs_ok_def sorted_wrt_append)
    ultimately have "tree_is (avl_set (avl_remove t (the (avl_nearest t w False))) n (n\<lparr>ss_start := ss_start p\<rparr>))
        (bs1 @ n\<lparr>ss_start := ss_start p\<rparr> # as1)"
      using tree_set both(4) by blast
    with both A B(1) show ?thesis unfolding D by (cases n) (simp add: mb_def ma_def add_segs_def del: avl_remove.simps)
  next
    case left
    with tree_set [of t bs1 p as sm "p\<lparr>ss_end := ss_end v\<rparr>"] T ok A B(1) show ?thesis
      unfolding D by (cases p) (auto simp: add_segs_def mb_def ma_def)
  next
    case right
    with tree_set [of t bs n as1 sm "n\<lparr>ss_start := ss_start v\<rparr>"] T ok A B(1) show ?thesis
      unfolding D by (cases n) (auto simp: add_segs_def mb_def ma_def)
  next
    case none
    have "add_segs bs v as = bs @ v # as" using none A B(1) by (auto simp: add_segs_def mb_def ma_def Let_def)
    then show ?thesis
      using none avl_insert_at [OF w, of v] T bs as unfolding D by (simp add: tree_is_def)
  qed
qed

lemma space_map_add_Some:
  assumes inv: "sm_inv sm" and sz: "sz \<noteq> 0" and lo: "sm_start sm \<le> start"
    and hi: "unat start + unat sz \<le> unat (sm_start sm) + unat (sm_size sm)"
    and al: "sm_aligned sm start" "sm_aligned sm sz"
    and free: "{unat start..<unat start + unat sz} \<inter> sm_set sm = {}"
  shows "\<exists>t. space_map_add zr sm start sz = Some (sm\<lparr>sm_root := t, sm_space := sm_space sm + sz\<rparr>) \<and>
    sm_inv (sm\<lparr>sm_root := t, sm_space := sm_space sm + sz\<rparr>) \<and>
    sm_set (sm\<lparr>sm_root := t, sm_space := sm_space sm + sz\<rparr>) =
      sm_set sm \<union> {unat start..<unat start + unat sz}"
proof -
  let ?v = "\<lparr>ss_start = start, ss_end = start + sz\<rparr>" and ?I = "{unat start..<unat start + unat sz}"
  have top: "unat (sm_start sm) + unat (sm_size sm) < 2 ^ 64" using inv by (simp add: sm_inv_def)
  have e: "unat (start + sz) = unat start + unat sz" using hi top by (intro unat_end) simp
  have e2: "unat (sm_start sm + sm_size sm) = unat (sm_start sm) + unat (sm_size sm)"
    using top by (rule unat_end)
  have sz0: "0 < unat sz" using sz by (simp add: unat_gt_0)
  have vset: "seg_set ?v = ?I" by (simp add: seg_set_def e)
  have lt: "ss_start ?v < ss_end ?v" using e sz0 by (simp add: word_less_nat_alt)
  have vok: "seg_ok sm ?v"
    using lt lo hi al sm_aligned_add [OF al] e
    by (auto simp: seg_ok_def seg_set_def sm_range_def word_le_nat_alt)
  obtain w where w: "avl_find (sm_root sm) ?v = Inr w"
  proof (cases "avl_find (sm_root sm) ?v")
    case (Inl pos)
    then obtain xs ys where P: "pos_at (avl_root (sm_root sm)) xs (avl_data (fst pos)) ys pos"
      "seg_set (avl_data (fst pos)) \<inter> ?I \<noteq> {}"
      using find_overlap [OF inv lt] vset by auto
    then have "sm_set sm \<inter> ?I \<noteq> {}"
      using pos_at_inorder [OF P(1)] by (auto simp: sm_set_def segs_set_def)
    with free show ?thesis by blast
  qed
  have W: "avl_plug Null w = avl_root (sm_root sm)" "sm_segs sm = path_before w @ path_after w"
    "\<forall>s\<in>set (path_before w). ss_end s \<le> ss_start ?v" "\<forall>s\<in>set (path_after w). ss_end ?v \<le> ss_start s"
    using find_overlap [OF inv lt] w by auto
  have ok: "segs_ok sm (path_before w @ path_after w)" using inv W(2) by (simp add: sm_inv_def)
  note L = add_segs_ok [OF ok vok W(3,4)]
  have T: "tree_is (sm_root sm) (path_before w @ path_after w)" using sm_inv_tree [OF inv] W(2) by simp
  define t where "t = space_map_add_tree (sm_root sm) ?v w"
  have t: "tree_is t (add_segs (path_before w) ?v (path_after w))"
    unfolding t_def by (rule add_tree [OF T ok W(1) refl refl])
  have sub: "sm_set sm \<union> ?I \<subseteq> sm_range sm"
    using sm_set_range [OF inv] lo hi by (auto simp: sm_range_def word_le_nat_alt)
  have card: "card (sm_set sm \<union> ?I) = unat (sm_space sm) + unat sz"
    using free inv by (subst card_Un_disjoint) (auto simp: sm_set_def sm_inv_def)
  have "card (sm_set sm \<union> ?I) \<le> unat (sm_size sm)"
    using card_mono [OF _ sub] by (simp add: sm_range_def)
  then have sp: "unat (sm_space sm) + unat sz \<le> unat (sm_size sm)" using card by simp
  then have sp': "unat (sm_space sm + sz) = unat (sm_space sm) + unat sz" using top by (intro unat_end) simp
  have A: "space_map_add zr sm start sz = Some (sm\<lparr>sm_root := t, sm_space := sm_space sm + sz\<rparr>)"
    using w sz lo hi al sp
    by (simp add: t_def space_map_add_def Let_def sm_aligned_def word_le_nat_alt e e2 sp')
  have "sm_inv (sm\<lparr>sm_root := t, sm_space := sm_space sm + sz\<rparr>) \<and>
    sm_set (sm\<lparr>sm_root := t, sm_space := sm_space sm + sz\<rparr>) = segs_set (avl_elems t)"
    using sm_invI [OF inv, of t "sm_space sm + sz"] t L card sp' W(2) vset
    by (simp add: tree_is_def sm_set_def)
  with A t L W(2) vset show ?thesis by (intro exI [of _ t]) (simp add: tree_is_def sm_set_def)
qed

section \<open>Removing a segment\<close>

definition remove_segs :: "space_seg \<Rightarrow> u64 \<Rightarrow> u64 \<Rightarrow> space_seg list" where
  "remove_segs ss start end =
     (if ss_start ss \<noteq> start then [ss\<lparr>ss_end := start\<rparr>] else []) @
     (if ss_end ss \<noteq> end then [\<lparr>ss_start = end, ss_end = ss_end ss\<rparr>] else [])"

lemma segs_apart:
  assumes "segs_ok sm (xs @ y # ys)"
  shows "seg_set y \<inter> segs_set (xs @ ys) = {}"
  using assms
  by (auto simp: segs_ok_def sorted_wrt_append segs_set_def seg_set_def seg_ok_def word_less_nat_alt)

lemma interval_in_one:
  assumes ok: "segs_ok sm (xs @ y # ys)" and sub: "{a..<b} \<subseteq> segs_set (xs @ y # ys)"
    and meet: "{a..<b} \<inter> seg_set y \<noteq> {}"
  shows "{a..<b} \<subseteq> seg_set y"
proof -
  obtain m where m: "a \<le> m" "m < b" "m \<in> seg_set y" using meet by auto
  have x: "\<forall>z\<in>set xs. unat (ss_end z) < unat (ss_start y)" "\<forall>z\<in>set ys. unat (ss_end y) < unat (ss_start z)"
    using ok by (auto simp: segs_ok_def sorted_wrt_append word_less_nat_alt)
  have "unat (ss_start y) \<le> a"
  proof (rule ccontr)
    assume "\<not> unat (ss_start y) \<le> a"
    then have "unat (ss_start y) - 1 \<in> {a..<b}" using m by (auto simp: seg_set_def)
    with sub have "unat (ss_start y) - 1 \<in> segs_set (xs @ y # ys)" by blast
    with x \<open>\<not> unat (ss_start y) \<le> a\<close> m show False
      by (fastforce simp: segs_set_def seg_set_def)
  qed
  moreover have "b \<le> unat (ss_end y)"
  proof (rule ccontr)
    assume "\<not> b \<le> unat (ss_end y)"
    then have "unat (ss_end y) \<in> {a..<b}" using m by (auto simp: seg_set_def)
    with sub have "unat (ss_end y) \<in> segs_set (xs @ y # ys)" by blast
    with x m show False by (fastforce simp: segs_set_def seg_set_def)
  qed
  ultimately show ?thesis by (auto simp: seg_set_def)
qed

lemma remove_segs_ok:
  assumes ok: "segs_ok sm (xs @ y # ys)" and lt: "start < end" and le: "ss_start y \<le> start" "end \<le> ss_end y"
    and al: "sm_aligned sm start" "sm_aligned sm end"
  shows "segs_ok sm (xs @ remove_segs y start end @ ys) \<and>
    segs_set (xs @ remove_segs y start end @ ys) = segs_set (xs @ y # ys) - {unat start..<unat end}"
proof -
  have y: "seg_ok sm y" "\<forall>z\<in>set xs. ss_end z < ss_start y" "\<forall>z\<in>set ys. ss_end y < ss_start z"
    using ok by (auto simp: segs_ok_def sorted_wrt_append)
  have cut: "segs_set (remove_segs y start end) = seg_set y - {unat start..<unat end}"
    using lt le by (auto simp: remove_segs_def segs_set_simps seg_set_def word_less_nat_alt word_le_nat_alt)
  have "{unat start..<unat end} \<subseteq> seg_set y"
    using le by (auto simp: seg_set_def word_le_nat_alt)
  then have sets: "segs_set (xs @ remove_segs y start end @ ys) = segs_set (xs @ y # ys) - {unat start..<unat end}"
    using cut segs_apart [OF ok] by (auto simp: segs_set_simps)
  have "ss_start y \<noteq> start \<Longrightarrow> unat (ss_start y) < unat start" "ss_end y \<noteq> end \<Longrightarrow> unat end < unat (ss_end y)"
    using le by (metis order_le_imp_less_or_eq word_less_nat_alt)+
  then have each: "\<forall>z\<in>set (remove_segs y start end). seg_ok sm z \<and> ss_start y \<le> ss_start z \<and> ss_end z \<le> ss_end y"
    using y(1) lt le al
    by (auto simp: remove_segs_def seg_ok_def seg_set_def word_less_nat_alt word_le_nat_alt)
  have "sorted_wrt (\<lambda>a b. ss_end a < ss_start b) (remove_segs y start end)"
    using lt by (auto simp: remove_segs_def)
  moreover have "\<forall>a\<in>set xs. \<forall>b\<in>set (remove_segs y start end). ss_end a < ss_start b"
    "\<forall>a\<in>set (remove_segs y start end). \<forall>b\<in>set ys. ss_end a < ss_start b"
    using y(2,3) each by (meson order.strict_trans1 order.strict_trans2)+
  ultimately have "segs_ok sm (xs @ remove_segs y start end @ ys)"
    using ok each by (auto simp: segs_ok_def sorted_wrt_append)
  with sets show ?thesis by simp
qed

lemma remove_tree:
  assumes T: "tree_is t (xs @ y # ys)" and ok: "segs_ok sm (xs @ y # ys)" and P: "pos_at (avl_root t) xs y ys pos"
  shows "tree_is (space_map_remove_tree t pos start end) (xs @ remove_segs y start end @ ys)"
proof -
  have y: "avl_data (fst pos) = y" using P by (auto simp: pos_at_def)
  consider (both) "ss_start y \<noteq> start" "ss_end y \<noteq> end" | (left) "ss_start y \<noteq> start" "ss_end y = end"
    | (right) "ss_start y = start" "ss_end y \<noteq> end" | (none) "ss_start y = start" "ss_end y = end" by blast
  then show ?thesis
  proof cases
    case both
    let ?pos = "avl_setpos pos (y\<lparr>ss_end := start\<rparr>)"
    let ?t = "t\<lparr>avl_root := avl_plug (fst ?pos) (snd ?pos)\<rparr>"
    have "pos_at (avl_root ?t) xs (y\<lparr>ss_end := start\<rparr>) ys ?pos" "avl_ok (avl_root ?t)"
      using avl_setpos_pos [OF P, of "y\<lparr>ss_end := start\<rparr>"] avl_setpos_ok [OF P, of "y\<lparr>ss_end := start\<rparr>"] T
      by (auto simp: tree_is_def)
    from avl_insert_here_after [OF this] both y T show ?thesis
      by (simp add: space_map_remove_tree_def remove_segs_def tree_is_def Let_def del: avl_insert_here.simps)
  next
    case left
    with tree_set [OF T ok] y show ?thesis by (simp add: space_map_remove_tree_def remove_segs_def)
  next
    case right
    with tree_set [OF T ok, of "y\<lparr>ss_start := end\<rparr>"] y show ?thesis
      by (cases y) (simp add: space_map_remove_tree_def remove_segs_def)
  next
    case none
    with tree_remove [OF T ok P] y show ?thesis
      by (simp add: space_map_remove_tree_def remove_segs_def del: avl_remove.simps)
  qed
qed

lemma space_map_remove_segs:
  assumes inv: "sm_inv sm" and sz: "sz \<noteq> 0" and al: "sm_aligned sm start" "sm_aligned sm sz"
    and sub: "{unat start..<unat start + unat sz} \<subseteq> sm_set sm"
  shows "\<exists>t xs y ys. space_map_remove zr sm start sz = Some (sm\<lparr>sm_root := t, sm_space := sm_space sm - sz\<rparr>) \<and>
    sm_segs sm = xs @ y # ys \<and> ss_start y \<le> start \<and> start + sz \<le> ss_end y \<and>
    avl_elems t = xs @ remove_segs y start (start + sz) @ ys \<and>
    sm_inv (sm\<lparr>sm_root := t, sm_space := sm_space sm - sz\<rparr>) \<and>
    sm_set (sm\<lparr>sm_root := t, sm_space := sm_space sm - sz\<rparr>) =
      sm_set sm - {unat start..<unat start + unat sz}"
proof -
  let ?v = "\<lparr>ss_start = start, ss_end = start + sz\<rparr>" and ?I = "{unat start..<unat start + unat sz}"
  have sz0: "0 < unat sz" using sz by (simp add: unat_gt_0)
  have "unat start + unat sz - 1 \<in> ?I" using sz0 by auto
  then have "unat start + unat sz - 1 \<in> sm_range sm" using sub sm_set_range [OF inv] by blast
  then have "unat start + unat sz < 2 ^ 64" using inv by (auto simp: sm_inv_def sm_range_def)
  then have e: "unat (start + sz) = unat start + unat sz" by (rule unat_end)
  have vset: "seg_set ?v = ?I" by (simp add: seg_set_def e)
  have lt: "start < start + sz" using e sz0 by (simp add: word_less_nat_alt)
  then have lt': "ss_start ?v < ss_end ?v" by simp
  obtain pos xs y ys where F: "avl_find (sm_root sm) ?v = Inl pos"
    and P: "pos_at (avl_root (sm_root sm)) xs y ys pos" "seg_set y \<inter> ?I \<noteq> {}" "avl_data (fst pos) = y"
  proof (cases "avl_find (sm_root sm) ?v")
    case (Inl pos)
    then obtain xs ys where "pos_at (avl_root (sm_root sm)) xs (avl_data (fst pos)) ys pos"
      "seg_set (avl_data (fst pos)) \<inter> ?I \<noteq> {}"
      using find_overlap [OF inv lt'] vset by auto
    with Inl show ?thesis using that by blast
  next
    case (Inr w)
    have "unat start \<in> sm_set sm" using sub sz0 by auto
    with Inr find_overlap [OF inv lt'] lt show ?thesis
      by (fastforce simp: sm_set_def segs_set_def seg_set_def word_le_nat_alt word_less_nat_alt)
  qed
  have S: "sm_segs sm = xs @ y # ys" by (rule pos_at_inorder [OF P(1)])
  have ok: "segs_ok sm (xs @ y # ys)" using inv S by (simp add: sm_inv_def)
  have T: "tree_is (sm_root sm) (xs @ y # ys)" using sm_inv_tree [OF inv] S by simp
  have "?I \<subseteq> seg_set y" using interval_in_one [OF ok] sub P(2) S by (auto simp: sm_set_def)
  then have le: "ss_start y \<le> start" "start + sz \<le> ss_end y"
    using sz0 e by (auto simp: seg_set_def word_le_nat_alt)
  note L = remove_segs_ok [OF ok lt le al(1) sm_aligned_add [OF al]]
  define t where "t = space_map_remove_tree (sm_root sm) pos start (start + sz)"
  have t: "tree_is t (xs @ remove_segs y start (start + sz) @ ys)"
    unfolding t_def by (rule remove_tree [OF T ok P(1)])
  have sp: "unat (sm_space sm) = card (sm_set sm)" using inv by (simp add: sm_inv_def)
  have card: "card (sm_set sm - ?I) = unat (sm_space sm) - unat sz"
    using card_Diff_subset [OF _ sub] sp by simp
  have "unat sz \<le> unat (sm_space sm)" using card_mono [OF _ sub] sp by (simp add: sm_set_def)
  then have sp': "unat (sm_space sm - sz) = unat (sm_space sm) - unat sz" by (simp add: unat_sub word_le_nat_alt)
  have "card (sm_set sm) \<le> unat (sm_size sm)"
    using card_mono [OF _ sm_set_range [OF inv]] by (simp add: sm_range_def)
  then have A: "space_map_remove zr sm start sz = Some (sm\<lparr>sm_root := t, sm_space := sm_space sm - sz\<rparr>)"
    using F P(3) sz al le sp sp' by (simp add: t_def space_map_remove_def Let_def sm_aligned_def word_le_nat_alt)
  have "sm_inv (sm\<lparr>sm_root := t, sm_space := sm_space sm - sz\<rparr>) \<and>
    sm_set (sm\<lparr>sm_root := t, sm_space := sm_space sm - sz\<rparr>) = segs_set (avl_elems t)"
    using sm_invI [OF inv, of t "sm_space sm - sz"] t L card sp' S e by (simp add: tree_is_def sm_set_def)
  with A t L S e le show ?thesis
    by (intro exI [of _ t] exI [of _ xs] exI [of _ y] exI [of _ ys]) (simp add: tree_is_def sm_set_def)
qed

lemma space_map_remove_Some:
  assumes "sm_inv sm" "sz \<noteq> 0" "sm_aligned sm start" "sm_aligned sm sz"
    and "{unat start..<unat start + unat sz} \<subseteq> sm_set sm"
  shows "\<exists>t. space_map_remove zr sm start sz = Some (sm\<lparr>sm_root := t, sm_space := sm_space sm - sz\<rparr>) \<and>
    sm_inv (sm\<lparr>sm_root := t, sm_space := sm_space sm - sz\<rparr>) \<and>
    sm_set (sm\<lparr>sm_root := t, sm_space := sm_space sm - sz\<rparr>) =
      sm_set sm - {unat start..<unat start + unat sz}"
  using space_map_remove_segs [OF assms, of zr] by blast

section \<open>Membership\<close>

lemma space_map_contains_iff:
  assumes inv: "sm_inv sm" and sz: "sz \<noteq> 0" and al: "sm_aligned sm start" "sm_aligned sm sz"
    and top: "unat start + unat sz < 2 ^ 64"
  shows "space_map_contains sm start sz = Some ({unat start..<unat start + unat sz} \<subseteq> sm_set sm)"
proof -
  let ?v = "\<lparr>ss_start = start, ss_end = start + sz\<rparr>" and ?I = "{unat start..<unat start + unat sz}"
  have e: "unat (start + sz) = unat start + unat sz" using top by (rule unat_end)
  have sz0: "0 < unat sz" using sz by (simp add: unat_gt_0)
  have lt: "ss_start ?v < ss_end ?v" using e sz0 by (simp add: word_less_nat_alt)
  have vset: "seg_set ?v = ?I" by (simp add: seg_set_def e)
  show ?thesis
  proof (cases "avl_find (sm_root sm) ?v")
    case (Inl pos)
    then obtain xs ys where P: "pos_at (avl_root (sm_root sm)) xs (avl_data (fst pos)) ys pos"
      "seg_set (avl_data (fst pos)) \<inter> ?I \<noteq> {}"
      using find_overlap [OF inv lt] vset by auto
    note S = pos_at_inorder [OF P(1)]
    have ok: "segs_ok sm (xs @ avl_data (fst pos) # ys)" using inv S by (simp add: sm_inv_def)
    have "?I \<subseteq> sm_set sm \<longleftrightarrow> ?I \<subseteq> seg_set (avl_data (fst pos))"
      using interval_in_one [OF ok] P(2) S by (auto simp: sm_set_def segs_set_def)
    also have "\<dots> \<longleftrightarrow> ss_start (avl_data (fst pos)) \<le> start \<and> start + sz \<le> ss_end (avl_data (fst pos))"
      using sz0 e by (auto simp: seg_set_def word_le_nat_alt)
    finally show ?thesis
      using Inl sz al by (cases pos) (simp add: space_map_contains_def sm_aligned_def Let_def)
  next
    case (Inr w)
    have "unat start \<notin> sm_set sm"
      using Inr find_overlap [OF inv lt] lt
      by (fastforce simp: sm_set_def segs_set_def seg_set_def word_le_nat_alt word_less_nat_alt)
    moreover have "unat start \<in> ?I" using sz0 by simp
    ultimately have "\<not> ?I \<subseteq> sm_set sm" by blast
    then show ?thesis using Inr sz al by (simp add: space_map_contains_def sm_aligned_def Let_def)
  qed
qed

section \<open>Rejected requests\<close>

lemma space_map_add_overlap:
  assumes inv: "sm_inv sm" and top: "unat start + unat sz < 2 ^ 64"
    and meet: "{unat start..<unat start + unat sz} \<inter> sm_set sm \<noteq> {}"
  shows "space_map_add zr sm start sz = None \<or> zr \<and> space_map_add zr sm start sz = Some sm"
proof -
  let ?v = "\<lparr>ss_start = start, ss_end = start + sz\<rparr>"
  have e: "unat (start + sz) = unat start + unat sz" using top by (rule unat_end)
  have lt: "ss_start ?v < ss_end ?v" using e meet by (auto simp: word_less_nat_alt)
  have "\<exists>pos. avl_find (sm_root sm) ?v = Inl pos"
  proof (cases "avl_find (sm_root sm) ?v")
    case (Inr w)
    then show ?thesis
      using find_overlap [OF inv lt] meet e
      by (fastforce simp: sm_set_def segs_set_def seg_set_def word_le_nat_alt)
  qed simp
  then show ?thesis by (auto simp: space_map_add_def Let_def split: prod.splits)
qed

lemma space_map_remove_free:
  assumes inv: "sm_inv sm" and top: "unat start + unat sz < 2 ^ 64"
    and out: "\<not> {unat start..<unat start + unat sz} \<subseteq> sm_set sm"
  shows "space_map_remove zr sm start sz = None \<or> zr \<and> space_map_remove zr sm start sz = Some sm"
proof -
  let ?v = "\<lparr>ss_start = start, ss_end = start + sz\<rparr>" and ?I = "{unat start..<unat start + unat sz}"
  have e: "unat (start + sz) = unat start + unat sz" using top by (rule unat_end)
  have lt: "ss_start ?v < ss_end ?v" using e out by (auto simp: word_less_nat_alt)
  have vset: "seg_set ?v = ?I" by (simp add: seg_set_def e)
  show ?thesis
  proof (cases "avl_find (sm_root sm) ?v")
    case (Inl pos)
    then obtain xs ys where P: "pos_at (avl_root (sm_root sm)) xs (avl_data (fst pos)) ys pos"
      using find_overlap [OF inv lt] by auto
    have "seg_set (avl_data (fst pos)) \<subseteq> sm_set sm"
      using pos_at_inorder [OF P] by (auto simp: sm_set_def segs_set_def)
    then have "\<not> (ss_start (avl_data (fst pos)) \<le> start \<and> start + sz \<le> ss_end (avl_data (fst pos)))"
      using out e by (auto simp: seg_set_def word_le_nat_alt subset_iff)
    with Inl show ?thesis by (auto simp: space_map_remove_def Let_def)
  next
    case (Inr w)
    then show ?thesis by (simp add: space_map_remove_def Let_def)
  qed
qed

section \<open>Excising a range and the union of two maps\<close>

definition sm_frame :: "space_map \<Rightarrow> space_map \<Rightarrow> bool" where
  \<comment> \<open>only the tree and the space count differ\<close>
  "sm_frame sm sm' \<longleftrightarrow> sm' = sm\<lparr>sm_root := sm_root sm', sm_space := sm_space sm'\<rparr>"

lemma sm_frame_trans: "sm_frame a b \<Longrightarrow> sm_frame b c \<Longrightarrow> sm_frame a c"
  by (cases a; cases b; cases c) (simp add: sm_frame_def)

lemma sm_frame_sel:
  assumes "sm_frame sm sm'"
  shows "sm_start sm' = sm_start sm" "sm_size sm' = sm_size sm" "sm_shift sm' = sm_shift sm"
    "sm_aligned sm' = sm_aligned sm" "sm_range sm' = sm_range sm"
    "sm_loaded sm' = sm_loaded sm" "sm_loading sm' = sm_loading sm" "sm_ops sm' = sm_ops sm" "sm_ppd sm' = sm_ppd sm"
  using assms
  by (cases sm; cases sm'; auto simp: sm_frame_def sm_aligned_def sm_unit_def sm_range_def fun_eq_iff)+

lemma sm_frame_upd [simp]: "sm_frame sm (sm\<lparr>sm_root := t, sm_space := sp\<rparr>)"
  by (simp add: sm_frame_def)

lemma excise_first:
  \<comment> \<open>the segment an iteration of the loop looks at is the first one that ends after start\<close>
  assumes inv: "sm_inv sm"
  shows "(case avl_find (sm_root sm) \<lparr>ss_start = start, ss_end = start\<rparr> of
      Inl pos \<Rightarrow> Some (avl_data (fst pos))
    | Inr w \<Rightarrow> map_option (avl_data \<circ> fst) (avl_nearest (sm_root sm) w True)) =
    (let xs = filter (\<lambda>s. start < ss_end s) (sm_segs sm) in if xs = [] then None else Some (hd xs))"
proof -
  let ?v = "\<lparr>ss_start = start, ss_end = start\<rparr>"
  have C: "avl_compar (sm_root sm) = space_map_seg_compare" using inv by (simp add: sm_inv_def)
  have ok: "segs_ok sm (sm_segs sm)" using inv by (simp add: sm_inv_def)
  show ?thesis
  proof (cases "avl_find (sm_root sm) ?v")
    case (Inl pos)
    obtain xs y ys where P: "pos_at (avl_root (sm_root sm)) xs y ys pos" "space_map_seg_compare ?v y = 0"
      using seg.find_Inl [OF sm_inv_wf [OF inv] C _ Inl] by blast
    note S = pos_at_inorder [OF P(1)]
    have y: "ss_start y \<le> start" "start < ss_end y" and xs: "\<forall>s\<in>set xs. ss_end s < ss_start y"
      using P(2) ok S
      by (auto simp: space_map_seg_compare_def segs_ok_def seg_ok_def sorted_wrt_append not_less split: if_splits)
    have "filter (\<lambda>s. start < ss_end s) xs = []"
      using xs y by (auto simp: filter_empty_conv not_less intro: order.trans order.strict_implies_order)
    then show ?thesis using Inl P(1) S y by (simp add: pos_at_def split: prod.splits)
  next
    case (Inr w)
    note F = seg.find_Inr [OF sm_inv_wf [OF inv] C _ Inr]
    have "filter (\<lambda>s. start < ss_end s) (path_before w) = []"
      using F by (auto simp: filter_empty_conv space_map_seg_compare_iff not_less)
    moreover have "filter (\<lambda>s. start < ss_end s) (path_after w) = path_after w"
      using F ok
      by (auto simp: filter_id_conv space_map_seg_compare_iff segs_ok_def seg_ok_def intro: order.strict_trans)
    ultimately show ?thesis
      using Inr F avl_nearest_after [of w "sm_root sm"]
      by (auto simp: pos_at_def Let_def split: option.splits)
  qed
qed

definition overlaps :: "u64 \<Rightarrow> u64 \<Rightarrow> space_seg \<Rightarrow> bool" where
  "overlaps start end s \<longleftrightarrow> start < ss_end s \<and> ss_start s < end"

lemma excise_step:
  assumes inv: "sm_inv sm" and al: "sm_aligned sm start" "sm_aligned sm end" and le: "start < end"
    and s: "filter (\<lambda>s. start < ss_end s) (sm_segs sm) = s # rest" and lt: "ss_start s < end"
    and rm: "rm_start = max (ss_start s) start" "rm_end = min (ss_end s) end"
  shows "\<exists>sm'. space_map_remove zr sm rm_start (rm_end - rm_start) = Some sm' \<and> sm_inv sm' \<and> sm_frame sm sm' \<and>
    sm_set sm' = sm_set sm - {unat rm_start..<unat rm_end} \<and>
    length (filter (overlaps start end) (sm_segs sm')) < length (filter (overlaps start end) (sm_segs sm))"
proof -
  have "s \<in> set (filter (\<lambda>s. start < ss_end s) (sm_segs sm))" unfolding s by simp
  then have sin: "s \<in> set (sm_segs sm)" "start < ss_end s" by auto
  have sok: "seg_ok sm s" and ok: "segs_ok sm (sm_segs sm)" using inv sin by (auto simp: sm_inv_def segs_ok_def)
  have pos: "rm_start < rm_end" using rm lt sin(2) sok le by (auto simp: seg_ok_def max_def min_def)
  then have sz: "rm_end - rm_start \<noteq> 0" by auto
  have e: "unat rm_start + unat (rm_end - rm_start) = unat rm_end" "rm_start + (rm_end - rm_start) = rm_end"
    using pos by (simp_all add: unat_sub word_less_nat_alt word_le_nat_alt)
  have al': "sm_aligned sm rm_start" "sm_aligned sm (rm_end - rm_start)"
    using rm al sok by (auto simp: seg_ok_def max_def min_def intro!: sm_aligned_diff)
  have sub: "{unat rm_start..<unat rm_end} \<subseteq> seg_set s"
    using rm by (auto simp: seg_set_def word_le_nat_alt max_def min_def split: if_splits)
  then have sub': "{unat rm_start..<unat rm_start + unat (rm_end - rm_start)} \<subseteq> sm_set sm"
    using sin(1) e by (auto simp: sm_set_def segs_set_def)
  obtain t xs y ys where R: "space_map_remove zr sm rm_start (rm_end - rm_start) =
      Some (sm\<lparr>sm_root := t, sm_space := sm_space sm - (rm_end - rm_start)\<rparr>)"
    and S: "sm_segs sm = xs @ y # ys" "ss_start y \<le> rm_start" "rm_end \<le> ss_end y"
      "avl_elems t = xs @ remove_segs y rm_start rm_end @ ys"
    and I: "sm_inv (sm\<lparr>sm_root := t, sm_space := sm_space sm - (rm_end - rm_start)\<rparr>)"
      "sm_set (sm\<lparr>sm_root := t, sm_space := sm_space sm - (rm_end - rm_start)\<rparr>) = sm_set sm - {unat rm_start..<unat rm_end}"
    using space_map_remove_segs [OF inv sz al' sub', of zr] unfolding e by blast
  have "unat rm_start \<in> seg_set y" "unat rm_start \<in> seg_set s"
    using S(2,3) pos sub by (auto simp: seg_set_def word_le_nat_alt word_less_nat_alt)
  then have ys: "y = s" using segs_apart [of sm xs y ys] ok S(1) sin(1) by (auto simp: segs_set_def)
  have "filter (overlaps start end) (remove_segs y rm_start rm_end) = []"
    using rm unfolding ys remove_segs_def overlaps_def by (auto simp: max_def min_def)
  moreover have "overlaps start end y" using ys sin lt by (simp add: overlaps_def)
  ultimately have "length (filter (overlaps start end) (avl_elems t)) < length (filter (overlaps start end) (sm_segs sm))"
    using S by simp
  with R I show ?thesis by auto
qed

lemma excise_loop:
  assumes "sm_inv sm" "sm_aligned sm start" "sm_aligned sm end" "start < end"
    and "length (filter (overlaps start end) (sm_segs sm)) < fuel"
  shows "\<exists>sm'. space_map_excise_loop fuel zr sm start end = Some sm' \<and> sm_inv sm' \<and> sm_frame sm sm' \<and>
    sm_set sm' = sm_set sm - {unat start..<unat end}"
  using assms
proof (induction fuel arbitrary: sm)
  case 0
  then show ?case by simp
next
  case (Suc fuel)
  note first = excise_first [OF Suc.prems(1), of start]
  show ?case
  proof (cases "filter (\<lambda>s. start < ss_end s) (sm_segs sm)")
    case Nil
    then have "sm_set sm \<inter> {unat start..<unat end} = {}"
      by (auto simp: filter_empty_conv sm_set_def segs_set_def seg_set_def not_less word_le_nat_alt)
    then show ?thesis using Nil first Suc.prems(1) by (auto simp: sm_frame_def)
  next
    case (Cons s rest)
    show ?thesis
    proof (cases "end \<le> ss_start s")
      case True
      have ok: "segs_ok sm (s # rest)"
        using Suc.prems(1) unfolding sm_inv_def Cons [symmetric] segs_ok_def by (auto intro: sorted_wrt_filter)
      have "\<forall>x\<in>set (sm_segs sm). ss_end x \<le> start \<or> x \<in> set (s # rest)"
        unfolding Cons [symmetric] by auto
      moreover have "\<forall>x\<in>set (s # rest). end \<le> ss_start x"
        using ok True by (auto simp: segs_ok_def seg_ok_def intro: order.trans order.strict_implies_order)
      ultimately have "sm_set sm \<inter> {unat start..<unat end} = {}"
        by (fastforce simp: sm_set_def segs_set_def seg_set_def word_le_nat_alt)
      then show ?thesis using Cons True first Suc.prems(1) by (auto simp: sm_frame_def)
    next
      case False
      define rs where "rs = max (ss_start s) start"
      define re where "re = min (ss_end s) end"
      obtain sm1 where R: "space_map_remove zr sm rs (re - rs) = Some sm1" "sm_inv sm1" "sm_frame sm sm1"
        "sm_set sm1 = sm_set sm - {unat rs..<unat re}"
        "length (filter (overlaps start end) (sm_segs sm1)) < length (filter (overlaps start end) (sm_segs sm))"
        using excise_step [OF Suc.prems(1-4) Cons _ rs_def re_def, of zr] False by (auto simp: not_le)
      have "sm_aligned sm1 start" "sm_aligned sm1 end" using Suc.prems(2,3) sm_frame_sel [OF R(3)] by auto
      moreover have "length (filter (overlaps start end) (sm_segs sm1)) < fuel" using R(5) Suc.prems(5) by simp
      ultimately obtain sm2 where L: "space_map_excise_loop fuel zr sm1 start end = Some sm2" "sm_inv sm2"
        "sm_frame sm1 sm2" "sm_set sm2 = sm_set sm1 - {unat start..<unat end}"
        using Suc.IH [OF R(2)] Suc.prems(4) by blast
      have "{unat rs..<unat re} \<subseteq> {unat start..<unat end}"
        by (auto simp: rs_def re_def max_def min_def word_le_nat_alt split: if_splits)
      then have "sm_set sm2 = sm_set sm - {unat start..<unat end}" using L(4) R(4) by blast
      then show ?thesis
        using first Cons False R(1) L sm_frame_trans [OF R(3) L(3)] by (simp add: rs_def re_def Let_def)
    qed
  qed
qed

lemma space_map_excise_Some:
  assumes "sm_inv sm" "sm_aligned sm start" "sm_aligned sm sz" "unat start + unat sz < 2 ^ 64" "sz \<noteq> 0"
  shows "\<exists>sm'. space_map_excise zr sm start sz = Some sm' \<and> sm_inv sm' \<and> sm_frame sm sm' \<and>
    sm_set sm' = sm_set sm - {unat start..<unat start + unat sz}"
proof -
  have e: "unat (start + sz) = unat start + unat sz" by (rule unat_end [OF assms(4)])
  have "length (filter (overlaps start (start + sz)) (sm_segs sm)) < avl_numnodes (sm_root sm) + 1"
    using assms(1) by (simp add: sm_inv_def less_Suc_eq_le)
  from excise_loop [OF assms(1,2) sm_aligned_add [OF assms(2,3)] _ this, of zr] show ?thesis
    unfolding space_map_excise_def e using assms(5) by (simp add: word_less_nat_alt e unat_gt_0)
qed

lemma union_loop:
  assumes "sm_inv smd" "\<forall>s\<in>set xs. seg_ok smd s"
  shows "\<exists>smd'. foldM (\<lambda>smd ss. do {
         smd' \<leftarrow> space_map_excise zr smd (ss_start ss) (ss_end ss - ss_start ss);
         space_map_add zr smd' (ss_start ss) (ss_end ss - ss_start ss)
       }) smd xs = Some smd' \<and> sm_inv smd' \<and> sm_frame smd smd' \<and> sm_set smd' = sm_set smd \<union> segs_set xs"
  using assms
proof (induction xs arbitrary: smd)
  case Nil
  then show ?case by (simp add: segs_set_simps sm_frame_def)
next
  case (Cons s xs)
  let ?sz = "ss_end s - ss_start s"
  have s: "ss_start s < ss_end s" "seg_set s \<subseteq> sm_range smd" "sm_aligned smd (ss_start s)" "sm_aligned smd (ss_end s)"
    using Cons.prems(2) by (auto simp: seg_ok_def)
  have e: "unat (ss_start s) + unat ?sz = unat (ss_end s)"
    using s(1) by (simp add: unat_sub word_le_nat_alt word_less_nat_alt)
  have al: "sm_aligned smd ?sz" using s(3,4) by (rule sm_aligned_diff [rotated])
  have lo: "unat (sm_start smd) \<le> unat (ss_start s)" "unat (ss_end s) \<le> unat (sm_start smd) + unat (sm_size smd)"
    using s(1,2) by (auto simp: seg_set_def sm_range_def word_less_nat_alt)
  have "unat (ss_start s) + unat ?sz < 2 ^ 64" unfolding e by (rule unat_lt64)
  moreover have sz: "?sz \<noteq> 0" using s(1) by auto
  ultimately obtain sm1 where X: "space_map_excise zr smd (ss_start s) ?sz = Some sm1" "sm_inv sm1" "sm_frame smd sm1"
    "sm_set sm1 = sm_set smd - seg_set s"
    using space_map_excise_Some [OF Cons.prems(1) s(3) al, of zr] e by (auto simp: seg_set_def)
  note fr = sm_frame_sel [OF X(3)]
  obtain t where A: "space_map_add zr sm1 (ss_start s) ?sz = Some (sm1\<lparr>sm_root := t, sm_space := sm_space sm1 + ?sz\<rparr>)"
    "sm_inv (sm1\<lparr>sm_root := t, sm_space := sm_space sm1 + ?sz\<rparr>)"
    "sm_set (sm1\<lparr>sm_root := t, sm_space := sm_space sm1 + ?sz\<rparr>) = sm_set sm1 \<union> seg_set s"
    using space_map_add_Some [OF X(2) sz, of "ss_start s" zr] s(3) al lo X(4) e fr
    by (auto simp: seg_set_def word_le_nat_alt)
  let ?sm2 = "sm1\<lparr>sm_root := t, sm_space := sm_space sm1 + ?sz\<rparr>"
  have f2: "sm_frame smd ?sm2" using X(3) sm_frame_upd sm_frame_trans by blast
  have "\<forall>s\<in>set xs. seg_ok ?sm2 s" using Cons.prems(2) sm_frame_sel [OF f2] by (simp add: seg_ok_def)
  from Cons.IH [OF A(2) this] obtain smd' where "foldM (\<lambda>smd ss. do {
         smd' \<leftarrow> space_map_excise zr smd (ss_start ss) (ss_end ss - ss_start ss);
         space_map_add zr smd' (ss_start ss) (ss_end ss - ss_start ss)
       }) ?sm2 xs = Some smd'" "sm_inv smd'" "sm_frame ?sm2 smd'" "sm_set smd' = sm_set ?sm2 \<union> segs_set xs"
    by blast
  moreover from this have "sm_frame smd smd'" using f2 sm_frame_trans by blast
  ultimately show ?case using X A by (auto simp: segs_set_simps)
qed

section \<open>Emptying a map\<close>

lemma destroy_segs:
  assumes "sm_inv sm"
  shows "\<exists>t. avl_destroy_loop (avl_numnodes (sm_root sm) + 2) (sm_root sm) None =
      Some (avl_postorder (avl_root (sm_root sm)), t) \<and>
    sm_inv (sm\<lparr>sm_root := t, sm_space := 0\<rparr>) \<and> sm_set (sm\<lparr>sm_root := t, sm_space := 0\<rparr>) = {}"
proof -
  from destroy_loop_postorder [of "sm_root sm" "avl_numnodes (sm_root sm) + 2"] assms obtain t where
    t: "avl_destroy_loop (avl_numnodes (sm_root sm) + 2) (sm_root sm) None = Some (avl_postorder (avl_root (sm_root sm)), t)"
    "avl_root t = Null" "avl_numnodes t = 0" "avl_compar t = avl_compar (sm_root sm)"
    by (auto simp: sm_inv_def simp del: avl_destroy_loop.simps)
  have "sm_inv (sm\<lparr>sm_root := t, sm_space := 0\<rparr>) \<and> sm_set (sm\<lparr>sm_root := t, sm_space := 0\<rparr>) = segs_set (avl_elems t)"
    using t assms by (intro sm_invI) (auto simp: sm_inv_def segs_ok_def segs_set_simps)
  with t show ?thesis by (simp add: segs_set_simps del: avl_destroy_loop.simps)
qed

lemma space_map_vacate_Some:
  assumes "sm_inv sm"
  shows "\<exists>t. space_map_vacate sm func mdest =
      (case func of None \<Rightarrow> Some (sm\<lparr>sm_root := t, sm_space := 0\<rparr>, mdest)
       | Some f \<Rightarrow> map_option (Pair (sm\<lparr>sm_root := t, sm_space := 0\<rparr>))
           (foldM (\<lambda>m ss. f m (ss_start ss) (ss_end ss - ss_start ss)) mdest (avl_postorder (avl_root (sm_root sm))))) \<and>
    sm_inv (sm\<lparr>sm_root := t, sm_space := 0\<rparr>) \<and> sm_set (sm\<lparr>sm_root := t, sm_space := 0\<rparr>) = {}"
proof -
  obtain t where t: "avl_destroy_loop (avl_numnodes (sm_root sm) + 2) (sm_root sm) None =
      Some (avl_postorder (avl_root (sm_root sm)), t)"
    and rest: "sm_inv (sm\<lparr>sm_root := t, sm_space := 0\<rparr>)" "sm_set (sm\<lparr>sm_root := t, sm_space := 0\<rparr>) = {}"
    using destroy_segs [OF assms] by blast
  show ?thesis
    unfolding space_map_vacate_def t using rest
    by (intro exI [of _ t]) (auto simp del: avl_destroy_loop.simps split: option.splits bind_splits)
qed

lemma card_segs:
  assumes "segs_ok sm xs"
  shows "card (segs_set xs) = (\<Sum>s\<leftarrow>xs. unat (ss_end s - ss_start s))"
  using assms
proof (induction xs)
  case (Cons s xs)
  have "seg_set s \<inter> segs_set xs = {}" using segs_apart [of sm "[]" s xs] Cons.prems by simp
  moreover have "card (seg_set s) = unat (ss_end s - ss_start s)"
    using Cons.prems by (auto simp: segs_ok_def seg_ok_def seg_set_def unat_sub word_less_nat_alt word_le_nat_alt)
  moreover have "segs_ok sm xs" using Cons.prems by (simp add: segs_ok_def)
  ultimately show ?case
    using Cons.IH by (simp add: segs_set_simps card_Un_disjoint) (simp add: seg_set_def card_Un_disjoint)
qed (simp add: segs_set_simps)

lemma segs_disjoint:
  assumes "segs_ok sm xs"
  shows "distinct xs \<and> (\<forall>a\<in>set xs. \<forall>b\<in>set xs. a \<noteq> b \<longrightarrow> seg_set a \<inter> seg_set b = {})"
proof -
  have "distinct xs" using assms
    by (induction xs) (auto simp: segs_ok_def seg_ok_def dest: order.strict_trans)
  moreover have "seg_set a \<inter> seg_set b = {}" if "a \<in> set xs" "b \<in> set xs" "a \<noteq> b" for a b
  proof -
    obtain us vs where xs: "xs = us @ a # vs" using \<open>a \<in> set xs\<close> by (meson split_list)
    then have "b \<in> set (us @ vs)" using that by auto
    then show ?thesis using segs_apart [of sm us a vs] assms xs by (auto simp: segs_set_def)
  qed
  ultimately show ?thesis by blast
qed

lemma of_nat_sum_unat: "of_nat (\<Sum>x\<leftarrow>xs. unat (f x :: u64)) = (\<Sum>x\<leftarrow>xs. f x)"
  by (induction xs) auto

lemma sum_list_mset: "mset xs = mset ys \<Longrightarrow> (\<Sum>x\<leftarrow>xs. f x :: u64) = (\<Sum>x\<leftarrow>ys. f x)"
  by (simp flip: sum_mset_sum_list)

lemma postorder_space:
  assumes "sm_inv sm"
  shows "sm_space sm = (\<Sum>s\<leftarrow>avl_postorder (avl_root (sm_root sm)). ss_end s - ss_start s)"
proof -
  let ?f = "\<lambda>s. ss_end s - ss_start s"
  have "unat (sm_space sm) = (\<Sum>s\<leftarrow>sm_segs sm. unat (?f s))"
    using assms card_segs [of sm "sm_segs sm"] by (simp add: sm_inv_def sm_set_def)
  from arg_cong [OF this, of "of_nat :: nat \<Rightarrow> u64"]
  have "sm_space sm = of_nat (\<Sum>s\<leftarrow>sm_segs sm. unat (?f s))" by simp
  also have "\<dots> = (\<Sum>s\<leftarrow>sm_segs sm. ?f s)"
    by (rule of_nat_sum_unat)
  also have "\<dots> = (\<Sum>s\<leftarrow>avl_postorder (avl_root (sm_root sm)). ?f s)"
    by (rule sum_list_mset [OF mset_postorder [symmetric]])
  finally show ?thesis .
qed

section \<open>Properties\<close>

lemma sm_inv_create:
  assumes "unat start + unat sz < 2 ^ 64"
  shows "sm_inv (space_map_create start sz shift) \<and> sm_set (space_map_create start sz shift) = {}"
  using assms by (simp add: sm_inv_def space_map_create_def sm_set_def segs_set_simps segs_ok_def avl_create_def)

definition demo_map :: space_map where
  "demo_map = (space_map_create 0 4096 9)
     \<lparr>sm_root := \<lparr>avl_root = Node Null \<lparr>ss_start = 512, ss_end = 1536\<rparr> 0 Null, avl_compar = space_map_seg_compare, avl_numnodes = 1\<rparr>,
      sm_space := 1024\<rparr>"

lemma demo_map_ok: "sm_inv demo_map" "sm_set demo_map = {512..<1536}"
proof -
  show S: "sm_set demo_map = {512..<1536}" by (simp add: demo_map_def sm_set_def segs_set_simps seg_set_def)
  have "seg_ok demo_map \<lparr>ss_start = 512, ss_end = 1536\<rparr>"
    by (simp add: seg_ok_def demo_map_def space_map_create_def seg_set_def sm_range_def sm_aligned_def sm_unit_def P2PHASE_def)
  then show "sm_inv demo_map" unfolding sm_inv_def S
    by (simp add: demo_map_def space_map_create_def segs_ok_def)
qed

lemma demo_map_aligned: "sm_aligned demo_map 1024" "sm_aligned demo_map 512" "sm_aligned demo_map 2048"
  "sm_start demo_map = 0" "sm_size demo_map = 4096"
  by (simp_all add: sm_aligned_def demo_map_def space_map_create_def sm_unit_def P2PHASE_def)

text \<open>C13. Adding an aligned, non-empty range that lies in the map's region: when no offset of it
  is in the map the call returns, the map then stands for the union, and the invariant (balanced
  tree, sorted merged segments, right space count) still holds; when some offset is already in the
  map, the call panics, or, with \<^verbatim>\<open>zfs_recover\<close> set, returns the map unchanged.\<close>

theorem space_map_add_correct:
  assumes "sm_inv sm" "sz \<noteq> 0" "sm_start sm \<le> start"
    and "unat start + unat sz \<le> unat (sm_start sm) + unat (sm_size sm)"
    and "sm_aligned sm start" "sm_aligned sm sz"
  shows "case space_map_add zr sm start sz of
      Some sm' \<Rightarrow>
        if {unat start..<unat start + unat sz} \<inter> sm_set sm = {}
        then sm_inv sm' \<and> sm_frame sm sm' \<and> sm_set sm' = sm_set sm \<union> {unat start..<unat start + unat sz}
        else zr \<and> sm' = sm
    | None \<Rightarrow> {unat start..<unat start + unat sz} \<inter> sm_set sm \<noteq> {}"
proof (cases "{unat start..<unat start + unat sz} \<inter> sm_set sm = {}")
  case True
  from space_map_add_Some [OF assms True, of zr] True show ?thesis by auto
next
  case False
  have "unat start + unat sz < 2 ^ 64" using assms(1,4) by (simp add: sm_inv_def)
  from space_map_add_overlap [OF assms(1) this False, of zr] show ?thesis
    unfolding if_not_P [OF False] using False by (elim disjE conjE) simp_all
qed

theorem space_map_add_correct_witness:
  "(case space_map_add False demo_map 2048 512 of
      Some sm' \<Rightarrow> sm_inv sm' \<and> sm_frame demo_map sm' \<and> sm_set sm' = {512..<1536} \<union> {2048..<2560}
    | None \<Rightarrow> False)"
  using space_map_add_correct [of demo_map 512 2048 False]
  by (simp add: demo_map_ok demo_map_aligned split: option.splits)

text \<open>C14. Removing an aligned, non-empty range: when every offset of it is in the map the call
  returns, the map then stands for the difference and the invariant still holds; otherwise the call
  panics or, with \<^verbatim>\<open>zfs_recover\<close> set, returns the map unchanged.\<close>

theorem space_map_remove_correct:
  assumes "sm_inv sm" "sz \<noteq> 0" "sm_aligned sm start" "sm_aligned sm sz" "unat start + unat sz < 2 ^ 64"
  shows "case space_map_remove zr sm start sz of
      Some sm' \<Rightarrow>
        if {unat start..<unat start + unat sz} \<subseteq> sm_set sm
        then sm_inv sm' \<and> sm_frame sm sm' \<and> sm_set sm' = sm_set sm - {unat start..<unat start + unat sz}
        else zr \<and> sm' = sm
    | None \<Rightarrow> \<not> {unat start..<unat start + unat sz} \<subseteq> sm_set sm"
proof (cases "{unat start..<unat start + unat sz} \<subseteq> sm_set sm")
  case True
  from space_map_remove_Some [OF assms(1-4) True, of zr] True show ?thesis by auto
next
  case False
  from space_map_remove_free [OF assms(1,5) False, of zr] show ?thesis
    unfolding if_not_P [OF False] using False by (elim disjE conjE) simp_all
qed

theorem space_map_remove_correct_witness:
  "(case space_map_remove False demo_map 1024 512 of
      Some sm' \<Rightarrow> sm_inv sm' \<and> sm_frame demo_map sm' \<and> sm_set sm' = {512..<1536} - {1024..<1536}
    | None \<Rightarrow> False)"
  using space_map_remove_correct [of demo_map 512 1024 False]
  by (simp add: demo_map_ok demo_map_aligned split: option.splits)

text \<open>C15. Excising a non-empty aligned range always returns, and takes exactly the offsets of
  the range out of the map, however many segments it meets; the space of every one of them is
  accounted for.\<close>

theorem space_map_excise_correct:
  assumes "sm_inv sm" "sm_aligned sm start" "sm_aligned sm sz" "unat start + unat sz < 2 ^ 64" "sz \<noteq> 0"
  shows "\<exists>sm'. space_map_excise zr sm start sz = Some sm' \<and> sm_inv sm' \<and> sm_frame sm sm' \<and>
    sm_set sm' = sm_set sm - {unat start..<unat start + unat sz}"
  using assms by (rule space_map_excise_Some)

theorem space_map_excise_correct_witness:
  "\<exists>sm'. space_map_excise False demo_map 1024 2048 = Some sm' \<and> sm_inv sm' \<and> sm_frame demo_map sm' \<and>
    sm_set sm' = {512..<1536} - {1024..<3072}"
  using space_map_excise_correct [of demo_map 1024 2048 False] by (simp add: demo_map_ok demo_map_aligned)

lemma space_map_union_Some:
  assumes "sm_inv smd" "sm_inv sms" "sm_start sms = sm_start smd" "sm_size sms = sm_size smd" "sm_shift sms = sm_shift smd"
  shows "\<exists>smd'. space_map_union zr smd sms = Some smd' \<and> sm_inv smd' \<and> sm_frame smd smd' \<and>
    sm_set smd' = sm_set smd \<union> sm_set sms"
proof -
  have "\<forall>s\<in>set (sm_segs sms). seg_ok smd s"
    using assms by (auto simp: sm_inv_def segs_ok_def seg_ok_def sm_range_def sm_aligned_def sm_unit_def)
  from union_loop [OF assms(1) this, of zr] show ?thesis
    by (simp add: space_map_union_def avl_list_from_first sm_set_def)
qed

text \<open>C29. The union of two maps of the same region always returns and stands for the union of
  their sets, overlapping or not.\<close>

theorem space_map_union_correct:
  assumes "sm_inv smd" "sm_inv sms" "sm_start sms = sm_start smd" "sm_size sms = sm_size smd" "sm_shift sms = sm_shift smd"
  shows "\<exists>smd'. space_map_union zr smd sms = Some smd' \<and> sm_inv smd' \<and> sm_frame smd smd' \<and>
    sm_set smd' = sm_set smd \<union> sm_set sms"
  using assms by (rule space_map_union_Some)

theorem space_map_union_correct_witness:
  "\<exists>smd'. space_map_union False (space_map_create 0 4096 9) demo_map = Some smd' \<and> sm_inv smd' \<and>
    sm_set smd' = {512..<1536}"
proof -
  have "sm_start demo_map = sm_start (space_map_create 0 4096 9)" "sm_size demo_map = sm_size (space_map_create 0 4096 9)"
    "sm_shift demo_map = sm_shift (space_map_create 0 4096 9)" by (simp_all add: demo_map_def)
  from space_map_union_correct [OF _ demo_map_ok(1) this, of False] sm_inv_create [of 0 4096 9] demo_map_ok(2)
  show ?thesis by auto
qed

text \<open>C30. Vacating a map hands every segment to the callback exactly once, in some order that is
  a permutation of the segments, and leaves a map that is empty, meets the invariant and can be
  destroyed.\<close>

theorem space_map_vacate_correct:
  assumes "sm_inv sm"
  shows "\<exists>sm' segs. mset segs = mset (sm_segs sm) \<and>
    (\<forall>f (m :: 'm). space_map_vacate sm (Some f) m =
       map_option (Pair sm') (foldM (\<lambda>m ss. f m (ss_start ss) (ss_end ss - ss_start ss)) m segs)) \<and>
    (\<forall>m :: 'm. space_map_vacate sm None m = Some (sm', m)) \<and>
    sm_inv sm' \<and> sm_set sm' = {} \<and> space_map_destroy sm' = Some ()"
proof -
  obtain t where t: "avl_destroy_loop (avl_numnodes (sm_root sm) + 2) (sm_root sm) None =
      Some (avl_postorder (avl_root (sm_root sm)), t)"
    and rest: "sm_inv (sm\<lparr>sm_root := t, sm_space := 0\<rparr>)" "sm_set (sm\<lparr>sm_root := t, sm_space := 0\<rparr>) = {}"
    using destroy_segs [OF assms] by blast
  show ?thesis
    unfolding space_map_vacate_def t
    by (rule exI [of _ "sm\<lparr>sm_root := t, sm_space := 0\<rparr>"], rule exI [of _ "avl_postorder (avl_root (sm_root sm))"])
      (use rest in \<open>auto simp: mset_postorder space_map_destroy_def VERIFY_def split: bind_splits\<close>)
qed

theorem space_map_vacate_correct_witness:
  "\<exists>sm'. space_map_vacate demo_map (Some (\<lambda>m start sz. Some (m + sz))) 0 = Some (sm', 1024) \<and> sm_set sm' = {}"
proof -
  obtain sm' segs where "mset segs = mset (sm_segs demo_map)"
    "space_map_vacate demo_map (Some (\<lambda>m start sz. Some (m + sz))) 0 =
       map_option (Pair sm') (foldM (\<lambda>m ss. Some (m + (ss_end ss - ss_start ss))) 0 segs)" "sm_set sm' = {}"
    using space_map_vacate_correct [OF demo_map_ok(1), where 'm = u64] by auto
  moreover from this(1) have "segs = [\<lparr>ss_start = 512, ss_end = 1536\<rparr>]" by (simp add: demo_map_def)
  ultimately show ?thesis by simp
qed

end
