(* ===== verification/Space_Map_Disk.thy ===== *)
theory Space_Map_Disk
  imports Space_Map
begin

text \<open>
  The on-disk form of a space map, a log of 64-bit entries, from the second half of
  \<^verbatim>\<open>src/lib/libzpool/space_map.c\<close> and the entry format of \<^verbatim>\<open>space_map.h\<close>. The DMU object that
  holds the log is reached through two arguments, \<open>dmu_read\<close> and \<open>dmu_write\<close>; a read returns
  an error number or the words read. The lock that the code drops around these calls is not
  modelled.
\<close>

section \<open>Entries\<close>

definition SM_RUN_DECODE :: "u64 \<Rightarrow> u64" where "SM_RUN_DECODE x = BF64_DECODE x 0 15 + 1"
definition SM_RUN_ENCODE :: "u64 \<Rightarrow> u64" where "SM_RUN_ENCODE x = BF64_ENCODE (x - 1) 0 15"
definition SM_TYPE_DECODE :: "u64 \<Rightarrow> u64" where "SM_TYPE_DECODE x = BF64_DECODE x 15 1"
definition SM_TYPE_ENCODE :: "u64 \<Rightarrow> u64" where "SM_TYPE_ENCODE x = BF64_ENCODE x 15 1"
definition SM_OFFSET_DECODE :: "u64 \<Rightarrow> u64" where "SM_OFFSET_DECODE x = BF64_DECODE x 16 47"
definition SM_OFFSET_ENCODE :: "u64 \<Rightarrow> u64" where "SM_OFFSET_ENCODE x = BF64_ENCODE x 16 47"
definition SM_DEBUG_DECODE :: "u64 \<Rightarrow> u64" where "SM_DEBUG_DECODE x = BF64_DECODE x 63 1"
definition SM_DEBUG_ENCODE :: "u64 \<Rightarrow> u64" where "SM_DEBUG_ENCODE x = BF64_ENCODE x 63 1"
definition SM_DEBUG_ACTION_ENCODE :: "u64 \<Rightarrow> u64" where "SM_DEBUG_ACTION_ENCODE x = BF64_ENCODE x 60 3"
definition SM_DEBUG_SYNCPASS_ENCODE :: "u64 \<Rightarrow> u64" where "SM_DEBUG_SYNCPASS_ENCODE x = BF64_ENCODE x 50 10"
definition SM_DEBUG_TXG_ENCODE :: "u64 \<Rightarrow> u64" where "SM_DEBUG_TXG_ENCODE x = BF64_ENCODE x 0 50"

definition SM_RUN_MAX :: u64 where "SM_RUN_MAX = SM_RUN_DECODE (NOT 0)"
definition SM_ALLOC :: u64 where "SM_ALLOC = 0"
definition SM_FREE :: u64 where "SM_FREE = 1"
definition SPACE_MAP_BLOCKSHIFT :: nat where "SPACE_MAP_BLOCKSHIFT = 12"

section \<open>Loading\<close>

definition space_map_load_wait :: "space_map \<Rightarrow> unit option" where
  \<comment> \<open>sleeps while another load is in progress\<close>
  "space_map_load_wait sm = VERIFY (\<not> sm_loading sm)"

definition load_entry :: "bool \<Rightarrow> u64 \<Rightarrow> u64 \<Rightarrow> space_map \<Rightarrow> u64 \<Rightarrow> space_map option" where
  "load_entry zr maptype mapstart sm e =
     (if SM_DEBUG_DECODE e \<noteq> 0 then Some sm
      else (if SM_TYPE_DECODE e = maptype then space_map_add else space_map_remove) zr sm
        (push_bit (unat (sm_shift sm)) (SM_OFFSET_DECODE e) + mapstart)
        (push_bit (unat (sm_shift sm)) (SM_RUN_DECODE e)))"

fun load_loop ::
  "nat \<Rightarrow> (u64 \<Rightarrow> u64 \<Rightarrow> int + u64 list) \<Rightarrow> bool \<Rightarrow> u64 \<Rightarrow> u64 \<Rightarrow> u64 \<Rightarrow> u64 \<Rightarrow> space_map \<Rightarrow> (int \<times> space_map) option" where
  "load_loop 0 rd zr maptype mapstart end offset sm = None"
| "load_loop (Suc fuel) rd zr maptype mapstart end offset sm =
     (if \<not> offset < end then Some (0, sm)
      else let bufsize = push_bit SPACE_MAP_BLOCKSHIFT 1; sz = min (end - offset) bufsize in do {
        VERIFY (P2PHASE sz 8 = 0);
        VERIFY (sz \<noteq> 0);
        case rd offset sz of
          Inl error \<Rightarrow> Some (error, sm)
        | Inr entry_map \<Rightarrow> do {
            sm' \<leftarrow> foldM (load_entry zr maptype mapstart) sm entry_map;
            load_loop fuel rd zr maptype mapstart end (offset + bufsize) sm'
          }
      })"

definition space_map_load ::
  "(u64 \<Rightarrow> u64 \<Rightarrow> u64 \<Rightarrow> int + u64 list) \<Rightarrow> (space_map_ops \<Rightarrow> smop_vec) \<Rightarrow> bool \<Rightarrow> space_map \<Rightarrow>
   space_map_ops option \<Rightarrow> u64 \<Rightarrow> space_map_obj \<Rightarrow> (int \<times> space_map) option" where
  "space_map_load dmu_read vec zr sm ops maptype smo = do {
     space_map_load_wait sm;
     if sm_loaded sm then Some (0, sm)
     else let mapstart = sm_start sm; sm1 = sm\<lparr>sm_loading := True\<rparr>; end = smo_objsize smo in do {
       VERIFY (sm_space sm1 = 0);
       (sm2, space) \<leftarrow> (if maptype = SM_FREE then do {
            s \<leftarrow> space_map_add zr sm1 (sm_start sm1) (sm_size sm1);
            Some (s, sm_size sm1 - smo_alloc smo)
          } else Some (sm1, smo_alloc smo));
       (error, sm3) \<leftarrow> load_loop (unat end div 2 ^ SPACE_MAP_BLOCKSHIFT + 2) (dmu_read (smo_object smo)) zr
          maptype mapstart end 0 sm2;
       if error = 0 then do {
         VERIFY (sm_space sm3 = space);
         let sm4 = sm3\<lparr>sm_loaded := True, sm_ops := ops\<rparr>;
             sm5 = (case ops of None \<Rightarrow> sm4 | Some v \<Rightarrow> smop_load (vec v) sm4)
         in Some (0, sm5\<lparr>sm_loading := False\<rparr>)
       } else do {
         (sm4, _) \<leftarrow> space_map_vacate sm3 None ();
         Some (error, sm4\<lparr>sm_loading := False\<rparr>)
       }
     }
   }"

definition space_map_unload :: "(space_map_ops \<Rightarrow> smop_vec) \<Rightarrow> space_map \<Rightarrow> space_map option" where
  "space_map_unload vec sm =
     (let sm1 = (case sm_ops sm of Some v \<Rightarrow> if sm_loaded sm then smop_unload (vec v) sm else sm | None \<Rightarrow> sm) in
      map_option fst (space_map_vacate (sm1\<lparr>sm_loaded := False, sm_ops := None\<rparr>) None ()))"

section \<open>Allocating through the block picker\<close>

definition space_map_alloc ::
  "(space_map_ops \<Rightarrow> smop_vec) \<Rightarrow> bool \<Rightarrow> space_map \<Rightarrow> u64 \<Rightarrow> (u64 \<times> space_map) option" where
  \<comment> \<open>None also when there is no block picker: a call through a NULL pointer\<close>
  "space_map_alloc vec zr sm sz = do {
     v \<leftarrow> sm_ops sm;
     (start, sm1) \<leftarrow> smop_alloc (vec v) sm sz;
     if start \<noteq> - 1 then map_option (\<lambda>sm2. (start, sm2)) (space_map_remove zr sm1 start sz)
     else Some (start, sm1)
   }"

definition space_map_claim ::
  "(space_map_ops \<Rightarrow> smop_vec) \<Rightarrow> bool \<Rightarrow> space_map \<Rightarrow> u64 \<Rightarrow> u64 \<Rightarrow> space_map option" where
  "space_map_claim vec zr sm start sz = do {
     v \<leftarrow> sm_ops sm;
     space_map_remove zr (smop_claim (vec v) sm start sz) start sz
   }"

definition space_map_free ::
  "(space_map_ops \<Rightarrow> smop_vec) \<Rightarrow> bool \<Rightarrow> space_map \<Rightarrow> u64 \<Rightarrow> u64 \<Rightarrow> space_map option" where
  "space_map_free vec zr sm start sz = do {
     sm1 \<leftarrow> space_map_add zr sm start sz;
     v \<leftarrow> sm_ops sm1;
     Some (smop_free (vec v) sm1 start sz)
   }"

section \<open>Syncing\<close>

lemma SM_RUN_MAX_eq: "SM_RUN_MAX = 32768"
proof -
  have "take_bit 15 (- 1 :: u64) = mask 15" by simp
  then show ?thesis by (simp add: SM_RUN_MAX_def SM_RUN_DECODE_def BF64_DECODE_take mask_eq_exp_minus_1)
qed

function sync_runs :: "u64 \<Rightarrow> u64 \<Rightarrow> u64 \<Rightarrow> u64 list" where
  "sync_runs maptype start sz =
     (if sz = 0 then []
      else let run_len = min sz SM_RUN_MAX in
        (SM_OFFSET_ENCODE start OR SM_TYPE_ENCODE maptype OR SM_RUN_ENCODE run_len)
          # sync_runs maptype (start + run_len) (sz - run_len))"
  by pat_completeness auto
termination
  by (relation "measure (\<lambda>(_, _, sz). unat sz)")
    (auto simp: SM_RUN_MAX_eq min_def unat_sub word_le_nat_alt unat_gt_0)

declare sync_runs.simps [simp del]

record 'os sync_state =
  sy_os :: 'os
  sy_smo :: space_map_obj
  sy_buf :: "u64 list"

definition sync_write :: "('os \<Rightarrow> u64 \<Rightarrow> u64 \<Rightarrow> u64 list \<Rightarrow> 'os) \<Rightarrow> 'os sync_state \<Rightarrow> 'os sync_state" where
  \<comment> \<open>write the buffer at the end of the object\<close>
  "sync_write dmu_write st =
     st\<lparr>sy_os := dmu_write (sy_os st) (smo_object (sy_smo st)) (smo_objsize (sy_smo st)) (sy_buf st),
        sy_smo := (sy_smo st)\<lparr>smo_objsize := smo_objsize (sy_smo st) + of_nat (8 * length (sy_buf st))\<rparr>,
        sy_buf := []\<rparr>"

definition sync_put ::
  "('os \<Rightarrow> u64 \<Rightarrow> u64 \<Rightarrow> u64 list \<Rightarrow> 'os) \<Rightarrow> nat \<Rightarrow> 'os sync_state \<Rightarrow> u64 \<Rightarrow> 'os sync_state" where
  "sync_put dmu_write cap st e =
     (let st' = (if length (sy_buf st) = cap then sync_write dmu_write st else st)
      in st'\<lparr>sy_buf := sy_buf st' @ [e]\<rparr>)"

definition space_map_sync ::
  "('os \<Rightarrow> u64 \<Rightarrow> u64 \<Rightarrow> u64 list \<Rightarrow> 'os) \<Rightarrow> u64 \<Rightarrow> u64 \<Rightarrow> space_map \<Rightarrow> u64 \<Rightarrow> space_map_obj \<Rightarrow> 'os \<Rightarrow>
   (space_map \<times> space_map_obj \<times> 'os) option" where
  "space_map_sync dmu_write syncpass txg sm maptype smo os =
     (if sm_space sm = 0 then Some (sm, smo, os)
      else
        let smo1 = smo\<lparr>smo_alloc := (if maptype = SM_ALLOC then smo_alloc smo + sm_space sm
                                    else smo_alloc smo - sm_space sm)\<rparr>;
            cap = min (8 + avl_numnodes (sm_root sm)) (2 ^ SPACE_MAP_BLOCKSHIFT div 8);
            debug = SM_DEBUG_ENCODE 1 OR SM_DEBUG_ACTION_ENCODE maptype OR
              SM_DEBUG_SYNCPASS_ENCODE syncpass OR SM_DEBUG_TXG_ENCODE txg;
            st0 = \<lparr>sy_os = os, sy_smo = smo1, sy_buf = [debug]\<rparr>
        in do {
          (segs, t) \<leftarrow> avl_destroy_loop (avl_numnodes (sm_root sm) + 2) (sm_root sm) None;
          let (st, space) = fold (\<lambda>ss (st, space).
                let sz = ss_end ss - ss_start ss;
                    start = drop_bit (unat (sm_shift sm)) (ss_start ss - sm_start sm)
                in (foldl (sync_put dmu_write cap) st
                      (sync_runs maptype start (drop_bit (unat (sm_shift sm)) sz)), space - sz))
              segs (st0, sm_space sm);
              st' = (if sy_buf st \<noteq> [] then sync_write dmu_write st else st)
          in do {
            VERIFY (space = 0);
            Some (sm\<lparr>sm_root := t, sm_space := space\<rparr>, sy_smo st', sy_os st')
          }
        })"

definition space_map_truncate ::
  "('os \<Rightarrow> u64 \<Rightarrow> u64 \<Rightarrow> u64 \<Rightarrow> int \<times> 'os) \<Rightarrow> space_map_obj \<Rightarrow> 'os \<Rightarrow> (space_map_obj \<times> 'os) option" where
  "space_map_truncate dmu_free_range smo os =
     (case dmu_free_range os (smo_object smo) 0 (- 1) of (error, os') \<Rightarrow> do {
        VERIFY (error = 0);
        Some (smo\<lparr>smo_objsize := 0, smo_alloc := 0\<rparr>, os')
      })"

section \<open>Entries can be read back\<close>

definition sm_entry :: "u64 \<Rightarrow> u64 \<Rightarrow> u64 \<Rightarrow> u64" where
  "sm_entry maptype start run_len = SM_OFFSET_ENCODE start OR SM_TYPE_ENCODE maptype OR SM_RUN_ENCODE run_len"

lemma bit_small: "unat x < 2 ^ n \<Longrightarrow> bit (x :: u64) k \<Longrightarrow> k < n"
proof (rule ccontr)
  assume x: "unat x < 2 ^ n" and b: "bit x k" and "\<not> k < n"
  then have "(2::nat) ^ n \<le> 2 ^ k" by simp
  moreover have "2 ^ k \<le> unat x"
  proof -
    have "k < 64" using b bit_imp_le_length by fastforce
    then have "bit (unat x) k" using b by (simp add: bit_unsigned_iff)
    then show ?thesis by (simp add: bit_iff_odd) (metis div_less even_zero not_less)
  qed
  ultimately show False using x by linarith
qed

lemma sm_entry_decode:
  assumes "unat off < 2 ^ 47" "t = SM_ALLOC \<or> t = SM_FREE" "run \<noteq> 0" "unat run \<le> 2 ^ 15"
  shows "SM_DEBUG_DECODE (sm_entry t off run) = 0 \<and> SM_TYPE_DECODE (sm_entry t off run) = t \<and>
    SM_OFFSET_DECODE (sm_entry t off run) = off \<and> SM_RUN_DECODE (sm_entry t off run) = run"
proof -
  note defs = sm_entry_def SM_OFFSET_ENCODE_def SM_TYPE_ENCODE_def SM_RUN_ENCODE_def
  have r: "unat (run - 1) < 2 ^ 15" using assms(3,4) unat_minus_one [of run] unat_gt_0 [of run] by linarith
  have "SM_DEBUG_DECODE (sm_entry t off run) = 0"
    by (rule bit_eqI) (auto simp: SM_DEBUG_DECODE_def defs bit_BF64 bit_simps)
  moreover have "SM_TYPE_DECODE (sm_entry t off run) = t"
    using assms(2)
    by (intro bit_eqI) (auto simp: SM_TYPE_DECODE_def defs bit_BF64 bit_simps SM_ALLOC_def SM_FREE_def)
  moreover have "SM_OFFSET_DECODE (sm_entry t off run) = off"
    using bit_small [OF assms(1)] bit_small [of off 48] assms(1)
    by (intro bit_eqI) (auto simp: SM_OFFSET_DECODE_def defs bit_BF64 bit_simps)
  moreover have "BF64_DECODE (sm_entry t off run) 0 15 = run - 1"
    using bit_small [OF r]
    by (intro bit_eqI) (auto simp: defs bit_BF64 bit_simps)
  ultimately show ?thesis by (simp add: SM_RUN_DECODE_def)
qed

section \<open>Replaying the log\<close>

definition log_pre :: "u64 \<Rightarrow> u64 \<Rightarrow> nat set \<Rightarrow> nat set \<Rightarrow> bool" where
  "log_pre t m S I \<longleftrightarrow> (if t = m then S \<inter> I = {} else I \<subseteq> S)"

definition log_op :: "u64 \<Rightarrow> u64 \<Rightarrow> nat set \<Rightarrow> nat set \<Rightarrow> nat set" where
  "log_op t m S I = (if t = m then S \<union> I else S - I)"

lemma log_pre_Un:
  "I \<inter> J = {} \<Longrightarrow> log_pre t m S (I \<union> J) \<longleftrightarrow> log_pre t m S I \<and> log_pre t m (log_op t m S I) J"
  by (auto simp: log_pre_def log_op_def)

lemma log_op_Un: "log_op t m (log_op t m S I) J = log_op t m S (I \<union> J)"
  by (auto simp: log_op_def)

lemma log_empty [simp]: "log_pre t m S {}" "log_op t m S {} = S"
  by (auto simp: log_pre_def log_op_def)

lemma sm_aligned_push: "sm_aligned sm (push_bit (unat (sm_shift sm)) x)"
  by (simp add: sm_aligned_def sm_unit_def P2PHASE_exp take_bit_push_bit)

definition units :: "space_map \<Rightarrow> u64 \<Rightarrow> nat \<Rightarrow> nat \<Rightarrow> nat set" where
  \<comment> \<open>the offsets of n allocation units from unit u on\<close>
  "units sm mapstart u n =
     {unat mapstart + u * 2 ^ unat (sm_shift sm)..<unat mapstart + (u + n) * 2 ^ unat (sm_shift sm)}"

lemma units_Un: "units sm ms u (n + m) = units sm ms u n \<union> units sm ms (u + n) m"
  "units sm ms u n \<inter> units sm ms (u + n) m = {}"
  by (auto simp: units_def algebra_simps)

lemma load_entry_ok:
  assumes inv: "sm_inv sm" and k: "unat (sm_shift sm) < 64" and t: "t = SM_ALLOC \<or> t = SM_FREE"
    and al: "sm_aligned sm ms" and run: "run \<noteq> 0" "unat run \<le> 2 ^ 15" and off: "unat off < 2 ^ 47"
    and sub: "units sm ms (unat off) (unat run) \<subseteq> sm_range sm"
    and pre: "log_pre t m (sm_set sm) (units sm ms (unat off) (unat run))"
  shows "\<exists>sm'. load_entry zr m ms sm (sm_entry t off run) = Some sm' \<and> sm_inv sm' \<and> sm_frame sm sm' \<and>
    sm_set sm' = log_op t m (sm_set sm) (units sm ms (unat off) (unat run))"
proof -
  let ?k = "unat (sm_shift sm)"
  let ?a = "unat ms + unat off * 2 ^ ?k" and ?n = "unat run * 2 ^ ?k"
  have I: "units sm ms (unat off) (unat run) = {?a..<?a + ?n}"
    by (simp add: units_def algebra_simps)
  have n0: "0 < ?n" using run(1) by (simp add: unat_gt_0)
  have "\<And>a n :: nat. 0 < n \<Longrightarrow> a \<in> {a..<a + n} \<and> a + n - 1 \<in> {a..<a + n}" by auto
  from this [OF n0] have "?a \<in> {?a..<?a + ?n}" "?a + ?n - 1 \<in> {?a..<?a + ?n}" by blast+
  then have rng: "?a \<in> sm_range sm" "?a + ?n - 1 \<in> sm_range sm" using sub unfolding I by blast+
  then have top: "?a + ?n < 2 ^ 64" using inv n0 by (auto simp: sm_inv_def sm_range_def)
  have r: "unat (push_bit ?k run) = ?n" using top k by (intro unat_push_bit) auto
  have o: "unat (push_bit ?k off) = unat off * 2 ^ ?k" using top k by (intro unat_push_bit) auto
  have a: "unat (push_bit ?k off + ms) = ?a" using top o by (subst unat_end) auto
  have al': "sm_aligned sm (push_bit ?k off + ms)" "sm_aligned sm (push_bit ?k run)"
    using sm_aligned_push sm_aligned_add al by blast+
  have ne: "push_bit ?k run \<noteq> 0" using r n0 by (metis unat_0 less_irrefl)
  have lo: "sm_start sm \<le> push_bit ?k off + ms" using rng(1) a by (simp add: sm_range_def word_le_nat_alt)
  have hi: "unat (push_bit ?k off + ms) + unat (push_bit ?k run) \<le> unat (sm_start sm) + unat (sm_size sm)"
    using rng(2) a r n0 by (auto simp: sm_range_def)
  note D = sm_entry_decode [OF off t run]
  show ?thesis
  proof (cases "t = m")
    case True
    then have "{unat (push_bit ?k off + ms)..<unat (push_bit ?k off + ms) + unat (push_bit ?k run)} \<inter> sm_set sm = {}"
      using pre unfolding log_pre_def I a r by auto
    from space_map_add_Some [OF inv ne lo hi al' this, of zr] True D show ?thesis
      unfolding I a r by (auto simp: load_entry_def log_op_def)
  next
    case False
    then have "{unat (push_bit ?k off + ms)..<unat (push_bit ?k off + ms) + unat (push_bit ?k run)} \<subseteq> sm_set sm"
      using pre unfolding log_pre_def I a r by auto
    from space_map_remove_Some [OF inv ne al' this, of zr] False D show ?thesis
      unfolding I a r by (auto simp: load_entry_def log_op_def)
  qed
qed

lemma load_runs_ok:
  assumes "sm_inv sm" "unat (sm_shift sm) < 64" "t = SM_ALLOC \<or> t = SM_FREE" "sm_aligned sm ms"
    and "unat start + unat sz \<le> 2 ^ 47"
    and "units sm ms (unat start) (unat sz) \<subseteq> sm_range sm"
    and "log_pre t m (sm_set sm) (units sm ms (unat start) (unat sz))"
  shows "\<exists>sm'. foldM (load_entry zr m ms) sm (sync_runs t start sz) = Some sm' \<and> sm_inv sm' \<and>
    sm_frame sm sm' \<and> sm_set sm' = log_op t m (sm_set sm) (units sm ms (unat start) (unat sz))"
  using assms
proof (induction t start sz arbitrary: sm rule: sync_runs.induct)
  case (1 t start sz)
  show ?case
  proof (cases "sz = 0")
    case True
    with "1.prems" show ?thesis by (subst sync_runs.simps) (auto simp: units_def sm_frame_def)
  next
    case False
    define run where "run = min sz SM_RUN_MAX"
    have run: "run \<noteq> 0" "unat run \<le> 2 ^ 15" "run \<le> sz"
      using False by (auto simp: run_def SM_RUN_MAX_eq min_def word_le_nat_alt)
    have d: "unat (sz - run) = unat sz - unat run" using run(3) by (simp add: unat_sub)
    have le: "unat run \<le> unat sz" using run(3) by (simp add: word_le_nat_alt)
    have st: "unat (start + run) = unat start + unat run"
      using "1.prems"(5) le by (intro unat_end) simp
    have U: "units sm ms (unat start) (unat sz) =
        units sm ms (unat start) (unat run) \<union> units sm ms (unat (start + run)) (unat (sz - run))"
      "units sm ms (unat start) (unat run) \<inter> units sm ms (unat (start + run)) (unat (sz - run)) = {}"
      using units_Un [of sm ms "unat start" "unat run" "unat sz - unat run"] le by (simp_all add: st d)
    have P: "log_pre t m (sm_set sm) (units sm ms (unat start) (unat run))"
      "log_pre t m (log_op t m (sm_set sm) (units sm ms (unat start) (unat run))) (units sm ms (unat (start + run)) (unat (sz - run)))"
      using "1.prems"(7) unfolding U(1) log_pre_Un [OF U(2)] by auto
    have off: "unat start < 2 ^ 47" using "1.prems"(5) le run(1) unat_gt_0 [of run] by linarith
    obtain sm1 where E: "load_entry zr m ms sm (sm_entry t start run) = Some sm1" "sm_inv sm1" "sm_frame sm sm1"
      "sm_set sm1 = log_op t m (sm_set sm) (units sm ms (unat start) (unat run))"
      using load_entry_ok [OF "1.prems"(1-4) run(1,2) off _ P(1), of zr] "1.prems"(6) U(1) by blast
    note fr = sm_frame_sel [OF E(3)]
    have un: "units sm1 = units sm" by (simp add: units_def fun_eq_iff fr)
    have "\<exists>sm'. foldM (load_entry zr m ms) sm1 (sync_runs t (start + run) (sz - run)) = Some sm' \<and> sm_inv sm' \<and>
      sm_frame sm1 sm' \<and> sm_set sm' = log_op t m (sm_set sm1) (units sm1 ms (unat (start + run)) (unat (sz - run)))"
      using "1.IH" [OF False run_def E(2)] "1.prems"(2-6) P(2) E(4) fr U(1) le
      by (simp add: un st d)
    then obtain sm2 where F: "foldM (load_entry zr m ms) sm1 (sync_runs t (start + run) (sz - run)) = Some sm2"
      "sm_inv sm2" "sm_frame sm1 sm2"
      "sm_set sm2 = log_op t m (sm_set sm1) (units sm ms (unat (start + run)) (unat (sz - run)))"
      unfolding un by blast
    have eq: "sync_runs t start sz = sm_entry t start run # sync_runs t (start + run) (sz - run)"
      using False by (subst sync_runs.simps) (simp add: run_def sm_entry_def Let_def)
    show ?thesis
      using E(1) F sm_frame_trans [OF E(3) F(3)] unfolding eq U(1) E(4) log_op_Un by simp
  qed
qed

section \<open>The entries one sync writes\<close>

definition seg_entries :: "space_map \<Rightarrow> u64 \<Rightarrow> space_seg \<Rightarrow> u64 list" where
  "seg_entries sm t ss =
     sync_runs t (drop_bit (unat (sm_shift sm)) (ss_start ss - sm_start sm))
       (drop_bit (unat (sm_shift sm)) (ss_end ss - ss_start ss))"

definition same_geometry :: "space_map \<Rightarrow> space_map \<Rightarrow> bool" where
  "same_geometry a b \<longleftrightarrow> sm_start a = sm_start b \<and> sm_size a = sm_size b \<and> sm_shift a = sm_shift b"

definition sm_fits :: "space_map \<Rightarrow> bool" where
  \<comment> \<open>the shift is a shift, the start is on a unit, and a unit number fits the 47 bits of an entry\<close>
  "sm_fits sm \<longleftrightarrow> unat (sm_shift sm) < 64 \<and> sm_aligned sm (sm_start sm) \<and>
     unat (sm_size sm) \<le> 2 ^ 47 * 2 ^ unat (sm_shift sm)"

lemma same_geometry_sel:
  assumes "same_geometry a b"
  shows "sm_aligned a = sm_aligned b" "sm_range a = sm_range b" "seg_ok a = seg_ok b" "sm_fits a = sm_fits b"
    "units a = units b"
  using assms
  by (auto simp: same_geometry_def sm_aligned_def sm_unit_def sm_range_def seg_ok_def sm_fits_def units_def fun_eq_iff)

lemma sm_frame_geometry: "sm_frame a b \<Longrightarrow> same_geometry b a"
  by (simp add: same_geometry_def sm_frame_sel)

lemma sm_aligned_dvd:
  assumes "sm_aligned sm x"
  shows "2 ^ unat (sm_shift sm) dvd unat x"
proof -
  have "take_bit (unat (sm_shift sm)) x = 0"
    using assms by (simp add: sm_aligned_def sm_unit_def P2PHASE_exp)
  then have "take_bit (unat (sm_shift sm)) (unat x) = 0"
    by (metis unat_0 unsigned_take_bit_eq)
  then show ?thesis by (simp add: take_bit_eq_0_iff)
qed

lemma seg_units:
  assumes ok: "seg_ok sm s" and fit: "sm_fits sm"
  defines "k \<equiv> unat (sm_shift sm)"
  defines "a \<equiv> unat (drop_bit k (ss_start s - sm_start sm))" and "n \<equiv> unat (drop_bit k (ss_end s - ss_start s))"
  shows "units sm (sm_start sm) a n = seg_set s" "a + n \<le> 2 ^ 47"
proof -
  have s: "unat (ss_start s) < unat (ss_end s)" "seg_set s \<subseteq> sm_range sm"
    "sm_aligned sm (ss_start s - sm_start sm)" "sm_aligned sm (ss_end s - ss_start s)"
    using ok fit sm_aligned_diff by (auto simp: seg_ok_def sm_fits_def word_less_nat_alt)
  have lo: "unat (sm_start sm) \<le> unat (ss_start s)" "unat (ss_end s) \<le> unat (sm_start sm) + unat (sm_size sm)"
    using s(1,2) by (auto simp: seg_set_def sm_range_def)
  have d: "unat (ss_start s - sm_start sm) = unat (ss_start s) - unat (sm_start sm)"
    "unat (ss_end s - ss_start s) = unat (ss_end s) - unat (ss_start s)"
    using lo s(1) by (auto simp: unat_sub word_le_nat_alt)
  have a: "a * 2 ^ k = unat (ss_start s) - unat (sm_start sm)"
    and n: "n * 2 ^ k = unat (ss_end s) - unat (ss_start s)"
    using sm_aligned_dvd [OF s(3)] sm_aligned_dvd [OF s(4)]
    unfolding a_def n_def unat_drop_bit d k_def by (auto intro: dvd_div_mult_self)
  show "units sm (sm_start sm) a n = seg_set s"
    using lo s(1) by (simp add: units_def seg_set_def a n add_mult_distrib flip: k_def)
  have "(a + n) * 2 ^ k \<le> unat (sm_size sm)" using lo s(1) unfolding add_mult_distrib a n by linarith
  also have "\<dots> \<le> 2 ^ 47 * 2 ^ k" using fit by (simp add: sm_fits_def k_def)
  finally have "(a + n) * 2 ^ k \<le> 2 ^ 47 * 2 ^ k" .
  then show "a + n \<le> 2 ^ 47" by simp
qed

lemma load_segs_ok:
  assumes "sm_inv M" "same_geometry M sm" "sm_fits sm" "t = SM_ALLOC \<or> t = SM_FREE"
    and "\<forall>s\<in>set xs. seg_ok sm s" "distinct xs" "\<forall>a\<in>set xs. \<forall>b\<in>set xs. a \<noteq> b \<longrightarrow> seg_set a \<inter> seg_set b = {}"
    and "log_pre t m (sm_set M) (segs_set xs)"
  shows "\<exists>M'. foldM (load_entry zr m (sm_start sm)) M (concat (map (seg_entries sm t) xs)) = Some M' \<and>
    sm_inv M' \<and> sm_frame M M' \<and> sm_set M' = log_op t m (sm_set M) (segs_set xs)"
  using assms
proof (induction xs arbitrary: M)
  case Nil
  then show ?case by (simp add: segs_set_simps sm_frame_def)
next
  case (Cons s xs)
  have dj: "seg_set s \<inter> segs_set xs = {}" using Cons.prems(6,7) by (auto simp: segs_set_def)
  note pre = Cons.prems(8) [unfolded segs_set_simps log_pre_Un [OF dj]]
  have sok: "seg_ok sm s" using Cons.prems(5) by simp
  note U = seg_units [OF sok Cons.prems(3)]
  note G = same_geometry_sel [OF Cons.prems(2)]
  have sh: "sm_shift M = sm_shift sm" using Cons.prems(2) by (simp add: same_geometry_def)
  obtain M1 where M1: "foldM (load_entry zr m (sm_start sm)) M (seg_entries sm t s) = Some M1"
    "sm_inv M1" "sm_frame M M1" "sm_set M1 = log_op t m (sm_set M) (seg_set s)"
    using load_runs_ok [OF Cons.prems(1) _ Cons.prems(4), of "sm_start sm"
        "drop_bit (unat (sm_shift sm)) (ss_start s - sm_start sm)" "drop_bit (unat (sm_shift sm)) (ss_end s - ss_start s)" m zr]
      Cons.prems(3) pre sok U
    by (auto simp: seg_entries_def G sh sm_fits_def seg_ok_def)
  have g1: "same_geometry M1 sm"
    using sm_frame_geometry [OF M1(3)] Cons.prems(2) by (simp add: same_geometry_def)
  obtain M2 where "foldM (load_entry zr m (sm_start sm)) M1 (concat (map (seg_entries sm t) xs)) = Some M2"
    "sm_inv M2" "sm_frame M1 M2" "sm_set M2 = log_op t m (sm_set M1) (segs_set xs)"
    using Cons.IH [OF M1(2) g1 Cons.prems(3,4)] Cons.prems(5-7) pre M1(4) by auto
  with M1 sm_frame_trans [OF M1(3)] show ?case
    by (auto simp: foldM_append log_op_Un segs_set_simps)
qed

section \<open>What a sync appends to the object\<close>

definition appends :: "('os \<Rightarrow> u64 list) \<Rightarrow> ('os \<Rightarrow> u64 \<Rightarrow> u64 \<Rightarrow> u64 list \<Rightarrow> 'os) \<Rightarrow> u64 \<Rightarrow> bool" where
  \<comment> \<open>a write at the end of the object appends to its contents\<close>
  "appends content dmu_write obj \<longleftrightarrow>
     (\<forall>os data. content (dmu_write os obj (of_nat (8 * length (content os))) data) = content os @ data)"

definition smo_at :: "u64 \<Rightarrow> u64 list \<Rightarrow> space_map_obj \<Rightarrow> bool" where
  "smo_at obj c smo \<longleftrightarrow> smo_object smo = obj \<and> smo_objsize smo = of_nat (8 * length c)"

lemma sync_write_ok:
  assumes "appends content dmu_write obj" "smo_at obj (content (sy_os st)) (sy_smo st)"
  shows "smo_at obj (content (sy_os (sync_write dmu_write st))) (sy_smo (sync_write dmu_write st)) \<and>
    content (sy_os (sync_write dmu_write st)) = content (sy_os st) @ sy_buf st \<and>
    sy_buf (sync_write dmu_write st) = [] \<and>
    smo_alloc (sy_smo (sync_write dmu_write st)) = smo_alloc (sy_smo st)"
  using assms by (simp add: sync_write_def smo_at_def appends_def algebra_simps)

lemma sync_puts_ok:
  assumes D: "appends content dmu_write obj" and "smo_at obj (content (sy_os st)) (sy_smo st)"
  shows "let st' = foldl (sync_put dmu_write cap) st es in
    smo_at obj (content (sy_os st')) (sy_smo st') \<and>
    content (sy_os st') @ sy_buf st' = content (sy_os st) @ sy_buf st @ es \<and>
    smo_alloc (sy_smo st') = smo_alloc (sy_smo st)"
  using assms(2)
proof (induction es arbitrary: st)
  case (Cons e es)
  let ?st = "sync_put dmu_write cap st e"
  have "smo_at obj (content (sy_os ?st)) (sy_smo ?st)"
    and 2: "content (sy_os ?st) @ sy_buf ?st = content (sy_os st) @ sy_buf st @ [e]"
    "smo_alloc (sy_smo ?st) = smo_alloc (sy_smo st)"
    using sync_write_ok [OF D Cons.prems] Cons.prems by (auto simp: sync_put_def Let_def)
  from Cons.IH [OF this(1)] show ?case by (simp add: Let_def 2 flip: append_assoc)
qed simp

definition sync_step ::
  "('os \<Rightarrow> u64 \<Rightarrow> u64 \<Rightarrow> u64 list \<Rightarrow> 'os) \<Rightarrow> nat \<Rightarrow> space_map \<Rightarrow> u64 \<Rightarrow> space_seg \<Rightarrow> 'os sync_state \<times> u64 \<Rightarrow> 'os sync_state \<times> u64" where
  "sync_step dmu_write cap sm t ss = (\<lambda>(st, space).
     (foldl (sync_put dmu_write cap) st (seg_entries sm t ss), space - (ss_end ss - ss_start ss)))"

lemma sync_fold:
  "fold (sync_step dmu_write cap sm t) segs (st, space) =
     (foldl (sync_put dmu_write cap) st (concat (map (seg_entries sm t) segs)),
      space - (\<Sum>s\<leftarrow>segs. ss_end s - ss_start s))"
  by (induction segs arbitrary: st space) (auto simp: sync_step_def)

definition sync_debug :: "u64 \<Rightarrow> u64 \<Rightarrow> u64 \<Rightarrow> u64" where
  "sync_debug t syncpass txg = SM_DEBUG_ENCODE 1 OR SM_DEBUG_ACTION_ENCODE t OR
     SM_DEBUG_SYNCPASS_ENCODE syncpass OR SM_DEBUG_TXG_ENCODE txg"

lemma sync_debug_skipped: "load_entry zr m ms sm (sync_debug t syncpass txg) = Some sm"
proof -
  have "bit (SM_DEBUG_DECODE (sync_debug t syncpass txg)) 0"
    by (simp add: sync_debug_def SM_DEBUG_DECODE_def SM_DEBUG_ENCODE_def bit_BF64 bit_simps)
  then have "SM_DEBUG_DECODE (sync_debug t syncpass txg) \<noteq> 0" by (metis bit_0_eq bot_apply bot_bool_def)
  then show ?thesis by (simp add: load_entry_def)
qed

definition sync_entries :: "u64 \<Rightarrow> u64 \<Rightarrow> space_map \<Rightarrow> u64 \<Rightarrow> u64 list" where
  "sync_entries syncpass txg sm t =
     (if sm_space sm = 0 then []
      else sync_debug t syncpass txg # concat (map (seg_entries sm t) (avl_postorder (avl_root (sm_root sm)))))"

lemma space_map_sync_ok:
  assumes inv: "sm_inv sm" and D: "appends content dmu_write obj" and smo: "smo_at obj (content os) smo"
  shows "\<exists>sm' smo' os'. space_map_sync dmu_write syncpass txg sm t smo os = Some (sm', smo', os') \<and>
    sm_inv sm' \<and> sm_frame sm sm' \<and> sm_set sm' = {} \<and> smo_at obj (content os') smo' \<and>
    content os' = content os @ sync_entries syncpass txg sm t \<and>
    smo_alloc smo' = (if t = SM_ALLOC then smo_alloc smo + sm_space sm else smo_alloc smo - sm_space sm)"
proof (cases "sm_space sm = 0")
  case True
  then have "sm_set sm = {}" using inv by (auto simp: sm_inv_def sm_set_def)
  with True inv smo show ?thesis by (simp add: space_map_sync_def sync_entries_def sm_frame_def)
next
  case False
  define smo1 where "smo1 = smo\<lparr>smo_alloc := (if t = SM_ALLOC then smo_alloc smo + sm_space sm else smo_alloc smo - sm_space sm)\<rparr>"
  define cap where "cap = min (8 + avl_numnodes (sm_root sm)) (2 ^ SPACE_MAP_BLOCKSHIFT div 8)"
  let ?segs = "avl_postorder (avl_root (sm_root sm))"
  let ?st0 = "\<lparr>sy_os = os, sy_smo = smo1, sy_buf = [sync_debug t syncpass txg]\<rparr>"
  define st where "st = foldl (sync_put dmu_write cap) ?st0 (concat (map (seg_entries sm t) ?segs))"
  define st' where "st' = (if sy_buf st \<noteq> [] then sync_write dmu_write st else st)"
  obtain tr where tr: "avl_destroy_loop (avl_numnodes (sm_root sm) + 2) (sm_root sm) None = Some (?segs, tr)"
    and vac: "sm_inv (sm\<lparr>sm_root := tr, sm_space := 0\<rparr>)" "sm_set (sm\<lparr>sm_root := tr, sm_space := 0\<rparr>) = {}"
    using destroy_segs [OF inv] by blast
  have "smo_at obj (content (sy_os ?st0)) (sy_smo ?st0)" using smo by (simp add: smo_at_def smo1_def)
  from sync_puts_ok [OF D this, of cap "concat (map (seg_entries sm t) ?segs)"]
  have st: "smo_at obj (content (sy_os st)) (sy_smo st)"
    "content (sy_os st) @ sy_buf st = content os @ sync_debug t syncpass txg # concat (map (seg_entries sm t) ?segs)"
    "smo_alloc (sy_smo st) = smo_alloc smo1"
    by (simp_all add: Let_def flip: st_def)
  have st': "smo_at obj (content (sy_os st')) (sy_smo st')" "smo_alloc (sy_smo st') = smo_alloc smo1"
    "content (sy_os st') = content os @ sync_debug t syncpass txg # concat (map (seg_entries sm t) ?segs)"
    using sync_write_ok [OF D st(1)] st by (auto simp: st'_def)
  have f: "fold (sync_step dmu_write cap sm t) ?segs (?st0, sm_space sm) = (st, 0)"
    unfolding sync_fold postorder_space [OF inv] st_def by simp
  have "space_map_sync dmu_write syncpass txg sm t smo os = Some (sm\<lparr>sm_root := tr, sm_space := 0\<rparr>, sy_smo st', sy_os st')"
    using False f
    unfolding space_map_sync_def tr Let_def sync_debug_def [symmetric] smo1_def [symmetric] cap_def [symmetric]
      seg_entries_def [symmetric] sync_step_def [symmetric]
    by (simp add: st'_def)
  with vac st' False show ?thesis by (simp add: sync_entries_def smo1_def)
qed

section \<open>Replaying a history of syncs\<close>

definition sync_all ::
  "('os \<Rightarrow> u64 \<Rightarrow> u64 \<Rightarrow> u64 list \<Rightarrow> 'os) \<Rightarrow> u64 \<Rightarrow> u64 \<Rightarrow> (u64 \<times> space_map) list \<Rightarrow> space_map_obj \<times> 'os \<Rightarrow>
   (space_map_obj \<times> 'os) option" where
  "sync_all dmu_write syncpass txg hist so =
     foldM (\<lambda>(smo, os) (t, sm). map_option snd (space_map_sync dmu_write syncpass txg sm t smo os)) so hist"

fun hist_pre :: "u64 \<Rightarrow> nat set \<Rightarrow> (u64 \<times> space_map) list \<Rightarrow> bool" where
  "hist_pre m S [] = True"
| "hist_pre m S ((t, sm) # h) = (log_pre t m S (sm_set sm) \<and> hist_pre m (log_op t m S (sm_set sm)) h)"

definition hist_set :: "u64 \<Rightarrow> nat set \<Rightarrow> (u64 \<times> space_map) list \<Rightarrow> nat set" where
  "hist_set m S h = foldl (\<lambda>S (t, sm). log_op t m S (sm_set sm)) S h"

definition hist_maps :: "space_map \<Rightarrow> (u64 \<times> space_map) list \<Rightarrow> bool" where
  "hist_maps g h \<longleftrightarrow> (\<forall>(t, sm)\<in>set h. (t = SM_ALLOC \<or> t = SM_FREE) \<and> sm_inv sm \<and> same_geometry sm g)"

lemma sm_space_card: "sm_inv sm \<Longrightarrow> sm_space sm = of_nat (card (sm_set sm))"
  by (simp add: sm_inv_def flip: word_unat_eq_iff) (metis of_nat_unat ucast_id)

lemma finite_sm_set [simp]: "finite (sm_set sm)"
  by (simp add: sm_set_def)

lemma log_op_card:
  assumes "finite S" "finite I" "log_pre t m S I"
  shows "(of_nat (card (log_op t m S I)) :: u64) = (if t = m then of_nat (card S) + of_nat (card I) else of_nat (card S) - of_nat (card I))"
  using assms by (auto simp: log_pre_def log_op_def card_Un_disjoint card_Diff_subset card_mono of_nat_diff)

lemma sync_entries_replay:
  assumes "sm_inv sm" "sm_inv M" "same_geometry M sm" "sm_fits sm" "t = SM_ALLOC \<or> t = SM_FREE"
    and pre: "log_pre t m (sm_set M) (sm_set sm)"
  shows "\<exists>M'. foldM (load_entry zr m (sm_start sm)) M (sync_entries syncpass txg sm t) = Some M' \<and>
    sm_inv M' \<and> sm_frame M M' \<and> sm_set M' = log_op t m (sm_set M) (sm_set sm)"
proof (cases "sm_space sm = 0")
  case True
  then have "sm_set sm = {}" using assms(1) by (auto simp: sm_inv_def sm_set_def)
  with True assms(2) show ?thesis by (simp add: sync_entries_def sm_frame_def)
next
  case False
  let ?segs = "avl_postorder (avl_root (sm_root sm))"
  have set: "set ?segs = set (sm_segs sm)" by (rule set_postorder)
  then have ss: "segs_set ?segs = sm_set sm" by (simp add: segs_set_def sm_set_def)
  have ok: "segs_ok sm (sm_segs sm)" using assms(1) by (simp add: sm_inv_def)
  have d: "distinct ?segs" using segs_disjoint [OF ok] mset_postorder [of "avl_root (sm_root sm)"] mset_eq_imp_distinct_iff by blast
  from load_segs_ok [OF assms(2-5) _ d, of m zr] show ?thesis
    using ok segs_disjoint [OF ok] pre False unfolding set ss
    by (simp add: sync_entries_def sync_debug_skipped segs_ok_def)
qed

definition hist_entries :: "u64 \<Rightarrow> u64 \<Rightarrow> (u64 \<times> space_map) list \<Rightarrow> u64 list" where
  "hist_entries syncpass txg hist = concat (map (\<lambda>(t, sm). sync_entries syncpass txg sm t) hist)"

lemma sync_all_replay:
  assumes "hist_maps g hist" "sm_fits g" "appends content dmu_write obj" "smo_at obj (content os) smo"
    and "sm_inv M" "same_geometry M g" "hist_pre m (sm_set M) hist" "m = SM_ALLOC \<or> m = SM_FREE"
  shows "\<exists>smo' os' M'. sync_all dmu_write syncpass txg hist (smo, os) = Some (smo', os') \<and>
    smo_at obj (content os') smo' \<and> content os' = content os @ hist_entries syncpass txg hist \<and>
    foldM (load_entry zr m (sm_start g)) M (hist_entries syncpass txg hist) = Some M' \<and> sm_inv M' \<and> sm_frame M M' \<and>
    sm_set M' = hist_set m (sm_set M) hist \<and>
    smo_alloc smo' = smo_alloc smo + (if m = SM_ALLOC then sm_space M' - sm_space M else sm_space M - sm_space M')"
  using assms
proof (induction hist arbitrary: smo os M)
  case Nil
  then show ?case by (auto simp: sync_all_def hist_set_def sm_frame_def hist_entries_def)
next
  case (Cons h hist)
  obtain t sm where h: "h = (t, sm)" by (cases h)
  have sm: "t = SM_ALLOC \<or> t = SM_FREE" "sm_inv sm" "same_geometry sm g" using Cons.prems(1) h by (auto simp: hist_maps_def)
  have geo: "same_geometry M sm" "sm_fits sm" "sm_start sm = sm_start g"
    using sm(3) Cons.prems(2,6) same_geometry_sel(4) [OF sm(3)] by (auto simp: same_geometry_def)
  have pre: "log_pre t m (sm_set M) (sm_set sm)" using Cons.prems(7) h by simp
  obtain sm' smo1 os1 where S: "space_map_sync dmu_write syncpass txg sm t smo os = Some (sm', smo1, os1)"
    "smo_at obj (content os1) smo1" "content os1 = content os @ sync_entries syncpass txg sm t"
    "smo_alloc smo1 = (if t = SM_ALLOC then smo_alloc smo + sm_space sm else smo_alloc smo - sm_space sm)"
    using space_map_sync_ok [OF sm(2) Cons.prems(3,4)] by blast
  obtain M1 where M1: "foldM (load_entry zr m (sm_start g)) M (sync_entries syncpass txg sm t) = Some M1"
    "sm_inv M1" "sm_frame M M1" "sm_set M1 = log_op t m (sm_set M) (sm_set sm)"
    using sync_entries_replay [OF sm(2) Cons.prems(5) geo(1,2) sm(1) pre] geo(3) by metis
  have sp: "sm_space M1 = (if t = m then sm_space M + sm_space sm else sm_space M - sm_space sm)"
    using log_op_card [OF _ _ pre] by (simp add: sm_space_card sm(2) Cons.prems(5) M1(2,4))
  have g1: "same_geometry M1 g" using sm_frame_geometry [OF M1(3)] Cons.prems(6) by (simp add: same_geometry_def)
  obtain smo2 os2 M2 where I: "sync_all dmu_write syncpass txg hist (smo1, os1) = Some (smo2, os2)"
    "smo_at obj (content os2) smo2" "content os2 = content os1 @ hist_entries syncpass txg hist"
    "foldM (load_entry zr m (sm_start g)) M1 (hist_entries syncpass txg hist) = Some M2" "sm_inv M2" "sm_frame M1 M2"
    "sm_set M2 = hist_set m (sm_set M1) hist"
    "smo_alloc smo2 = smo_alloc smo1 + (if m = SM_ALLOC then sm_space M2 - sm_space M1 else sm_space M1 - sm_space M2)"
    using Cons.IH [OF _ Cons.prems(2,3) S(2) M1(2) g1 _ Cons.prems(8)] Cons.prems(1,7) h M1(4)
    by (auto simp: hist_maps_def)
  have "smo_alloc smo2 = smo_alloc smo + (if m = SM_ALLOC then sm_space M2 - sm_space M else sm_space M - sm_space M2)"
    using sm(1) Cons.prems(8) by (auto simp: I(8) S(4) sp SM_ALLOC_def SM_FREE_def)
  moreover have "sm_set M2 = hist_set m (sm_set M) (h # hist)" by (simp add: I(7) M1(4) h hist_set_def)
  ultimately show ?case
    using S(1,3) I M1 sm_frame_trans [OF M1(3) I(6)]
    by (auto simp: sync_all_def h foldM_append hist_entries_def)
qed

section \<open>Loading reads the whole log\<close>

definition reads :: "u64 list \<Rightarrow> (u64 \<Rightarrow> u64 \<Rightarrow> int + u64 list) \<Rightarrow> bool" where
  \<comment> \<open>a read of whole words inside the object returns them\<close>
  "reads c rd \<longleftrightarrow> (\<forall>i n. i + n \<le> length c \<longrightarrow> rd (of_nat (8 * i)) (of_nat (8 * n)) = Inr (take n (drop i c)))"

lemma load_loop_ok:
  assumes R: "reads c rd" and L: "8 * length c + 4096 < 2 ^ 64"
    and "i \<le> length c + 512" "(length c - i + 511) div 512 < fuel"
  shows "load_loop fuel rd zr m ms (of_nat (8 * length c)) (of_nat (8 * i)) sm =
    map_option (Pair 0) (foldM (load_entry zr m ms) sm (drop i c))"
  using assms(3,4)
proof (induction fuel arbitrary: i sm)
  case (Suc fuel)
  have u: "unat (of_nat (8 * i) :: u64) = 8 * i" if "i \<le> length c" for i
    using L that by (simp add: unat_of_nat del: of_nat_mult)
  show ?case
  proof (cases "i < length c")
    case True
    define n where "n = min (length c - i) 512"
    have lt: "(of_nat (8 * i) :: u64) < of_nat (8 * length c)"
      using True by (simp add: word_less_nat_alt u del: of_nat_mult)
    have "(of_nat (8 * length c) - of_nat (8 * i) :: u64) = of_nat (8 * (length c - i))"
      using True by (simp add: of_nat_diff algebra_simps)
    moreover have "unat (of_nat (8 * (length c - i)) :: u64) = 8 * (length c - i)"
      by (rule u) simp
    ultimately have sz: "min (of_nat (8 * length c) - of_nat (8 * i)) (push_bit SPACE_MAP_BLOCKSHIFT 1) = (of_nat (8 * n) :: u64)"
      by (auto simp: n_def min_def SPACE_MAP_BLOCKSHIFT_def word_le_nat_alt simp del: of_nat_mult)
    have n: "i + n \<le> length c" "0 < n" using True by (auto simp: n_def)
    have un: "unat (of_nat (8 * n) :: u64) = 8 * n" using n by (intro u) simp
    have "P2PHASE (of_nat (8 * n)) 8 = 0"
    proof -
      have "P2PHASE (of_nat (8 * n)) (2 ^ 3) = take_bit 3 (of_nat (8 * n))" by (rule P2PHASE_exp)
      also have "\<dots> = 0" by (simp add: take_bit_eq_mod word_arith_nat_mod un del: of_nat_mult)
      finally show ?thesis by simp
    qed
    moreover have "of_nat (8 * n) \<noteq> (0 :: u64)" using un n(2) by (metis nat_0_less_mult_iff less_irrefl unat_0 zero_less_numeral)
    moreover have "rd (of_nat (8 * i)) (of_nat (8 * n)) = Inr (take n (drop i c))" using R n(1) by (simp add: reads_def)
    ultimately have step: "load_loop (Suc fuel) rd zr m ms (of_nat (8 * length c)) (of_nat (8 * i)) sm =
        foldM (load_entry zr m ms) sm (take n (drop i c)) \<bind>
          load_loop fuel rd zr m ms (of_nat (8 * length c)) (of_nat (8 * i) + push_bit SPACE_MAP_BLOCKSHIFT 1)"
      using lt unfolding load_loop.simps Let_def sz by (simp del: of_nat_mult)
    have next_off: "of_nat (8 * i) + push_bit SPACE_MAP_BLOCKSHIFT 1 = (of_nat (8 * (i + 512)) :: u64)"
      by (simp add: SPACE_MAP_BLOCKSHIFT_def)
    have fuel: "(length c - (i + 512) + 511) div 512 < fuel"
    proof -
      obtain d where d: "length c = i + d + 1" using True less_imp_Suc_add by fastforce
      have "d div 512 < fuel" using Suc.prems(2) by (simp add: d)
      moreover have "(length c - (i + 512) + 511) div 512 \<le> d div 512" by (cases "d < 511") (auto simp: d)
      ultimately show ?thesis by simp
    qed
    have IH: "load_loop fuel rd zr m ms (of_nat (8 * length c)) (of_nat (8 * (i + 512))) s =
        map_option (Pair 0) (foldM (load_entry zr m ms) s (drop (i + 512) c))" for s
      using True fuel by (intro Suc.IH) auto
    have dr: "drop i c = take n (drop i c) @ drop (i + 512) c"
      by (simp add: n_def min_def add.commute) (metis append_take_drop_id drop_drop add.commute)
    show ?thesis unfolding step next_off IH
      by (subst (2) dr) (auto simp: foldM_append split: bind_splits)
  next
    case False
    then have "\<not> (of_nat (8 * i) :: u64) < of_nat (8 * length c)"
      using L Suc.prems(1) by (simp add: word_less_nat_alt unat_of_nat del: of_nat_mult)
    with False show ?thesis by (simp del: of_nat_mult)
  qed
qed simp

lemma space_map_load_ok:
  assumes inv: "sm_inv sm" and e: "sm_set sm = {}" and st: "\<not> sm_loaded sm" "\<not> sm_loading sm" and fit: "sm_fits sm"
    and sz: "sm_size sm \<noteq> 0" "sm_aligned sm (sm_size sm)"
    and R: "reads c (dmu_read (smo_object smo))" "smo_objsize smo = of_nat (8 * length c)" "8 * length c + 4096 < 2 ^ 64"
    and M: "\<And>M. sm_inv M \<Longrightarrow> sm_frame (sm\<lparr>sm_loading := True\<rparr>) M \<Longrightarrow> sm_set M = (if m = SM_FREE then sm_range sm else {}) \<Longrightarrow>
      \<exists>M'. foldM (load_entry zr m (sm_start sm)) M c = Some M' \<and> sm_inv M' \<and> sm_frame M M' \<and> sm_set M' = S \<and>
        sm_space M' = (if m = SM_FREE then sm_size sm - smo_alloc smo else smo_alloc smo)"
  shows "\<exists>sm4. space_map_load dmu_read vec zr sm ops m smo =
      Some (0, (case ops of None \<Rightarrow> sm4 | Some v \<Rightarrow> smop_load (vec v) sm4)\<lparr>sm_loading := False\<rparr>) \<and>
    sm_inv sm4 \<and> sm_loaded sm4 \<and> sm_ops sm4 = ops \<and> same_geometry sm4 sm \<and> sm_set sm4 = S"
proof -
  let ?sm1 = "sm\<lparr>sm_loading := True\<rparr>"
  have inv1: "sm_inv ?sm1" "sm_set ?sm1 = {}" using inv e
    by (simp_all add: sm_inv_def sm_set_def segs_ok_def seg_ok_def sm_range_def sm_aligned_def sm_unit_def)
  have sp0: "sm_space sm = 0" using sm_space_card [OF inv] e by simp
  obtain M0 where M0: "(if m = SM_FREE then do { s \<leftarrow> space_map_add zr ?sm1 (sm_start ?sm1) (sm_size ?sm1);
            Some (s, sm_size ?sm1 - smo_alloc smo) } else Some (?sm1, smo_alloc smo)) =
          Some (M0, if m = SM_FREE then sm_size sm - smo_alloc smo else smo_alloc smo)"
    "sm_inv M0" "sm_frame ?sm1 M0" "sm_set M0 = (if m = SM_FREE then sm_range sm else {})"
  proof (cases "m = SM_FREE")
    case True
    have "sm_aligned ?sm1 (sm_start ?sm1)" "sm_aligned ?sm1 (sm_size ?sm1)"
      using fit sz by (simp_all add: sm_fits_def sm_aligned_def sm_unit_def)
    from space_map_add_Some [OF inv1(1) _ _ _ this, of zr] True inv1(2) sz(1) that show ?thesis
      by (auto simp: sm_range_def)
  next
    case False
    with that [of ?sm1] inv1 show ?thesis by (simp add: sm_frame_def)
  qed
  obtain M3 where M3: "foldM (load_entry zr m (sm_start sm)) M0 c = Some M3" "sm_inv M3" "sm_frame M0 M3" "sm_set M3 = S"
    "sm_space M3 = (if m = SM_FREE then sm_size sm - smo_alloc smo else smo_alloc smo)"
    using M [OF M0(2-4)] by blast
  have fuel: "unat (of_nat (8 * length c) :: u64) div 2 ^ SPACE_MAP_BLOCKSHIFT = length c div 512"
    using R(3) by (simp add: SPACE_MAP_BLOCKSHIFT_def unat_of_nat del: of_nat_mult)
  have loop: "load_loop (unat (smo_objsize smo) div 2 ^ SPACE_MAP_BLOCKSHIFT + 2) (dmu_read (smo_object smo)) zr m
      (sm_start sm) (smo_objsize smo) 0 M0 = Some (0, M3)"
    using load_loop_ok [OF R(1,3), of 0 "length c div 512 + 2" zr m "sm_start sm" M0] M3(1)
    unfolding R(2) fuel by simp
  have g: "same_geometry M3 sm" "sm_loading M3"
    using sm_frame_sel [OF sm_frame_trans [OF M0(3) M3(3)]] by (simp_all add: same_geometry_def)
  let ?sm4 = "M3\<lparr>sm_loaded := True, sm_ops := ops\<rparr>"
  have "space_map_load dmu_read vec zr sm ops m smo =
      Some (0, (case ops of None \<Rightarrow> ?sm4 | Some v \<Rightarrow> smop_load (vec v) ?sm4)\<lparr>sm_loading := False\<rparr>)"
    unfolding space_map_load_def Let_def M0(1) using st sp0 loop M3(5)
    by (simp add: space_map_load_wait_def split: option.split)
  moreover have "sm_inv ?sm4" "sm_set ?sm4 = S" using M3(2,4)
    by (simp_all add: sm_inv_def sm_set_def segs_ok_def seg_ok_def sm_range_def sm_aligned_def sm_unit_def)
  ultimately show ?thesis using g by (intro exI [of _ ?sm4]) (simp add: same_geometry_def)
qed

section \<open>Properties\<close>


lemma demo_entries: "length (sync_entries syncpass txg demo_map t) = 2"
proof -
  have "sync_runs t 1 2 = [sm_entry t 1 2]"
    by (subst sync_runs.simps, subst sync_runs.simps) (simp add: SM_RUN_MAX_eq sm_entry_def Let_def)
  then have "seg_entries demo_map t \<lparr>ss_start = 512, ss_end = 1536\<rparr> = [sm_entry t 1 2]"
    by (simp add: seg_entries_def demo_map_def space_map_create_def drop_bit_eq_div)
  then show ?thesis by (simp add: sync_entries_def) (simp add: demo_map_def)
qed


end
