(* ===== verification/Metaslab_FF.thy ===== *)
theory Metaslab_FF
  imports Space_Map_Disk
begin

text \<open>
  The first-fit block picker of \<^verbatim>\<open>src/lib/libzpool/metaslab.c\<close> and the contract between a
  block picker and the space map operations that call it: the locale \<open>block_picker\<close> states what
  \<^verbatim>\<open>space_map_alloc()\<close>, \<^verbatim>\<open>space_map_claim()\<close> and \<^verbatim>\<open>space_map_free()\<close> rely on, and the first-fit
  picker is shown to meet it. The picker's private data are 64 cursors, one per alignment.
\<close>

section \<open>The first-fit allocator\<close>

definition metaslab_ff_load :: "space_map \<Rightarrow> space_map" where
  "metaslab_ff_load sm = sm\<lparr>sm_ppd := Some (replicate 64 0)\<rparr>"

definition metaslab_ff_unload :: "space_map \<Rightarrow> space_map" where
  "metaslab_ff_unload sm = sm\<lparr>sm_ppd := None\<rparr>"

fun ff_scan :: "u64 \<Rightarrow> u64 \<Rightarrow> space_seg list \<Rightarrow> u64 option" where
  "ff_scan align sz [] = None"
| "ff_scan align sz (ss # segs) =
     (let offset = P2ROUNDUP (ss_start ss) align in
      if offset + sz \<le> ss_end ss then Some offset else ff_scan align sz segs)"

definition ff_from :: "space_map \<Rightarrow> u64 \<Rightarrow> u64 \<Rightarrow> space_seg list" where
  \<comment> \<open>the segments that the loop visits, from the cursor on\<close>
  "ff_from sm cursor sz =
     avl_list_from (case avl_find (sm_root sm) \<lparr>ss_start = cursor, ss_end = cursor + sz\<rparr> of
         Inl pos \<Rightarrow> Some pos
       | Inr where \<Rightarrow> avl_nearest (sm_root sm) where True)"

function metaslab_ff_alloc :: "space_map \<Rightarrow> u64 \<Rightarrow> (u64 \<times> space_map) option" where
  \<comment> \<open>None: there are no cursors, or the index of the cursor is out of range\<close>
  "metaslab_ff_alloc sm sz =
     (let align = sz AND - sz; idx = highbit align - 1 in
      case sm_ppd sm of
        None \<Rightarrow> None
      | Some cursors \<Rightarrow>
          if highbit align = 0 \<or> length cursors \<le> idx then None
          else case ff_scan align sz (ff_from sm (cursors ! idx) sz) of
              Some offset \<Rightarrow> Some (offset, sm\<lparr>sm_ppd := Some (cursors[idx := offset + sz])\<rparr>)
            | None \<Rightarrow>
                if cursors ! idx = 0 then Some (- 1, sm)
                else metaslab_ff_alloc (sm\<lparr>sm_ppd := Some (cursors[idx := 0])\<rparr>) sz)"
  by pat_completeness auto
termination
  by (relation "measure (\<lambda>(sm, sz). case sm_ppd sm of None \<Rightarrow> 0
      | Some cs \<Rightarrow> if cs ! (highbit (sz AND - sz) - 1) = 0 then 0 else 1)")
    (auto simp: Let_def)

declare metaslab_ff_alloc.simps [simp del]

definition metaslab_ff_claim :: "space_map \<Rightarrow> u64 \<Rightarrow> u64 \<Rightarrow> space_map" where
  "metaslab_ff_claim sm start sz = sm"

definition metaslab_ff_free :: "space_map \<Rightarrow> u64 \<Rightarrow> u64 \<Rightarrow> space_map" where
  "metaslab_ff_free sm start sz = sm"

definition ff_ops :: smop_vec where
  "ff_ops = \<lparr>smop_load = metaslab_ff_load, smop_unload = metaslab_ff_unload, smop_alloc = metaslab_ff_alloc,
     smop_claim = metaslab_ff_claim, smop_free = metaslab_ff_free\<rparr>"

section \<open>The contract of a block picker\<close>

definition request_ok :: "space_map \<Rightarrow> u64 \<Rightarrow> bool" where
  \<comment> \<open>a whole number of units, and the end of a request near the end of the map does not wrap\<close>
  "request_ok sm sz \<longleftrightarrow> sz \<noteq> 0 \<and> sm_aligned sm sz \<and>
     unat (sm_start sm) + unat (sm_size sm) + 2 * unat sz \<le> 2 ^ 64"

definition fits :: "space_map \<Rightarrow> u64 \<Rightarrow> nat \<Rightarrow> bool" where
  \<comment> \<open>a place for a block: free, and aligned to the largest power of two that divides its size\<close>
  "fits sm sz a \<longleftrightarrow> unat (sz AND - sz) dvd a \<and> {a..<a + unat sz} \<subseteq> sm_set sm"

definition only_ppd :: "space_map \<Rightarrow> space_map \<Rightarrow> bool" where
  "only_ppd sm sm' \<longleftrightarrow> sm' = sm\<lparr>sm_ppd := sm_ppd sm'\<rparr>"

lemma only_ppd_sel:
  assumes "only_ppd sm sm'"
  shows "sm_root sm' = sm_root sm" "sm_space sm' = sm_space sm" "sm_start sm' = sm_start sm" "sm_size sm' = sm_size sm"
    "sm_shift sm' = sm_shift sm" "sm_loaded sm' = sm_loaded sm" "sm_loading sm' = sm_loading sm" "sm_ops sm' = sm_ops sm"
    "sm_inv sm' = sm_inv sm" "sm_set sm' = sm_set sm" "sm_aligned sm' = sm_aligned sm" "sm_range sm' = sm_range sm"
    "request_ok sm' = request_ok sm" "fits sm' = fits sm"
  using assms
  by (cases sm; cases sm'; auto simp: only_ppd_def sm_inv_def sm_set_def segs_ok_def seg_ok_def sm_range_def
      sm_aligned_def sm_unit_def request_ok_def fits_def fun_eq_iff)+

locale block_picker =
  fixes ops :: smop_vec and ready :: "space_map \<Rightarrow> bool"
  assumes load_ready: "only_ppd sm (smop_load ops sm) \<and> ready (smop_load ops sm)"
    and unload_only: "only_ppd sm (smop_unload ops sm)"
    and alloc_sound: "sm_inv sm \<Longrightarrow> ready sm \<Longrightarrow> request_ok sm sz \<Longrightarrow>
      \<exists>start sm'. smop_alloc ops sm sz = Some (start, sm') \<and> only_ppd sm sm' \<and> ready sm' \<and>
        (start \<noteq> - 1 \<longrightarrow> fits sm sz (unat start))"
    and claim_only: "ready sm \<Longrightarrow> only_ppd sm (smop_claim ops sm start sz) \<and> ready (smop_claim ops sm start sz)"
    and free_only: "ready sm \<Longrightarrow> only_ppd sm (smop_free ops sm start sz) \<and> ready (smop_free ops sm start sz)"
    and ready_frame: "ready sm \<Longrightarrow> sm_frame sm sm' \<Longrightarrow> ready sm'"
begin

lemma fits_aligned:
  assumes "request_ok sm sz" "fits sm sz (unat start)"
  shows "sm_aligned sm start"
proof -
  obtain e where e: "sz AND - sz = 2 ^ e" "e < 64" "\<forall>k. 2 ^ k dvd unat sz \<longrightarrow> k \<le> e"
    using lowbit [of sz] assms(1) by (auto simp: request_ok_def)
  have "2 ^ unat (sm_shift sm) dvd unat sz" using assms(1) sm_aligned_dvd by (auto simp: request_ok_def)
  then have k: "unat (sm_shift sm) \<le> e" using e(3) by blast
  have "unat (2 ^ e :: u64) = 2 ^ e" using unat_push_bit [of 1 e] e(2) power_strict_increasing [of e 64 "2::nat"] by simp
  then have "2 ^ e dvd unat start" using assms(2) e(1) by (simp add: fits_def)
  then have "2 ^ unat (sm_shift sm) dvd unat start" using k by (meson dvd_trans le_imp_power_dvd)
  then show ?thesis by (simp add: sm_aligned_def sm_unit_def P2PHASE_exp take_bit_0_dvd)
qed

lemma space_map_alloc_ok:
  assumes "sm_inv sm" "ready sm" "request_ok sm sz" "sm_ops sm = Some v" "vec v = ops"
  shows "\<exists>start sm'. space_map_alloc vec zr sm sz = Some (start, sm') \<and> sm_inv sm' \<and> ready sm' \<and>
    sm_frame (sm\<lparr>sm_ppd := sm_ppd sm'\<rparr>) sm' \<and>
    sm_set sm' = (if start = - 1 then sm_set sm else sm_set sm - {unat start..<unat start + unat sz}) \<and>
    (start \<noteq> - 1 \<longrightarrow> fits sm sz (unat start))"
proof -
  obtain start sm1 where A: "smop_alloc ops sm sz = Some (start, sm1)" "only_ppd sm sm1" "ready sm1"
    "start \<noteq> - 1 \<longrightarrow> fits sm sz (unat start)"
    using alloc_sound [OF assms(1-3)] by blast
  note sel = only_ppd_sel [OF A(2)]
  show ?thesis
  proof (cases "start = - 1")
    case True
    then show ?thesis using A assms sel by (simp add: space_map_alloc_def sm_frame_def only_ppd_def)
  next
    case False
    then have f: "fits sm sz (unat start)" using A(4) by simp
    have "sm_aligned sm1 start" "sm_aligned sm1 sz" "sz \<noteq> 0" "sm_inv sm1"
      "{unat start..<unat start + unat sz} \<subseteq> sm_set sm1"
      using fits_aligned [OF assms(3) f] assms(1,3) f by (auto simp: sel request_ok_def fits_def)
    from space_map_remove_Some [OF this(4,3,1,2,5), of zr] obtain t where
      R: "space_map_remove zr sm1 start sz = Some (sm1\<lparr>sm_root := t, sm_space := sm_space sm1 - sz\<rparr>)"
      "sm_inv (sm1\<lparr>sm_root := t, sm_space := sm_space sm1 - sz\<rparr>)"
      "sm_set (sm1\<lparr>sm_root := t, sm_space := sm_space sm1 - sz\<rparr>) = sm_set sm1 - {unat start..<unat start + unat sz}"
      by blast
    let ?sm2 = "sm1\<lparr>sm_root := t, sm_space := sm_space sm1 - sz\<rparr>"
    have "sm_frame (sm\<lparr>sm_ppd := sm_ppd ?sm2\<rparr>) ?sm2" using A(2) by (cases sm; cases sm1) (simp add: only_ppd_def sm_frame_def)
    moreover have "ready ?sm2" using ready_frame [OF A(3)] by simp
    ultimately show ?thesis using R A False assms f sel(10) by (simp add: space_map_alloc_def)
  qed
qed

lemma space_map_claim_ok:
  assumes "sm_inv sm" "ready sm" "sz \<noteq> 0" "sm_aligned sm start" "sm_aligned sm sz"
    and "{unat start..<unat start + unat sz} \<subseteq> sm_set sm" "sm_ops sm = Some v" "vec v = ops"
  shows "\<exists>sm'. space_map_claim vec zr sm start sz = Some sm' \<and> sm_inv sm' \<and> ready sm' \<and>
    sm_frame (sm\<lparr>sm_ppd := sm_ppd sm'\<rparr>) sm' \<and> sm_set sm' = sm_set sm - {unat start..<unat start + unat sz}"
proof -
  let ?sm1 = "smop_claim ops sm start sz"
  have o: "only_ppd sm ?sm1" "ready ?sm1" using claim_only [OF assms(2)] by auto
  note sel = only_ppd_sel [OF o(1)]
  obtain t where R: "space_map_remove zr ?sm1 start sz = Some (?sm1\<lparr>sm_root := t, sm_space := sm_space ?sm1 - sz\<rparr>)"
      "sm_inv (?sm1\<lparr>sm_root := t, sm_space := sm_space ?sm1 - sz\<rparr>)"
      "sm_set (?sm1\<lparr>sm_root := t, sm_space := sm_space ?sm1 - sz\<rparr>) = sm_set ?sm1 - {unat start..<unat start + unat sz}"
    using space_map_remove_Some [of ?sm1 sz start zr] assms sel by auto
  let ?sm2 = "?sm1\<lparr>sm_root := t, sm_space := sm_space ?sm1 - sz\<rparr>"
  have "sm_frame (sm\<lparr>sm_ppd := sm_ppd ?sm2\<rparr>) ?sm2" using o(1) by (cases sm; cases ?sm1) (simp add: only_ppd_def sm_frame_def)
  moreover have "ready ?sm2" using ready_frame [OF o(2)] by simp
  ultimately show ?thesis using R assms sel(10) by (simp add: space_map_claim_def)
qed

lemma space_map_free_ok:
  assumes "sm_inv sm" "ready sm" "sz \<noteq> 0" "sm_start sm \<le> start"
    and "unat start + unat sz \<le> unat (sm_start sm) + unat (sm_size sm)" "sm_aligned sm start" "sm_aligned sm sz"
    and "{unat start..<unat start + unat sz} \<inter> sm_set sm = {}" "sm_ops sm = Some v" "vec v = ops"
  shows "\<exists>sm'. space_map_free vec zr sm start sz = Some sm' \<and> sm_inv sm' \<and> ready sm' \<and>
    sm_frame (sm\<lparr>sm_ppd := sm_ppd sm'\<rparr>) sm' \<and> sm_set sm' = sm_set sm \<union> {unat start..<unat start + unat sz}"
proof -
  obtain t where R: "space_map_add zr sm start sz = Some (sm\<lparr>sm_root := t, sm_space := sm_space sm + sz\<rparr>)"
      "sm_inv (sm\<lparr>sm_root := t, sm_space := sm_space sm + sz\<rparr>)"
      "sm_set (sm\<lparr>sm_root := t, sm_space := sm_space sm + sz\<rparr>) = sm_set sm \<union> {unat start..<unat start + unat sz}"
    using space_map_add_Some [OF assms(1,3-8), of zr] by blast
  let ?sm1 = "sm\<lparr>sm_root := t, sm_space := sm_space sm + sz\<rparr>"
  have "ready ?sm1" using ready_frame [OF assms(2)] by simp
  then have o: "only_ppd ?sm1 (smop_free ops ?sm1 start sz)" "ready (smop_free ops ?sm1 start sz)"
    using free_only by auto
  note sel = only_ppd_sel [OF o(1)]
  have "sm_frame (sm\<lparr>sm_ppd := sm_ppd (smop_free ops ?sm1 start sz)\<rparr>) (smop_free ops ?sm1 start sz)"
    using o(1) by (cases sm; cases "smop_free ops ?sm1 start sz") (simp add: only_ppd_def sm_frame_def)
  then show ?thesis using R assms(9,10) o(2) sel(9,10) by (simp add: space_map_free_def)
qed

end

section \<open>First fit is sound and complete\<close>

definition ff_ready :: "space_map \<Rightarrow> bool" where
  \<comment> \<open>there is a cursor per alignment, none of them beyond the end of the map\<close>
  "ff_ready sm \<longleftrightarrow> (\<exists>cursors. sm_ppd sm = Some cursors \<and> length cursors = 64 \<and>
     (\<forall>c\<in>set cursors. unat c \<le> unat (sm_start sm) + unat (sm_size sm)))"

definition seg_fits :: "nat \<Rightarrow> u64 \<Rightarrow> space_seg \<Rightarrow> nat \<Rightarrow> bool" where
  "seg_fits e sz s a \<longleftrightarrow> 2 ^ e dvd a \<and> {a..<a + unat sz} \<subseteq> seg_set s"

lemma seg_end_le: "seg_ok sm s \<Longrightarrow> unat (ss_end s) \<le> unat (sm_start sm) + unat (sm_size sm)"
  by (auto simp: seg_ok_def seg_set_def sm_range_def word_less_nat_alt)

lemma ff_scan_seg:
  assumes s: "seg_ok sm s" and r: "request_ok sm sz" and e: "2 ^ e \<le> unat sz"
  defines "a \<equiv> P2ROUNDUP (ss_start s) (2 ^ e)"
  shows "a + sz \<le> ss_end s \<Longrightarrow> seg_fits e sz s (unat a) \<and> unat a + unat sz \<le> unat (ss_end s) \<and> unat (a + sz) = unat a + unat sz"
    and "seg_fits e sz s b \<Longrightarrow> a + sz \<le> ss_end s"
proof -
  have lt: "unat (ss_start s) < unat (ss_end s)" using s by (simp add: seg_ok_def word_less_nat_alt)
  have sz0: "0 < unat sz" using r unat_gt_0 by (auto simp: request_ok_def)
  have top: "unat (ss_start s) + 2 * unat sz < 2 ^ 64" using seg_end_le [OF s] lt r by (simp add: request_ok_def)
  then have "unat (ss_start s) + 2 ^ e \<le> 2 ^ 64" using e by linarith
  note R = P2ROUNDUP_unat [OF this, folded a_def]
  have u: "unat (a + sz) = unat a + unat sz" using R(3) top e by (intro unat_end) linarith
  show "seg_fits e sz s (unat a) \<and> unat a + unat sz \<le> unat (ss_end s) \<and> unat (a + sz) = unat a + unat sz" if "a + sz \<le> ss_end s"
    using that R(1,2) u by (auto simp: seg_fits_def seg_set_def word_le_nat_alt)
  show "a + sz \<le> ss_end s" if b: "seg_fits e sz s b"
  proof -
    have "b \<in> seg_set s" "b + unat sz - 1 \<in> seg_set s" using b sz0 by (auto simp: seg_fits_def)
    then have "unat (ss_start s) \<le> b" "b + unat sz \<le> unat (ss_end s)" using sz0 by (auto simp: seg_set_def)
    moreover have "unat a \<le> b" using R(4) [of b] b calculation by (simp add: seg_fits_def)
    ultimately show ?thesis by (simp add: word_le_nat_alt u)
  qed
qed

lemma ff_scan_iff:
  assumes "\<forall>s\<in>set segs. seg_ok sm s" "request_ok sm sz" "2 ^ e \<le> unat sz"
  shows "case ff_scan (2 ^ e) sz segs of
      Some a \<Rightarrow> (\<exists>s\<in>set segs. seg_fits e sz s (unat a) \<and> unat (a + sz) = unat a + unat sz)
    | None \<Rightarrow> (\<forall>s\<in>set segs. \<forall>b. \<not> seg_fits e sz s b)"
  using assms
proof (induction segs)
  case (Cons s segs)
  have s: "seg_ok sm s" using Cons.prems(1) by simp
  note S = ff_scan_seg [OF s Cons.prems(2,3)]
  show ?case
  proof (cases "P2ROUNDUP (ss_start s) (2 ^ e) + sz \<le> ss_end s")
    case True
    with S(1) [OF True] show ?thesis by auto
  next
    case False
    have "\<not> seg_fits e sz s b" for b using S(2) [of b] False by blast
    with False Cons.IH Cons.prems show ?thesis by (auto simp: Let_def split: option.splits)
  qed
qed simp

lemma avl_list_from_nearest: "avl_list_from (avl_nearest t w True) = path_after w"
proof (cases "avl_nearest t w True")
  case None
  then show ?thesis using avl_nearest_after [of w t] by simp
next
  case (Some pos)
  with avl_nearest_after [of w t] have "path_after w \<noteq> []"
    "pos_at (avl_plug Null w) (path_before w) (hd (path_after w)) (tl (path_after w)) pos" by simp_all
  from avl_list_from_pos [OF this(2)] this(1) show ?thesis unfolding Some by simp
qed

lemma ff_from_split:
  assumes inv: "sm_inv sm" and top: "unat c + unat sz < 2 ^ 64" and sz: "sz \<noteq> 0"
  shows "\<exists>xs. sm_segs sm = xs @ ff_from sm c sz \<and> (\<forall>s\<in>set xs. unat (ss_end s) < unat c + unat sz)"
proof -
  let ?v = "\<lparr>ss_start = c, ss_end = c + sz\<rparr>"
  have e: "unat (c + sz) = unat c + unat sz" using top by (rule unat_end)
  have lt: "ss_start ?v < ss_end ?v" using e sz unat_gt_0 [of sz] by (simp add: word_less_nat_alt)
  show ?thesis
  proof (cases "avl_find (sm_root sm) ?v")
    case (Inl pos)
    then obtain xs ys where P: "pos_at (avl_root (sm_root sm)) xs (avl_data (fst pos)) ys pos"
      "seg_set (avl_data (fst pos)) \<inter> seg_set ?v \<noteq> {}"
      using find_overlap [OF inv lt] by auto
    have "ff_from sm c sz = avl_data (fst pos) # ys"
      unfolding ff_from_def Inl sum.case by (rule avl_list_from_pos [OF P(1)])
    moreover have "unat (ss_end s) < unat c + unat sz" if "s \<in> set xs" for s
    proof -
      have "segs_ok sm (xs @ avl_data (fst pos) # ys)" using inv pos_at_inorder [OF P(1)] by (simp add: sm_inv_def)
      then have "ss_end s < ss_start (avl_data (fst pos))" using that by (auto simp: segs_ok_def sorted_wrt_append)
      moreover have "unat (ss_start (avl_data (fst pos))) < unat c + unat sz" using P(2) e by (auto simp: seg_set_def)
      ultimately show ?thesis by (simp add: word_less_nat_alt)
    qed
    ultimately show ?thesis using pos_at_inorder [OF P(1)] by auto
  next
    case (Inr w)
    then have W: "avl_plug Null w = avl_root (sm_root sm)" "sm_segs sm = path_before w @ path_after w"
      "\<forall>s\<in>set (path_before w). ss_end s \<le> c"
      using find_overlap [OF inv lt] by auto
    have "ff_from sm c sz = path_after w"
      unfolding ff_from_def Inr sum.case by (rule avl_list_from_nearest)
    moreover have "unat (ss_end s) < unat c + unat sz" if "s \<in> set (path_before w)" for s
      using that W(3) sz unat_gt_0 [of sz] by (fastforce simp: word_le_nat_alt)
    ultimately show ?thesis using W(2) by auto
  qed
qed

lemma fits_iff:
  assumes inv: "sm_inv sm" and sz: "sz \<noteq> 0" and e: "sz AND - sz = 2 ^ e" "e < 64"
  shows "fits sm sz a \<longleftrightarrow> (\<exists>s\<in>set (sm_segs sm). seg_fits e sz s a)"
proof -
  have u: "unat (2 ^ e :: u64) = 2 ^ e"
    using unat_push_bit [of 1 e] e(2) power_strict_increasing [of e 64 "2::nat"] by simp
  have "\<exists>s\<in>set (sm_segs sm). {a..<a + unat sz} \<subseteq> seg_set s" if sub: "{a..<a + unat sz} \<subseteq> sm_set sm"
  proof -
    have a: "a \<in> {a..<a + unat sz}" using sz unat_gt_0 [of sz] by simp
    then have "a \<in> sm_set sm" using sub by blast
    then obtain s where s: "s \<in> set (sm_segs sm)" "a \<in> seg_set s" by (auto simp: sm_set_def segs_set_def)
    obtain xs ys where xs: "sm_segs sm = xs @ s # ys" using s(1) by (meson split_list)
    have "segs_ok sm (xs @ s # ys)" using inv xs by (simp add: sm_inv_def)
    moreover have "{a..<a + unat sz} \<inter> seg_set s \<noteq> {}" using a s(2) by blast
    ultimately have "{a..<a + unat sz} \<subseteq> seg_set s" using interval_in_one sub by (simp add: sm_set_def xs)
    with s(1) show ?thesis by blast
  qed
  then show ?thesis by (auto simp: fits_def seg_fits_def e u sm_set_def segs_set_def)
qed

lemma ff_alloc_ok:
  assumes inv: "sm_inv sm" and rdy: "ff_ready sm" and req: "request_ok sm sz"
  shows "\<exists>start sm'. metaslab_ff_alloc sm sz = Some (start, sm') \<and> only_ppd sm sm' \<and> ff_ready sm' \<and>
    (if start = - 1 then \<forall>a. \<not> fits sm sz a else fits sm sz (unat start))"
proof -
  have sz: "sz \<noteq> 0" using req by (simp add: request_ok_def)
  obtain e where e: "e < 64" "sz AND - sz = 2 ^ e" "2 ^ e dvd unat sz" using lowbit [OF sz] by blast
  have le: "2 ^ e \<le> unat sz" using e(3) sz unat_gt_0 [of sz] by (auto dest: dvd_imp_le)
  have hb: "highbit (2 ^ e) = e + 1" using e(1) by (rule highbit_exp)
  note F = fits_iff [OF inv sz e(2,1)]
  have ok: "\<forall>s\<in>set (sm_segs sm). seg_ok sm s" using inv by (simp add: sm_inv_def segs_ok_def)
  define good where "good cs = (length cs = 64 \<and> (\<forall>c\<in>set cs. unat c \<le> unat (sm_start sm) + unat (sm_size sm)))" for cs :: "u64 list"
  have upd: "good cs \<Longrightarrow> unat c \<le> unat (sm_start sm) + unat (sm_size sm) \<Longrightarrow> good (cs[e := c])" for cs c
    by (auto simp: good_def dest!: set_update_subset_insert [THEN subsetD])
  have step: "(case ff_scan (2 ^ e) sz (ff_from sm c sz) of
      Some a \<Rightarrow> fits sm sz (unat a) \<and> a \<noteq> - 1 \<and> unat (a + sz) \<le> unat (sm_start sm) + unat (sm_size sm)
    | None \<Rightarrow> c = 0 \<longrightarrow> (\<forall>a. \<not> fits sm sz a))" if c: "unat c \<le> unat (sm_start sm) + unat (sm_size sm)" for c
  proof -
    have "unat c + unat sz < 2 ^ 64" using c req sz unat_gt_0 [of sz] by (simp add: request_ok_def)
    from ff_from_split [OF inv this sz] obtain xs where xs: "sm_segs sm = xs @ ff_from sm c sz"
      "\<forall>s\<in>set xs. unat (ss_end s) < unat c + unat sz" by blast
    have "\<forall>s\<in>set (ff_from sm c sz). seg_ok sm s" using ok xs(1) by auto
    note S = ff_scan_iff [OF this req le]
    show ?thesis
    proof (cases "ff_scan (2 ^ e) sz (ff_from sm c sz)")
      case None
      have "\<not> seg_fits e sz s a" if "c = 0" "s \<in> set xs" for s a
      proof
        assume "seg_fits e sz s a"
        moreover have "a + unat sz - 1 \<in> {a..<a + unat sz}" using sz unat_gt_0 [of sz] by auto
        ultimately have "a + unat sz - 1 \<in> seg_set s" unfolding seg_fits_def by blast
        moreover have "unat (ss_end s) < unat sz" using xs(2) that by simp
        ultimately show False using sz unat_gt_0 [of sz] by (simp add: seg_set_def) linarith
      qed
      then show ?thesis using None S F xs(1) by auto
    next
      case (Some a)
      then obtain s where s: "s \<in> set (ff_from sm c sz)" "seg_fits e sz s (unat a)" "unat (a + sz) = unat a + unat sz"
        using S by auto
      have "unat a + unat sz - 1 \<in> {unat a..<unat a + unat sz}" using sz unat_gt_0 [of sz] by auto
      then have "unat a + unat sz - 1 \<in> seg_set s" using s(2) unfolding seg_fits_def by blast
      then have "unat a + unat sz \<le> unat (ss_end s)" by (auto simp: seg_set_def)
      moreover have "unat (ss_end s) \<le> unat (sm_start sm) + unat (sm_size sm)"
        using seg_end_le ok xs(1) s(1) by auto
      moreover have "a \<noteq> - 1"
      proof
        assume "a = - 1"
        then have "a + sz = sz - 1" by simp
        then have "unat (a + sz) < unat sz" using sz by (simp add: unat_minus_one unat_gt_0)
        then show False using s(3) by simp
      qed
      ultimately show ?thesis using Some F s xs(1) by auto
    qed
  qed
  have main: "\<exists>start sm'. metaslab_ff_alloc (sm\<lparr>sm_ppd := Some cs\<rparr>) sz = Some (start, sm') \<and> only_ppd sm sm' \<and> ff_ready sm' \<and>
    (if start = - 1 then \<forall>a. \<not> fits sm sz a else fits sm sz (unat start))"
    if cs: "good cs" "cs ! e = 0 \<or> (\<exists>start sm'. metaslab_ff_alloc (sm\<lparr>sm_ppd := Some (cs[e := 0])\<rparr>) sz = Some (start, sm') \<and> only_ppd sm sm' \<and> ff_ready sm' \<and>
    (if start = - 1 then \<forall>a. \<not> fits sm sz a else fits sm sz (unat start)))" for cs
  proof -
    have len: "\<not> length cs \<le> e" and c: "unat (cs ! e) \<le> unat (sm_start sm) + unat (sm_size sm)"
      using cs(1) e(1) by (auto simp: good_def)
    have ff: "ff_from (sm\<lparr>sm_ppd := p\<rparr>) = ff_from sm" for p
      by (simp add: ff_from_def fun_eq_iff cong: sum.case_cong)
    show ?thesis
    proof (cases "ff_scan (2 ^ e) sz (ff_from sm (cs ! e) sz)")
      case None
      show ?thesis
      proof (cases "cs ! e = 0")
        case True
        then show ?thesis using None step [OF c] len cs(1)
          by (subst metaslab_ff_alloc.simps) (simp add: Let_def e(2) hb ff only_ppd_def ff_ready_def good_def)
      next
        case False
        then show ?thesis using None cs(2) len
          by (subst metaslab_ff_alloc.simps) (simp add: Let_def e(2) hb ff)
      qed
    next
      case (Some a)
      with step [OF c] have a: "fits sm sz (unat a)" "a \<noteq> - 1" "unat (a + sz) \<le> unat (sm_start sm) + unat (sm_size sm)"
        by auto
      from upd [OF cs(1) a(3)] show ?thesis using Some a(1,2) len
        by (subst metaslab_ff_alloc.simps) (simp add: Let_def e(2) hb ff only_ppd_def ff_ready_def good_def)
    qed
  qed
  obtain cs where cs: "sm_ppd sm = Some cs" "good cs" using rdy by (auto simp: ff_ready_def good_def)
  have "length cs = 64" using cs(2) by (simp add: good_def)
  then have "(cs[e := 0]) ! e = 0" using e(1) by simp
  then have "\<exists>start sm'. metaslab_ff_alloc (sm\<lparr>sm_ppd := Some (cs[e := 0])\<rparr>) sz = Some (start, sm') \<and> only_ppd sm sm' \<and> ff_ready sm' \<and>
    (if start = - 1 then \<forall>a. \<not> fits sm sz a else fits sm sz (unat start))"
    using main [of "cs[e := 0]"] upd [OF cs(2), of 0] by simp
  with main [OF cs(2)] have "\<exists>start sm'. metaslab_ff_alloc (sm\<lparr>sm_ppd := Some cs\<rparr>) sz = Some (start, sm') \<and> only_ppd sm sm' \<and> ff_ready sm' \<and>
    (if start = - 1 then \<forall>a. \<not> fits sm sz a else fits sm sz (unat start))" by blast
  moreover have "sm\<lparr>sm_ppd := Some cs\<rparr> = sm" using cs(1) by simp
  ultimately show ?thesis by simp
qed

interpretation ff: block_picker ff_ops ff_ready
proof
  fix sm sm' :: space_map and sz start :: u64
  show "only_ppd sm (smop_load ff_ops sm) \<and> ff_ready (smop_load ff_ops sm)"
    by (simp add: ff_ops_def metaslab_ff_load_def only_ppd_def ff_ready_def)
  show "only_ppd sm (smop_unload ff_ops sm)"
    by (simp add: ff_ops_def metaslab_ff_unload_def only_ppd_def)
  show "\<exists>start sm'. smop_alloc ff_ops sm sz = Some (start, sm') \<and> only_ppd sm sm' \<and> ff_ready sm' \<and>
      (start \<noteq> - 1 \<longrightarrow> fits sm sz (unat start))" if "sm_inv sm" "ff_ready sm" "request_ok sm sz"
    using ff_alloc_ok [OF that] by (auto simp: ff_ops_def split: if_splits)
  show "only_ppd sm (smop_claim ff_ops sm start sz) \<and> ff_ready (smop_claim ff_ops sm start sz)" if "ff_ready sm"
    using that by (simp add: ff_ops_def metaslab_ff_claim_def only_ppd_def)
  show "only_ppd sm (smop_free ff_ops sm start sz) \<and> ff_ready (smop_free ff_ops sm start sz)" if "ff_ready sm"
    using that by (simp add: ff_ops_def metaslab_ff_free_def only_ppd_def)
  show "ff_ready sm'" if "ff_ready sm" "sm_frame sm sm'"
    using that sm_frame_sel [OF that(2)] by (simp add: ff_ready_def)
qed

section \<open>Properties\<close>

text \<open>C20. First fit is sound and complete. For a request of a whole number of units the call
  returns and changes nothing of the map but its cursors; the offset it returns starts a range that
  is entirely free and aligned to the largest power of two that divides the size; and it returns
  \<^verbatim>\<open>-1\<close> only when the map has no such range, wherever the cursor was.\<close>

theorem metaslab_ff_alloc_correct:
  assumes "sm_inv sm" "ff_ready sm" "request_ok sm sz"
  shows "\<exists>start sm'. metaslab_ff_alloc sm sz = Some (start, sm') \<and> only_ppd sm sm' \<and> ff_ready sm' \<and>
    (if start = - 1 then \<forall>a. \<not> fits sm sz a else fits sm sz (unat start))"
  using assms by (rule ff_alloc_ok)

lemma demo_map_ready: "ff_ready (metaslab_ff_load demo_map)" "sm_inv (metaslab_ff_load demo_map)"
  "sm_set (metaslab_ff_load demo_map) = {512..<1536}" "request_ok (metaslab_ff_load demo_map) 1024"
  using only_ppd_sel [of demo_map "metaslab_ff_load demo_map"] demo_map_ok demo_map_aligned
  by (auto simp: only_ppd_def metaslab_ff_load_def ff_ready_def request_ok_def)

theorem metaslab_ff_alloc_correct_witness:
  "\<exists>start sm'. metaslab_ff_alloc (metaslab_ff_load demo_map) 1024 = Some (start, sm') \<and>
    only_ppd (metaslab_ff_load demo_map) sm' \<and> ff_ready sm' \<and>
    (if start = - 1 then \<forall>a. \<not> fits (metaslab_ff_load demo_map) 1024 a else fits (metaslab_ff_load demo_map) 1024 (unat start))"
  by (rule metaslab_ff_alloc_correct [OF demo_map_ready(2,1,4)])

text \<open>C11. Allocating from a map whose block picker is first fit: the call returns and keeps the
  invariant; the range it returns was free and is no longer, and nothing else changed; when it
  returns \<^verbatim>\<open>-1\<close> the set is unchanged.\<close>

theorem space_map_alloc_correct:
  assumes "sm_inv sm" "ff_ready sm" "request_ok sm sz" "sm_ops sm = Some v" "vec v = ff_ops"
  shows "\<exists>start sm'. space_map_alloc vec zr sm sz = Some (start, sm') \<and> sm_inv sm' \<and> ff_ready sm' \<and>
    sm_frame (sm\<lparr>sm_ppd := sm_ppd sm'\<rparr>) sm' \<and>
    sm_set sm' = (if start = - 1 then sm_set sm else sm_set sm - {unat start..<unat start + unat sz}) \<and>
    (start \<noteq> - 1 \<longrightarrow> fits sm sz (unat start))"
  using assms by (rule ff.space_map_alloc_ok)

theorem space_map_alloc_correct_witness:
  "\<exists>start sm'. space_map_alloc (\<lambda>_. ff_ops) False ((metaslab_ff_load demo_map)\<lparr>sm_ops := Some metaslab_ff_ops\<rparr>) 1024 =
      Some (start, sm') \<and> sm_inv sm' \<and>
    sm_set sm' = (if start = - 1 then {512..<1536} else {512..<1536} - {unat start..<unat start + 1024})"
proof -
  let ?sm = "(metaslab_ff_load demo_map)\<lparr>sm_ops := Some metaslab_ff_ops\<rparr>"
  have "sm_inv ?sm" "sm_set ?sm = {512..<1536}" "ff_ready ?sm" "request_ok ?sm 1024"
    using demo_map_ready
    by (auto simp: sm_inv_def sm_set_def segs_ok_def seg_ok_def sm_range_def sm_aligned_def sm_unit_def ff_ready_def request_ok_def)
  with space_map_alloc_correct [of ?sm 1024 metaslab_ff_ops "\<lambda>_. ff_ops" False] show ?thesis by auto
qed

end
