(* ===== verification/Blkptr.thy ===== *)
theory Blkptr
  imports Prelude
begin

text \<open>
  Block pointers, the macros of \<^verbatim>\<open>src/lib/libzfscommon/include/sys/spa.h\<close>: data virtual
  addresses, block properties and checksums packed into 64-bit words. A macro that assigns to
  a field is a function from the old word, DVA or block pointer to the new one.
\<close>

section \<open>Bit fields\<close>

definition BF64_SET :: "u64 \<Rightarrow> nat \<Rightarrow> nat \<Rightarrow> u64 \<Rightarrow> u64" where
  "BF64_SET x low len val = x XOR BF64_ENCODE (drop_bit low x XOR val) low len"

definition BF64_GET_SB :: "u64 \<Rightarrow> nat \<Rightarrow> nat \<Rightarrow> nat \<Rightarrow> u64 \<Rightarrow> u64" where
  "BF64_GET_SB x low len shift bias = push_bit shift (BF64_DECODE x low len + bias)"

definition BF64_SET_SB :: "u64 \<Rightarrow> nat \<Rightarrow> nat \<Rightarrow> nat \<Rightarrow> u64 \<Rightarrow> u64 \<Rightarrow> u64" where
  "BF64_SET_SB x low len shift bias val = BF64_SET x low len (drop_bit shift val - bias)"

definition SPA_MINBLOCKSHIFT :: nat where "SPA_MINBLOCKSHIFT = 9"
definition SPA_MAXBLOCKSHIFT :: nat where "SPA_MAXBLOCKSHIFT = 17"
definition SPA_MINBLOCKSIZE :: u64 where "SPA_MINBLOCKSIZE = push_bit SPA_MINBLOCKSHIFT 1"
definition SPA_MAXBLOCKSIZE :: u64 where "SPA_MAXBLOCKSIZE = push_bit SPA_MAXBLOCKSHIFT 1"

section \<open>Data virtual addresses\<close>

record dva =
  dva_word0 :: u64
  dva_word1 :: u64

definition DVA_GET_ASIZE :: "dva \<Rightarrow> u64" where
  "DVA_GET_ASIZE d = BF64_GET_SB (dva_word0 d) 0 24 SPA_MINBLOCKSHIFT 0"
definition DVA_SET_ASIZE :: "dva \<Rightarrow> u64 \<Rightarrow> dva" where
  "DVA_SET_ASIZE d x = d\<lparr>dva_word0 := BF64_SET_SB (dva_word0 d) 0 24 SPA_MINBLOCKSHIFT 0 x\<rparr>"
definition DVA_GET_GRID :: "dva \<Rightarrow> u64" where
  "DVA_GET_GRID d = BF64_DECODE (dva_word0 d) 24 8"
definition DVA_SET_GRID :: "dva \<Rightarrow> u64 \<Rightarrow> dva" where
  "DVA_SET_GRID d x = d\<lparr>dva_word0 := BF64_SET (dva_word0 d) 24 8 x\<rparr>"
definition DVA_GET_VDEV :: "dva \<Rightarrow> u64" where
  "DVA_GET_VDEV d = BF64_DECODE (dva_word0 d) 32 32"
definition DVA_SET_VDEV :: "dva \<Rightarrow> u64 \<Rightarrow> dva" where
  "DVA_SET_VDEV d x = d\<lparr>dva_word0 := BF64_SET (dva_word0 d) 32 32 x\<rparr>"
definition DVA_GET_OFFSET :: "dva \<Rightarrow> u64" where
  "DVA_GET_OFFSET d = BF64_GET_SB (dva_word1 d) 0 63 SPA_MINBLOCKSHIFT 0"
definition DVA_SET_OFFSET :: "dva \<Rightarrow> u64 \<Rightarrow> dva" where
  "DVA_SET_OFFSET d x = d\<lparr>dva_word1 := BF64_SET_SB (dva_word1 d) 0 63 SPA_MINBLOCKSHIFT 0 x\<rparr>"
definition DVA_GET_GANG :: "dva \<Rightarrow> u64" where
  "DVA_GET_GANG d = BF64_DECODE (dva_word1 d) 63 1"
definition DVA_SET_GANG :: "dva \<Rightarrow> u64 \<Rightarrow> dva" where
  "DVA_SET_GANG d x = d\<lparr>dva_word1 := BF64_SET (dva_word1 d) 63 1 x\<rparr>"
definition DVA_EQUAL :: "dva \<Rightarrow> dva \<Rightarrow> bool" where
  "DVA_EQUAL a b \<longleftrightarrow> dva_word1 a = dva_word1 b \<and> dva_word0 a = dva_word0 b"
definition DVA_IS_VALID :: "dva \<Rightarrow> bool" where
  "DVA_IS_VALID d \<longleftrightarrow> DVA_GET_ASIZE d \<noteq> 0"

section \<open>Checksums\<close>

record zio_cksum =
  zc_word0 :: u64
  zc_word1 :: u64
  zc_word2 :: u64
  zc_word3 :: u64

definition ZIO_CHECKSUM_EQUAL :: "zio_cksum \<Rightarrow> zio_cksum \<Rightarrow> bool" where
  "ZIO_CHECKSUM_EQUAL zc1 zc2 \<longleftrightarrow>
     0 = ((zc_word0 zc1 - zc_word0 zc2) OR (zc_word1 zc1 - zc_word1 zc2) OR
          (zc_word2 zc1 - zc_word2 zc2) OR (zc_word3 zc1 - zc_word3 zc2))"

definition ZIO_SET_CHECKSUM :: "zio_cksum \<Rightarrow> u64 \<Rightarrow> u64 \<Rightarrow> u64 \<Rightarrow> u64 \<Rightarrow> zio_cksum" where
  "ZIO_SET_CHECKSUM zcp w0 w1 w2 w3 = zcp\<lparr>zc_word0 := w0, zc_word1 := w1, zc_word2 := w2, zc_word3 := w3\<rparr>"

section \<open>Block pointers\<close>

record blkptr =
  blk_dva0 :: dva
  blk_dva1 :: dva
  blk_dva2 :: dva
  blk_prop :: u64
  blk_pad0 :: u64
  blk_pad1 :: u64
  blk_pad2 :: u64
  blk_birth :: u64
  blk_fill :: u64
  blk_cksum :: zio_cksum

definition BP_IS_HOLE :: "blkptr \<Rightarrow> bool" where "BP_IS_HOLE bp \<longleftrightarrow> blk_birth bp = 0"
definition BP_IS_OLDER :: "blkptr \<Rightarrow> u64 \<Rightarrow> bool" where
  "BP_IS_OLDER bp txg \<longleftrightarrow> \<not> BP_IS_HOLE bp \<and> blk_birth bp < txg"
definition BP_GET_LSIZE :: "blkptr \<Rightarrow> u64" where
  "BP_GET_LSIZE bp = (if BP_IS_HOLE bp then 0 else BF64_GET_SB (blk_prop bp) 0 16 SPA_MINBLOCKSHIFT 1)"
definition BP_SET_LSIZE :: "blkptr \<Rightarrow> u64 \<Rightarrow> blkptr" where
  "BP_SET_LSIZE bp x = bp\<lparr>blk_prop := BF64_SET_SB (blk_prop bp) 0 16 SPA_MINBLOCKSHIFT 1 x\<rparr>"
definition BP_GET_PSIZE :: "blkptr \<Rightarrow> u64" where
  "BP_GET_PSIZE bp = BF64_GET_SB (blk_prop bp) 16 16 SPA_MINBLOCKSHIFT 1"
definition BP_SET_PSIZE :: "blkptr \<Rightarrow> u64 \<Rightarrow> blkptr" where
  "BP_SET_PSIZE bp x = bp\<lparr>blk_prop := BF64_SET_SB (blk_prop bp) 16 16 SPA_MINBLOCKSHIFT 1 x\<rparr>"
definition BP_GET_COMPRESS :: "blkptr \<Rightarrow> u64" where "BP_GET_COMPRESS bp = BF64_DECODE (blk_prop bp) 32 8"
definition BP_SET_COMPRESS :: "blkptr \<Rightarrow> u64 \<Rightarrow> blkptr" where
  "BP_SET_COMPRESS bp x = bp\<lparr>blk_prop := BF64_SET (blk_prop bp) 32 8 x\<rparr>"
definition BP_GET_CHECKSUM :: "blkptr \<Rightarrow> u64" where "BP_GET_CHECKSUM bp = BF64_DECODE (blk_prop bp) 40 8"
definition BP_SET_CHECKSUM :: "blkptr \<Rightarrow> u64 \<Rightarrow> blkptr" where
  "BP_SET_CHECKSUM bp x = bp\<lparr>blk_prop := BF64_SET (blk_prop bp) 40 8 x\<rparr>"
definition BP_GET_TYPE :: "blkptr \<Rightarrow> u64" where "BP_GET_TYPE bp = BF64_DECODE (blk_prop bp) 48 8"
definition BP_SET_TYPE :: "blkptr \<Rightarrow> u64 \<Rightarrow> blkptr" where
  "BP_SET_TYPE bp x = bp\<lparr>blk_prop := BF64_SET (blk_prop bp) 48 8 x\<rparr>"
definition BP_GET_LEVEL :: "blkptr \<Rightarrow> u64" where "BP_GET_LEVEL bp = BF64_DECODE (blk_prop bp) 56 5"
definition BP_SET_LEVEL :: "blkptr \<Rightarrow> u64 \<Rightarrow> blkptr" where
  "BP_SET_LEVEL bp x = bp\<lparr>blk_prop := BF64_SET (blk_prop bp) 56 5 x\<rparr>"
definition BP_GET_BYTEORDER :: "blkptr \<Rightarrow> u64" where "BP_GET_BYTEORDER bp = 0 - BF64_DECODE (blk_prop bp) 63 1"
definition BP_SET_BYTEORDER :: "blkptr \<Rightarrow> u64 \<Rightarrow> blkptr" where
  "BP_SET_BYTEORDER bp x = bp\<lparr>blk_prop := BF64_SET (blk_prop bp) 63 1 x\<rparr>"

definition BP_GET_ASIZE :: "blkptr \<Rightarrow> u64" where
  "BP_GET_ASIZE bp = DVA_GET_ASIZE (blk_dva0 bp) + DVA_GET_ASIZE (blk_dva1 bp) + DVA_GET_ASIZE (blk_dva2 bp)"
definition BP_GET_NDVAS :: "blkptr \<Rightarrow> nat" where
  "BP_GET_NDVAS bp = of_bool (DVA_GET_ASIZE (blk_dva0 bp) \<noteq> 0) + of_bool (DVA_GET_ASIZE (blk_dva1 bp) \<noteq> 0) +
     of_bool (DVA_GET_ASIZE (blk_dva2 bp) \<noteq> 0)"
definition BP_COUNT_GANG :: "blkptr \<Rightarrow> u64" where
  "BP_COUNT_GANG bp = DVA_GET_GANG (blk_dva0 bp) + DVA_GET_GANG (blk_dva1 bp) + DVA_GET_GANG (blk_dva2 bp)"
definition BP_IDENTITY :: "blkptr \<Rightarrow> dva" where "BP_IDENTITY bp = blk_dva0 bp"
definition BP_IS_GANG :: "blkptr \<Rightarrow> u64" where "BP_IS_GANG bp = DVA_GET_GANG (BP_IDENTITY bp)"

definition BP_ZERO_DVAS :: "blkptr \<Rightarrow> blkptr" where
  "BP_ZERO_DVAS bp = (let z = \<lparr>dva_word0 = 0, dva_word1 = 0\<rparr> in
     bp\<lparr>blk_dva0 := z, blk_dva1 := z, blk_dva2 := z, blk_birth := 0\<rparr>)"
definition BP_ZERO :: "blkptr \<Rightarrow> blkptr" where
  "BP_ZERO bp = (BP_ZERO_DVAS bp)\<lparr>blk_prop := 0, blk_pad0 := 0, blk_pad1 := 0, blk_pad2 := 0, blk_fill := 0,
     blk_cksum := ZIO_SET_CHECKSUM (blk_cksum bp) 0 0 0 0\<rparr>"

definition ZFS_HOST_BYTEORDER :: u64 where
  \<comment> \<open>of a little-endian host\<close>
  "ZFS_HOST_BYTEORDER = - 1"
definition BP_SHOULD_BYTESWAP :: "blkptr \<Rightarrow> bool" where
  "BP_SHOULD_BYTESWAP bp \<longleftrightarrow> BP_GET_BYTEORDER bp \<noteq> ZFS_HOST_BYTEORDER"

section \<open>Setting and getting a field\<close>

lemma bit_BF64_SET:
  "bit (BF64_SET x low len val) k \<longleftrightarrow>
     (if low \<le> k \<and> k < low + len \<and> k < 64 then bit val (k - low) else bit x k)"
  by (auto simp: BF64_SET_def bit_BF64 bit_simps)

lemma BF64_SET_same: "low + len \<le> 64 \<Longrightarrow> BF64_DECODE (BF64_SET x low len val) low len = take_bit len val"
  by (rule bit_eqI) (auto simp: bit_BF64 bit_BF64_SET bit_simps)

lemma BF64_SET_other:
  "low + len \<le> l \<or> l + n \<le> low \<Longrightarrow> BF64_DECODE (BF64_SET x low len val) l n = BF64_DECODE x l n"
  by (rule bit_eqI) (auto simp: bit_BF64 bit_BF64_SET bit_simps)

lemma take_bit_small: "unat x < 2 ^ n \<Longrightarrow> take_bit n (x :: u64) = x"
  by (rule word_unat_eq_iff [THEN iffD2]) (simp add: unat_take_bit)

lemma push_drop_aligned: "2 ^ n dvd unat x \<Longrightarrow> push_bit n (drop_bit n (x :: u64)) = x"
proof -
  assume "2 ^ n dvd unat x"
  then have "take_bit n x = 0" using take_bit_0_dvd by blast
  then show ?thesis using bits_ident [of n x] by simp
qed

lemma sb_roundtrip:
  assumes "low + len \<le> 64" "2 ^ shift dvd unat val" "unat (drop_bit shift val - bias) < 2 ^ len"
  shows "BF64_GET_SB (BF64_SET_SB x low len shift bias val) low len shift bias = val"
  using assms by (simp add: BF64_GET_SB_def BF64_SET_SB_def BF64_SET_same take_bit_small push_drop_aligned)

lemmas field_defs = BF64_GET_SB_def BF64_SET_SB_def SPA_MINBLOCKSHIFT_def

section \<open>Properties\<close>

definition dva_view :: "dva \<Rightarrow> u64 \<times> u64 \<times> u64 \<times> u64 \<times> u64" where
  \<comment> \<open>vdev, grid, asize, offset and gang of a DVA\<close>
  "dva_view d = (DVA_GET_VDEV d, DVA_GET_GRID d, DVA_GET_ASIZE d, DVA_GET_OFFSET d, DVA_GET_GANG d)"

text \<open>C31. Each field of a DVA reads back the value stored in it, and storing it leaves the other
  four fields alone: for a vdev number below 2^32, a grid below 2^8, an allocated size that is a
  multiple of 512 below 2^33, an offset that is a multiple of 512, and a gang bit.\<close>

theorem dva_fields:
  assumes "unat vdev < 2 ^ 32" "unat grid < 2 ^ 8" "512 dvd unat asize" "unat asize < 2 ^ 33"
    "512 dvd unat offset" "unat gang < 2"
    and "dva_view d = (v, g, a, off, G)"
  shows "dva_view (DVA_SET_VDEV d vdev) = (vdev, g, a, off, G) \<and>
    dva_view (DVA_SET_GRID d grid) = (v, grid, a, off, G) \<and>
    dva_view (DVA_SET_ASIZE d asize) = (v, g, asize, off, G) \<and>
    dva_view (DVA_SET_OFFSET d offset) = (v, g, a, offset, G) \<and>
    dva_view (DVA_SET_GANG d gang) = (v, g, a, off, gang)"
proof -
  have "unat (drop_bit 9 asize) < 2 ^ 24" using assms(4) by (simp add: unat_drop_bit less_mult_imp_div_less)
  moreover have "unat (drop_bit 9 offset) < 2 ^ 63" using unat_lt64 [of offset] by (simp add: unat_drop_bit less_mult_imp_div_less)
  ultimately have "BF64_GET_SB (BF64_SET_SB w 0 24 9 0 asize) 0 24 9 0 = asize"
    "BF64_GET_SB (BF64_SET_SB w 0 63 9 0 offset) 0 63 9 0 = offset" for w
    using assms(3,5) by (simp_all add: sb_roundtrip)
  moreover have "gang mod 2 = gang" using take_bit_small [of gang 1] assms(6) by (simp add: take_bit_eq_mod)
  ultimately show ?thesis
    using assms
    by (auto simp: dva_view_def DVA_GET_VDEV_def DVA_SET_VDEV_def DVA_GET_GRID_def DVA_SET_GRID_def DVA_GET_ASIZE_def
        DVA_SET_ASIZE_def DVA_GET_OFFSET_def DVA_SET_OFFSET_def DVA_GET_GANG_def DVA_SET_GANG_def SPA_MINBLOCKSHIFT_def
        BF64_SET_same take_bit_small BF64_SET_other)
      (auto simp: field_defs BF64_SET_other)
qed

theorem dva_fields_witness:
  "dva_view (DVA_SET_VDEV \<lparr>dva_word0 = 0, dva_word1 = 0\<rparr> 3) = (3, 0, 0, 0, 0) \<and>
   dva_view (DVA_SET_OFFSET \<lparr>dva_word0 = 0, dva_word1 = 0\<rparr> 0x4000) = (0, 0, 0, 0x4000, 0)"
proof -
  have "dva_view \<lparr>dva_word0 = 0, dva_word1 = 0\<rparr> = (0, 0, 0, 0, 0)"
    by (simp add: dva_view_def DVA_GET_VDEV_def DVA_GET_GRID_def DVA_GET_ASIZE_def DVA_GET_OFFSET_def DVA_GET_GANG_def
        BF64_GET_SB_def BF64_DECODE_take)
  from dva_fields [where vdev = 3 and grid = 1 and asize = 512 and offset = "0x4000" and gang = 1, OF _ _ _ _ _ _ this]
  show ?thesis by simp
qed

definition bp_view :: "blkptr \<Rightarrow> u64 \<times> u64 \<times> u64 \<times> u64 \<times> u64 \<times> u64 \<times> u64" where
  \<comment> \<open>logical and physical size, compression, checksum, type, level and byte order\<close>
  "bp_view bp = (BP_GET_LSIZE bp, BP_GET_PSIZE bp, BP_GET_COMPRESS bp, BP_GET_CHECKSUM bp, BP_GET_TYPE bp,
     BP_GET_LEVEL bp, BP_GET_BYTEORDER bp)"

lemma size_field:
  assumes "512 dvd unat x" "512 \<le> unat x" "unat x \<le> 2 ^ 25" "low + 16 \<le> 64"
  shows "BF64_GET_SB (BF64_SET_SB w low 16 9 1 x) low 16 9 1 = x"
proof (rule sb_roundtrip)
  have "unat (drop_bit 9 x) = unat x div 512" by (simp add: unat_drop_bit)
  then have "0 < unat (drop_bit 9 x)" "unat (drop_bit 9 x) \<le> 2 ^ 16" using assms(2,3) by (auto simp: div_greater_zero_iff)
  moreover have "unat (drop_bit 9 x - 1) = unat (drop_bit 9 x) - 1"
    using calculation(1) by (intro unat_minus_one) auto
  ultimately show "unat (drop_bit 9 x - 1) < 2 ^ 16" by simp
qed (use assms in auto)

text \<open>C32. Each property field of a block pointer that is not a hole reads back the value stored
  in it, and storing it leaves the other six fields alone: sizes are multiples of 512 from 512 to
  2^25, compression, checksum and type are below 2^8, the level is below 2^5 and the byte order is
  0 or -1.\<close>

theorem bp_fields:
  assumes "512 dvd unat sz" "512 \<le> unat sz" "unat sz \<le> 2 ^ 25" "unat x < 2 ^ 8" "unat lvl < 2 ^ 5" "bo = 0 \<or> bo = - 1"
    and "\<not> BP_IS_HOLE bp" and "bp_view bp = (ls, ps, co, ck, ty, le, b)"
  shows "bp_view (BP_SET_LSIZE bp sz) = (sz, ps, co, ck, ty, le, b) \<and>
    bp_view (BP_SET_PSIZE bp sz) = (ls, sz, co, ck, ty, le, b) \<and>
    bp_view (BP_SET_COMPRESS bp x) = (ls, ps, x, ck, ty, le, b) \<and>
    bp_view (BP_SET_CHECKSUM bp x) = (ls, ps, co, x, ty, le, b) \<and>
    bp_view (BP_SET_TYPE bp x) = (ls, ps, co, ck, x, le, b) \<and>
    bp_view (BP_SET_LEVEL bp lvl) = (ls, ps, co, ck, ty, lvl, b) \<and>
    bp_view (BP_SET_BYTEORDER bp bo) = (ls, ps, co, ck, ty, le, bo)"
proof -
  have sz: "BF64_GET_SB (BF64_SET_SB w 0 16 9 1 sz) 0 16 9 1 = sz" "BF64_GET_SB (BF64_SET_SB w 16 16 9 1 sz) 16 16 9 1 = sz" for w
    using assms(1-3) by (simp_all add: size_field)
  have f: "BF64_DECODE (BF64_SET w l 8 x) l 8 = x" if "l \<le> 56" for w l
    using that assms(4) by (simp add: BF64_SET_same take_bit_small)
  have lvl: "BF64_DECODE (BF64_SET w 56 5 lvl) 56 5 = lvl" for w
    using assms(5) by (simp add: BF64_SET_same take_bit_small)
  have bo: "- BF64_DECODE (BF64_SET w 63 1 bo) 63 1 = bo" for w
    using assms(6) by (auto simp: BF64_SET_same take_bit_minus_one_eq_mask mask_eq_exp_minus_1)
  note defs = bp_view_def BP_GET_LSIZE_def BP_GET_PSIZE_def BP_GET_COMPRESS_def BP_GET_CHECKSUM_def BP_GET_TYPE_def
    BP_GET_LEVEL_def BP_GET_BYTEORDER_def BP_IS_HOLE_def SPA_MINBLOCKSHIFT_def
  note v = assms(8) [unfolded defs] and h = assms(7) [unfolded BP_IS_HOLE_def]
  have sb: "BF64_GET_SB (BF64_SET w l n y) l' n' s c = BF64_GET_SB w l' n' s c" if "l + n \<le> l' \<or> l' + n' \<le> l" for w l n y l' n' s c
    using that by (simp add: BF64_GET_SB_def BF64_SET_other)
  have "bp_view (BP_SET_LSIZE bp sz) = (sz, ps, co, ck, ty, le, b)"
    "bp_view (BP_SET_PSIZE bp sz) = (ls, sz, co, ck, ty, le, b)"
    using v h sz by (simp_all add: defs BP_SET_LSIZE_def BP_SET_PSIZE_def) (simp_all add: BF64_SET_SB_def BF64_SET_other sb)
  moreover have "bp_view (BP_SET_COMPRESS bp x) = (ls, ps, x, ck, ty, le, b)"
    "bp_view (BP_SET_CHECKSUM bp x) = (ls, ps, co, x, ty, le, b)" "bp_view (BP_SET_TYPE bp x) = (ls, ps, co, ck, x, le, b)"
    using v h by (simp_all add: defs BP_SET_COMPRESS_def BP_SET_CHECKSUM_def BP_SET_TYPE_def f BF64_SET_other sb)
  moreover have "bp_view (BP_SET_LEVEL bp lvl) = (ls, ps, co, ck, ty, lvl, b)"
    "bp_view (BP_SET_BYTEORDER bp bo) = (ls, ps, co, ck, ty, le, bo)"
    using v h bo [of "blk_prop bp"] by (simp_all add: defs BP_SET_LEVEL_def BP_SET_BYTEORDER_def lvl BF64_SET_other sb)
  ultimately show ?thesis by blast
qed

theorem bp_fields_witness:
  "bp_view (BP_SET_PSIZE \<lparr>blk_dva0 = \<lparr>dva_word0 = 0, dva_word1 = 0\<rparr>, blk_dva1 = \<lparr>dva_word0 = 0, dva_word1 = 0\<rparr>, blk_dva2 = \<lparr>dva_word0 = 0, dva_word1 = 0\<rparr>, blk_prop = 0, blk_pad0 = 0, blk_pad1 = 0,
      blk_pad2 = 0, blk_birth = 9, blk_fill = 0, blk_cksum = \<lparr>zc_word0 = 0, zc_word1 = 0, zc_word2 = 0, zc_word3 = 0\<rparr>\<rparr> 0x20000) = (512, 0x20000, 0, 0, 0, 0, 0)"
proof -
  let ?bp = "\<lparr>blk_dva0 = \<lparr>dva_word0 = 0, dva_word1 = 0\<rparr>, blk_dva1 = \<lparr>dva_word0 = 0, dva_word1 = 0\<rparr>, blk_dva2 = \<lparr>dva_word0 = 0, dva_word1 = 0\<rparr>, blk_prop = 0, blk_pad0 = 0, blk_pad1 = 0,
      blk_pad2 = 0, blk_birth = 9, blk_fill = 0, blk_cksum = \<lparr>zc_word0 = 0, zc_word1 = 0, zc_word2 = 0, zc_word3 = 0\<rparr>\<rparr>"
  have "bp_view ?bp = (512, 512, 0, 0, 0, 0, 0)"
    by (simp add: bp_view_def BP_GET_LSIZE_def BP_GET_PSIZE_def BP_GET_COMPRESS_def BP_GET_CHECKSUM_def BP_GET_TYPE_def
      BP_GET_LEVEL_def BP_GET_BYTEORDER_def BP_IS_HOLE_def SPA_MINBLOCKSHIFT_def BF64_GET_SB_def BF64_DECODE_take)
  from bp_fields [where sz = "0x20000" and x = 1 and lvl = 1 and bo = 0, OF _ _ _ _ _ _ _ this]
  show ?thesis by (simp add: BP_IS_HOLE_def)
qed

text \<open>The checksum comparison, one test on the union of the word differences, holds exactly
  when the two checksums have the same four words.\<close>

lemma ZIO_CHECKSUM_EQUAL_iff: "ZIO_CHECKSUM_EQUAL zc1 zc2 \<longleftrightarrow> zc1 = zc2"
proof -
  have or0: "0 = a OR b \<longleftrightarrow> a = 0 \<and> b = (0 :: u64)" "a OR b = 0 \<longleftrightarrow> a = 0 \<and> b = (0 :: u64)" for a b
    by (metis or_eq_0_iff)+
  show ?thesis by (cases zc1; cases zc2) (auto simp: ZIO_CHECKSUM_EQUAL_def or0)
qed

end
