(* ===== verification/Galois.thy ===== *)
theory Galois
  imports Prelude
begin

text \<open>
  The field GF(2^8) that RAID-Z double parity computes in, from
  \<^verbatim>\<open>src/lib/libzpool/vdev_raidz.c\<close>: multiplication by two, the tables of powers and logarithms,
  \<^verbatim>\<open>vdev_raidz_exp2()\<close>, and the multiplication of the eight bytes of a word at once. The tables
  are shown to be what the comments say they are, and the word-wide trick to be eight byte
  multiplications.
\<close>

definition VDEV_RAIDZ_MUL_2 :: "u8 \<Rightarrow> u8" where
  "VDEV_RAIDZ_MUL_2 a = push_bit 1 a XOR (if a AND 0x80 \<noteq> 0 then 0x1d else 0)"

definition vdev_raidz_pow2 :: "u8 list" where
  "vdev_raidz_pow2 =
    [0x01, 0x02, 0x04, 0x08, 0x10, 0x20, 0x40, 0x80, 0x1d, 0x3a, 0x74, 0xe8, 0xcd, 0x87, 0x13, 0x26,
     0x4c, 0x98, 0x2d, 0x5a, 0xb4, 0x75, 0xea, 0xc9, 0x8f, 0x03, 0x06, 0x0c, 0x18, 0x30, 0x60, 0xc0,
     0x9d, 0x27, 0x4e, 0x9c, 0x25, 0x4a, 0x94, 0x35, 0x6a, 0xd4, 0xb5, 0x77, 0xee, 0xc1, 0x9f, 0x23,
     0x46, 0x8c, 0x05, 0x0a, 0x14, 0x28, 0x50, 0xa0, 0x5d, 0xba, 0x69, 0xd2, 0xb9, 0x6f, 0xde, 0xa1,
     0x5f, 0xbe, 0x61, 0xc2, 0x99, 0x2f, 0x5e, 0xbc, 0x65, 0xca, 0x89, 0x0f, 0x1e, 0x3c, 0x78, 0xf0,
     0xfd, 0xe7, 0xd3, 0xbb, 0x6b, 0xd6, 0xb1, 0x7f, 0xfe, 0xe1, 0xdf, 0xa3, 0x5b, 0xb6, 0x71, 0xe2,
     0xd9, 0xaf, 0x43, 0x86, 0x11, 0x22, 0x44, 0x88, 0x0d, 0x1a, 0x34, 0x68, 0xd0, 0xbd, 0x67, 0xce,
     0x81, 0x1f, 0x3e, 0x7c, 0xf8, 0xed, 0xc7, 0x93, 0x3b, 0x76, 0xec, 0xc5, 0x97, 0x33, 0x66, 0xcc,
     0x85, 0x17, 0x2e, 0x5c, 0xb8, 0x6d, 0xda, 0xa9, 0x4f, 0x9e, 0x21, 0x42, 0x84, 0x15, 0x2a, 0x54,
     0xa8, 0x4d, 0x9a, 0x29, 0x52, 0xa4, 0x55, 0xaa, 0x49, 0x92, 0x39, 0x72, 0xe4, 0xd5, 0xb7, 0x73,
     0xe6, 0xd1, 0xbf, 0x63, 0xc6, 0x91, 0x3f, 0x7e, 0xfc, 0xe5, 0xd7, 0xb3, 0x7b, 0xf6, 0xf1, 0xff,
     0xe3, 0xdb, 0xab, 0x4b, 0x96, 0x31, 0x62, 0xc4, 0x95, 0x37, 0x6e, 0xdc, 0xa5, 0x57, 0xae, 0x41,
     0x82, 0x19, 0x32, 0x64, 0xc8, 0x8d, 0x07, 0x0e, 0x1c, 0x38, 0x70, 0xe0, 0xdd, 0xa7, 0x53, 0xa6,
     0x51, 0xa2, 0x59, 0xb2, 0x79, 0xf2, 0xf9, 0xef, 0xc3, 0x9b, 0x2b, 0x56, 0xac, 0x45, 0x8a, 0x09,
     0x12, 0x24, 0x48, 0x90, 0x3d, 0x7a, 0xf4, 0xf5, 0xf7, 0xf3, 0xfb, 0xeb, 0xcb, 0x8b, 0x0b, 0x16,
     0x2c, 0x58, 0xb0, 0x7d, 0xfa, 0xe9, 0xcf, 0x83, 0x1b, 0x36, 0x6c, 0xd8, 0xad, 0x47, 0x8e, 0x01]"

definition vdev_raidz_log2 :: "u8 list" where
  "vdev_raidz_log2 =
    [0x00, 0x00, 0x01, 0x19, 0x02, 0x32, 0x1a, 0xc6, 0x03, 0xdf, 0x33, 0xee, 0x1b, 0x68, 0xc7, 0x4b,
     0x04, 0x64, 0xe0, 0x0e, 0x34, 0x8d, 0xef, 0x81, 0x1c, 0xc1, 0x69, 0xf8, 0xc8, 0x08, 0x4c, 0x71,
     0x05, 0x8a, 0x65, 0x2f, 0xe1, 0x24, 0x0f, 0x21, 0x35, 0x93, 0x8e, 0xda, 0xf0, 0x12, 0x82, 0x45,
     0x1d, 0xb5, 0xc2, 0x7d, 0x6a, 0x27, 0xf9, 0xb9, 0xc9, 0x9a, 0x09, 0x78, 0x4d, 0xe4, 0x72, 0xa6,
     0x06, 0xbf, 0x8b, 0x62, 0x66, 0xdd, 0x30, 0xfd, 0xe2, 0x98, 0x25, 0xb3, 0x10, 0x91, 0x22, 0x88,
     0x36, 0xd0, 0x94, 0xce, 0x8f, 0x96, 0xdb, 0xbd, 0xf1, 0xd2, 0x13, 0x5c, 0x83, 0x38, 0x46, 0x40,
     0x1e, 0x42, 0xb6, 0xa3, 0xc3, 0x48, 0x7e, 0x6e, 0x6b, 0x3a, 0x28, 0x54, 0xfa, 0x85, 0xba, 0x3d,
     0xca, 0x5e, 0x9b, 0x9f, 0x0a, 0x15, 0x79, 0x2b, 0x4e, 0xd4, 0xe5, 0xac, 0x73, 0xf3, 0xa7, 0x57,
     0x07, 0x70, 0xc0, 0xf7, 0x8c, 0x80, 0x63, 0x0d, 0x67, 0x4a, 0xde, 0xed, 0x31, 0xc5, 0xfe, 0x18,
     0xe3, 0xa5, 0x99, 0x77, 0x26, 0xb8, 0xb4, 0x7c, 0x11, 0x44, 0x92, 0xd9, 0x23, 0x20, 0x89, 0x2e,
     0x37, 0x3f, 0xd1, 0x5b, 0x95, 0xbc, 0xcf, 0xcd, 0x90, 0x87, 0x97, 0xb2, 0xdc, 0xfc, 0xbe, 0x61,
     0xf2, 0x56, 0xd3, 0xab, 0x14, 0x2a, 0x5d, 0x9e, 0x84, 0x3c, 0x39, 0x53, 0x47, 0x6d, 0x41, 0xa2,
     0x1f, 0x2d, 0x43, 0xd8, 0xb7, 0x7b, 0xa4, 0x76, 0xc4, 0x17, 0x49, 0xec, 0x7f, 0x0c, 0x6f, 0xf6,
     0x6c, 0xa1, 0x3b, 0x52, 0x29, 0x9d, 0x55, 0xaa, 0xfb, 0x60, 0x86, 0xb1, 0xbb, 0xcc, 0x3e, 0x5a,
     0xcb, 0x59, 0x5f, 0xb0, 0x9c, 0xa9, 0xa0, 0x51, 0x0b, 0xf5, 0x16, 0xeb, 0x7a, 0x75, 0x2c, 0xd7,
     0x4f, 0xae, 0xd5, 0xe9, 0xe6, 0xe7, 0xad, 0xe8, 0x74, 0xd6, 0xf4, 0xea, 0xa8, 0x50, 0x58, 0xaf]"

definition vdev_raidz_exp2 :: "u8 \<Rightarrow> nat \<Rightarrow> u8" where
  "vdev_raidz_exp2 a exp =
     (if a = 0 then 0
      else let exp = exp + unat (vdev_raidz_log2 ! unat a); exp = (if exp > 255 then exp - 255 else exp)
        in vdev_raidz_pow2 ! exp)"

definition mul2_word :: "u64 \<Rightarrow> u64" where
  "mul2_word q =
     (let mask = q AND 0x8080808080808080; mask = push_bit 1 mask - drop_bit 7 mask
      in (push_bit 1 q AND 0xfefefefefefefefe) XOR (mask AND 0x1d1d1d1d1d1d1d1d))"

section \<open>The tables\<close>

lemma length_pow2: "length vdev_raidz_pow2 = 256" "length vdev_raidz_log2 = 256"
  by (simp_all add: vdev_raidz_pow2_def vdev_raidz_log2_def)

lemma pow2_step: "map VDEV_RAIDZ_MUL_2 (butlast vdev_raidz_pow2) = tl vdev_raidz_pow2"
  by (simp add: vdev_raidz_pow2_def VDEV_RAIDZ_MUL_2_def)

lemma log2_pow2: "map (\<lambda>a. unat (vdev_raidz_log2 ! unat a)) (butlast vdev_raidz_pow2) = [0..<255]"
  by code_simp

abbreviation mul2 :: "u8 \<Rightarrow> u8" where "mul2 \<equiv> VDEV_RAIDZ_MUL_2"

lemma pow2_Suc: "i < 255 \<Longrightarrow> mul2 (vdev_raidz_pow2 ! i) = vdev_raidz_pow2 ! Suc i"
  using arg_cong [OF pow2_step, of "\<lambda>xs. xs ! i"]
  by (simp add: length_pow2 nth_butlast nth_tl)

lemma pow2_0: "vdev_raidz_pow2 ! 0 = 1" "vdev_raidz_pow2 ! 255 = 1"
  by (simp_all add: vdev_raidz_pow2_def)

lemma pow2_iter: "i \<le> 255 \<Longrightarrow> vdev_raidz_pow2 ! i = (mul2 ^^ i) 1"
  by (induction i) (simp_all add: pow2_0 flip: pow2_Suc)

lemma log2_nth: "i < 255 \<Longrightarrow> unat (vdev_raidz_log2 ! unat (vdev_raidz_pow2 ! i)) = i"
  using arg_cong [OF log2_pow2, of "\<lambda>xs. xs ! i"]
  by (simp add: length_pow2 nth_butlast)

lemma pow2_inj: "inj_on (\<lambda>i. vdev_raidz_pow2 ! i) {..<255}"
  by (rule inj_on_inverseI [where g = "\<lambda>a. unat (vdev_raidz_log2 ! unat a)"]) (simp add: log2_nth)

lemma bit_80: "(a :: u8) AND 0x80 \<noteq> 0 \<longleftrightarrow> bit a 7"
  using bit_eq_iff [of "a AND 0x80" 0] bit_exp_int [of 128 7] by (auto simp: bit_simps)

lemma bit_table:
  assumes "\<forall>n\<in>set [0..<LENGTH('a)]. bit (w :: 'a::len word) n = P n"
  shows "bit w n \<longleftrightarrow> n < LENGTH('a) \<and> P n"
  using assms by (cases "n < LENGTH('a)") (auto dest: bit_imp_le_length)

lemma bit_1d: "bit (0x1d :: u8) k \<longleftrightarrow> k = 0 \<or> k = 2 \<or> k = 3 \<or> k = 4"
proof -
  have "\<forall>k\<in>set [0..<LENGTH(8)]. bit (0x1d :: u8) k = (k = 0 \<or> k = 2 \<or> k = 3 \<or> k = 4)" by (simp add: upt_rec)
  from bit_table [OF this, of k] show ?thesis by auto
qed

lemma bit_mul2: "k < 8 \<Longrightarrow> bit (mul2 a) k \<longleftrightarrow> (k \<noteq> 0 \<and> bit a (k - 1)) \<noteq> ((k = 0 \<or> k = 2 \<or> k = 3 \<or> k = 4) \<and> bit a 7)"
proof -
  have "bit (if bit a 7 then 0x1d else 0 :: u8) k \<longleftrightarrow> (k = 0 \<or> k = 2 \<or> k = 3 \<or> k = 4) \<and> bit a 7"
  proof (cases "bit a 7")
    case True
    show ?thesis unfolding if_P [OF True] bit_1d using True by blast
  qed simp
  moreover assume "k < 8"
  ultimately show ?thesis
    unfolding VDEV_RAIDZ_MUL_2_def bit_80 bit_xor_iff bit_push_bit_iff by (auto simp: Suc_le_eq)
qed

lemma mul2_xor: "mul2 (a XOR b) = mul2 a XOR mul2 b"
  by (rule bit_eqI) (auto simp: bit_mul2 bit_simps)

lemma mul2_0: "mul2 0 = 0"
  by (simp add: VDEV_RAIDZ_MUL_2_def)

lemma iter_xor: "(mul2 ^^ n) (a XOR b) = (mul2 ^^ n) a XOR (mul2 ^^ n) b"
  by (induction n) (simp_all add: mul2_xor)

lemma iter_0: "(mul2 ^^ n) 0 = 0"
  by (induction n) (simp_all add: mul2_0)

lemma iter_add: "(mul2 ^^ m) ((mul2 ^^ n) a) = (mul2 ^^ (m + n)) a"
  by (simp add: funpow_add)

lemma iter_255_1: "(mul2 ^^ 255) 1 = 1"
  using pow2_iter [of 255, OF order_refl] pow2_0(2) by (simp only:)

lemma pow2_nonzero: "i \<le> 255 \<Longrightarrow> vdev_raidz_pow2 ! i \<noteq> 0"
proof
  assume i: "i \<le> 255" "vdev_raidz_pow2 ! i = 0"
  have "(mul2 ^^ (255 - i)) ((mul2 ^^ i) 1) = 1"
    unfolding iter_add le_add_diff_inverse2 [OF i(1)] by (rule iter_255_1)
  then show False unfolding pow2_iter [OF i(1), symmetric] i(2) iter_0 by simp
qed

lemma power_of_two:
  assumes "a \<noteq> 0"
  shows "\<exists>i < 255. a = vdev_raidz_pow2 ! i"
proof -
  have "card ((\<lambda>i. vdev_raidz_pow2 ! i) ` {..<255}) = 255" using pow2_inj by (simp add: card_image)
  moreover have "(\<lambda>i. vdev_raidz_pow2 ! i) ` {..<255} \<subseteq> - {0}" using pow2_nonzero by auto
  moreover have "card (- {0 :: u8}) = 255" by (simp add: Compl_eq_Diff_UNIV card_Diff_subset card_word)
  ultimately have "(\<lambda>i. vdev_raidz_pow2 ! i) ` {..<255} = - {0}"
    by (metis card_subset_eq finite)
  then show ?thesis using assms by (metis (no_types, lifting) ComplI image_iff lessThan_iff singletonD)
qed

lemma iter_255: "(mul2 ^^ 255) a = a"
proof (cases "a = 0")
  case False
  then obtain i where "i < 255" "a = vdev_raidz_pow2 ! i" using power_of_two by blast
  then have a: "a = (mul2 ^^ i) 1" using pow2_iter [of i] by simp
  have "(mul2 ^^ 255) ((mul2 ^^ i) 1) = (mul2 ^^ i) ((mul2 ^^ 255) 1)" by (simp only: iter_add add.commute)
  then show ?thesis unfolding a iter_255_1 .
qed (simp add: iter_0)

lemma exp2_iter:
  assumes "e \<le> 255"
  shows "vdev_raidz_exp2 a e = (mul2 ^^ e) a"
proof (cases "a = 0")
  case False
  then obtain i where i: "i < 255" "a = vdev_raidz_pow2 ! i" using power_of_two by blast
  have l: "unat (vdev_raidz_log2 ! unat a) = i" using log2_nth i by simp
  have it: "(mul2 ^^ e) a = (mul2 ^^ (e + i)) 1" using i pow2_iter [of i] by (simp add: funpow_add)
  show ?thesis
  proof (cases "e + i > 255")
    case True
    then have "(mul2 ^^ (e + i - 255)) ((mul2 ^^ 255) 1) = (mul2 ^^ (e + i)) 1" by (simp only: iter_add) simp
    then have "(mul2 ^^ (e + i - 255)) 1 = (mul2 ^^ e) a" unfolding iter_255_1 it .
    then show ?thesis using True \<open>a \<noteq> 0\<close> i(1) assms pow2_iter [of "e + i - 255"]
      by (simp add: vdev_raidz_exp2_def l)
  next
    case False
    then show ?thesis using \<open>a \<noteq> 0\<close> pow2_iter [of "e + i"] by (simp add: vdev_raidz_exp2_def l it)
  qed
qed (simp add: vdev_raidz_exp2_def iter_0)

lemma log2_iter: "a \<noteq> 0 \<Longrightarrow> unat (vdev_raidz_log2 ! unat a) < 255 \<and> (mul2 ^^ unat (vdev_raidz_log2 ! unat a)) 1 = a"
  using power_of_two [of a] log2_nth pow2_iter by fastforce

section \<open>Eight bytes at once\<close>

definition byte_of :: "nat \<Rightarrow> u64 \<Rightarrow> u8" where
  "byte_of j w = ucast (drop_bit (8 * j) w)"

lemma bit_byte_of: "bit (byte_of j w) k \<longleftrightarrow> k < 8 \<and> bit w (8 * j + k)"
  by (auto simp: byte_of_def bit_simps)

lemma bytes_eqI: "(\<And>j. j < 8 \<Longrightarrow> byte_of j v = byte_of j w) \<Longrightarrow> v = w"
proof (rule bit_eqI)
  fix n assume *: "\<And>j. j < 8 \<Longrightarrow> byte_of j v = byte_of j w" and "possible_bit TYPE(u64) n"
  then have "n div 8 < 8" by simp
  then have "bit (byte_of (n div 8) v) (n mod 8) = bit (byte_of (n div 8) w) (n mod 8)" using * by simp
  then show "bit v n = bit w n" by (simp add: bit_byte_of)
qed

lemma byte_of_xor: "byte_of j (v XOR w) = byte_of j v XOR byte_of j w"
  by (rule bit_eqI) (auto simp: bit_byte_of bit_simps)

lemma byte_of_0 [simp]: "byte_of j 0 = 0"
  by (rule bit_eqI) (simp add: bit_byte_of)

lemmas mask_80 = bit_table [of "0x8080808080808080 :: u64" "\<lambda>n. n mod 8 = 7"]
lemmas mask_fe = bit_table [of "0xfefefefefefefefe :: u64" "\<lambda>n. n mod 8 \<noteq> 0"]
lemmas mask_1d = bit_table [of "0x1d1d1d1d1d1d1d1d :: u64" "\<lambda>n. n mod 8 = 0 \<or> n mod 8 = 2 \<or> n mod 8 = 3 \<or> n mod 8 = 4"]

lemma bit_80_all: "\<forall>n\<in>set [0..<LENGTH(64)]. bit (0x8080808080808080 :: u64) n = (n mod 8 = 7)"
  by (simp add: upt_rec)

lemma bit_fe_all: "\<forall>n\<in>set [0..<LENGTH(64)]. bit (0xfefefefefefefefe :: u64) n = (n mod 8 \<noteq> 0)"
  by (simp add: upt_rec)

lemma bit_1d_all: "\<forall>n\<in>set [0..<LENGTH(64)]. bit (0x1d1d1d1d1d1d1d1d :: u64) n = (n mod 8 = 0 \<or> n mod 8 = 2 \<or> n mod 8 = 3 \<or> n mod 8 = 4)"
  by (simp add: upt_rec)

lemmas bit_masks = mask_80 [OF bit_80_all] mask_fe [OF bit_fe_all] mask_1d [OF bit_1d_all]

text \<open>
  A word whose bytes are each either empty or have their lowest \<open>m\<close> bits set: adding it to
  itself shifted by \<open>m\<close> sets the lowest \<open>2 * m\<close> bits of the same bytes.
\<close>

lemma smear:
  assumes t: "\<And>n. bit (t :: u64) n \<longleftrightarrow> n < 64 \<and> n mod 8 < m \<and> s (n div 8)" and m: "0 < m" "2 * m \<le> 8"
  shows "bit (t + push_bit m t) n \<longleftrightarrow> n < 64 \<and> n mod 8 < 2 * m \<and> s (n div 8)"
proof -
  have p: "bit (push_bit m t) n \<longleftrightarrow> n < 64 \<and> m \<le> n mod 8 \<and> n mod 8 < 2 * m \<and> s (n div 8)" for n
  proof -
    define q r where "q = n div 8" and "r = n mod 8"
    have n: "n = 8 * q + r" "r < 8" by (simp_all add: q_def r_def)
    show ?thesis
    proof (cases "m \<le> r")
      case True
      then have "n - m = 8 * q + (r - m)" using n by simp
      moreover have "r - m < 8" using n by simp
      ultimately have "(n - m) div 8 = q" "(n - m) mod 8 = r - m" "m \<le> n" using n True by (simp_all only: div_mult_self4 mod_mult_self4) simp_all
      then show ?thesis using True by (auto simp: bit_push_bit_iff t simp flip: q_def r_def)
    next
      case False
      have "\<not> bit t (n - m)" if "m \<le> n"
      proof (cases q)
        case 0
        with n that False show ?thesis by simp
      next
        case (Suc q')
        then have "n - m = 8 * q' + (8 + r - m)" "8 + r - m < 8" using n m False by auto
        then have "(n - m) mod 8 = 8 + r - m" by simp
        then have "\<not> (n - m) mod 8 < m" using m by linarith
        then show ?thesis by (simp add: t)
      qed
      then show ?thesis using False by (auto simp: bit_push_bit_iff simp flip: q_def r_def)
    qed
  qed
  have "t + push_bit m t = t OR push_bit m t" by (rule disjunctive_add) (auto simp: p t)
  then show ?thesis using m by (auto simp: bit_or_iff p t)
qed

lemma bit_ff:
  assumes "\<And>n. bit (t :: u64) n \<Longrightarrow> n mod 8 = 0"
  shows "bit (push_bit 8 t - t) n \<longleftrightarrow> n < 64 \<and> bit t (8 * (n div 8))"
proof -
  let ?s = "\<lambda>q. bit t (8 * q)"
  define t2 where "t2 = t + push_bit 1 t"
  define t4 where "t4 = t2 + push_bit 2 t2"
  have 1: "bit t n \<longleftrightarrow> n < 64 \<and> n mod 8 < 1 \<and> ?s (n div 8)" for n
    using assms [of n] bit_imp_le_length [of t n] by (auto simp: mult.commute)
  have 2: "bit t2 n \<longleftrightarrow> n < 64 \<and> n mod 8 < 2 \<and> ?s (n div 8)" for n
    unfolding t2_def by (subst smear [of t 1 ?s, OF 1]) simp_all
  have 4: "bit t4 n \<longleftrightarrow> n < 64 \<and> n mod 8 < 4 \<and> ?s (n div 8)" for n
    unfolding t4_def by (subst smear [of t2 2 ?s, OF 2]) simp_all
  have "push_bit 8 t - t = t4 + push_bit 4 t4"
    unfolding t4_def t2_def by (simp add: push_bit_eq_mult algebra_simps)
  also have "bit (t4 + push_bit 4 t4) n \<longleftrightarrow> n < 64 \<and> n mod 8 < 8 \<and> ?s (n div 8)"
    by (subst smear [of t4 4 ?s, OF 4]) simp_all
  finally show ?thesis by simp
qed

lemma bit_mul2_word:
  assumes "n < 64"
  shows "bit (mul2_word w) n \<longleftrightarrow> (n mod 8 \<noteq> 0 \<and> bit w (n - 1)) \<noteq>
    ((n mod 8 = 0 \<or> n mod 8 = 2 \<or> n mod 8 = 3 \<or> n mod 8 = 4) \<and> bit w (8 * (n div 8) + 7))"
proof -
  define m where "m = w AND 0x8080808080808080"
  define t where "t = drop_bit 7 m"
  have m: "bit m n \<longleftrightarrow> n < 64 \<and> n mod 8 = 7 \<and> bit w n" for n unfolding m_def bit_and_iff bit_masks by auto
  have t: "bit t n \<longleftrightarrow> bit m (7 + n)" for n by (simp add: t_def bit_drop_bit_eq)
  have p: "push_bit 1 m = push_bit 8 t"
  proof (rule bit_eqI)
    fix n
    have "\<not> bit m (n - 1)" if "n < 8" "1 \<le> n"
      using that by (auto simp: m)
    then show "bit (push_bit 1 m) n \<longleftrightarrow> bit (push_bit 8 t) n"
      unfolding bit_push_bit_iff t by (cases "8 \<le> n") auto
  qed
  then have d: "mul2_word w = (push_bit 1 w AND 0xfefefefefefefefe) XOR ((push_bit 8 t - t) AND 0x1d1d1d1d1d1d1d1d)"
    unfolding mul2_word_def Let_def m_def [symmetric] t_def [symmetric] by (simp only:)
  have "n mod 8 = 0" if "bit t n" for n using that mod_add_left_eq [of 7 8 n] by (auto simp: t m) presburger
  then have ff: "bit (push_bit 8 t - t) n \<longleftrightarrow> n < 64 \<and> bit t (8 * (n div 8))" by (rule bit_ff)
  have "n div 8 \<le> 7" using assms by simp
  then have "8 * (n div 8) + 7 < 64" by linarith
  then have tw: "bit t (8 * (n div 8)) \<longleftrightarrow> bit w (8 * (n div 8) + 7)" by (simp add: t m add.commute)
  have A: "bit (push_bit 1 w AND 0xfefefefefefefefe) n \<longleftrightarrow> n mod 8 \<noteq> 0 \<and> bit w (n - 1)"
    unfolding bit_and_iff bit_push_bit_iff bit_masks using assms by (cases n) auto
  have B: "bit ((push_bit 8 t - t) AND 0x1d1d1d1d1d1d1d1d) n \<longleftrightarrow>
      (n mod 8 = 0 \<or> n mod 8 = 2 \<or> n mod 8 = 3 \<or> n mod 8 = 4) \<and> bit w (8 * (n div 8) + 7)"
    unfolding bit_and_iff bit_masks ff tw using assms by auto
  show ?thesis unfolding d bit_xor_iff A B by (rule refl)
qed

lemma byte_mul2_word:
  assumes "j < 8"
  shows "byte_of j (mul2_word w) = mul2 (byte_of j w)"
proof (rule bit_eqI)
  fix k assume "possible_bit TYPE(u8) k"
  then have k: "k < 8" by simp
  then have "8 * j + k < 64" "(8 * j + k) mod 8 = k" "(8 * j + k) div 8 = j" using assms by auto
  note B = bit_mul2_word [OF this(1), of w, unfolded this(2,3)]
  show "bit (byte_of j (mul2_word w)) k \<longleftrightarrow> bit (mul2 (byte_of j w)) k"
    unfolding bit_byte_of bit_mul2 [OF k] B using k by (cases k) auto
qed

section \<open>Multiplying all bytes of a word by a power of two\<close>

lemma mul2_word_xor: "mul2_word (v XOR w) = mul2_word v XOR mul2_word w"
  by (rule bytes_eqI) (simp add: byte_mul2_word byte_of_xor mul2_xor)

lemma mul2_word_0: "mul2_word 0 = 0"
  by (rule bytes_eqI) (simp add: byte_mul2_word mul2_0)

lemma byte_iter_word: "j < 8 \<Longrightarrow> byte_of j ((mul2_word ^^ n) w) = (mul2 ^^ n) (byte_of j w)"
  by (induction n) (simp_all add: byte_mul2_word)

lemma iter_word_xor: "(mul2_word ^^ n) (v XOR w) = (mul2_word ^^ n) v XOR (mul2_word ^^ n) w"
  by (induction n) (simp_all add: mul2_word_xor)

lemma iter_word_0: "(mul2_word ^^ n) 0 = 0"
  by (induction n) (simp_all add: mul2_word_0)

lemma iter_word_255: "(mul2_word ^^ 255) w = w"
  by (rule bytes_eqI) (simp only: byte_iter_word iter_255)

text \<open>
  The identity behind recovering two columns: multiplying by the sum of one and a power of two
  is one multiplication by the power whose logarithm that sum has.
\<close>

lemma one_plus_power:
  assumes "(mul2 ^^ L) 1 = 1 XOR (mul2 ^^ e) 1"
  shows "(mul2 ^^ L) z = z XOR (mul2 ^^ e) z"
proof (cases "z = 0")
  case False
  then obtain i where "i < 255" "z = vdev_raidz_pow2 ! i" using power_of_two by blast
  then have z: "z = (mul2 ^^ i) 1" using pow2_iter [of i] by simp
  have "(mul2 ^^ L) z = (mul2 ^^ i) ((mul2 ^^ L) 1)" unfolding z iter_add by (simp only: add.commute)
  also have "\<dots> = (mul2 ^^ i) 1 XOR (mul2 ^^ i) ((mul2 ^^ e) 1)" unfolding assms iter_xor ..
  also have "(mul2 ^^ i) ((mul2 ^^ e) 1) = (mul2 ^^ e) z" unfolding z iter_add by (simp only: add.commute)
  finally show ?thesis unfolding z .
qed (simp add: iter_0)

lemma pow2_eq_1: "0 < i \<Longrightarrow> i < 255 \<Longrightarrow> (mul2 ^^ i) 1 \<noteq> 1"
  using inj_onD [OF pow2_inj, of i 0] pow2_iter [of i] pow2_0 by auto

definition word_of_bytes :: "u8 list \<Rightarrow> u64" where
  "word_of_bytes bs = foldr (\<lambda>b w. ucast b OR push_bit 8 w) bs 0"

lemma byte_of_word_of_bytes:
  "j < length bs \<Longrightarrow> length bs \<le> 8 \<Longrightarrow> byte_of j (word_of_bytes bs) = bs ! j"
proof (induction bs arbitrary: j)
  case (Cons b bs)
  have B: "bit (word_of_bytes (b # bs)) n \<longleftrightarrow> (if n < 8 then bit b n else n < 64 \<and> bit (word_of_bytes bs) (n - 8))" for n
    unfolding word_of_bytes_def by (auto simp: bit_or_iff bit_push_bit_iff bit_ucast_iff dest: bit_imp_le_length)
  show ?case
  proof (cases j)
    case 0
    then show ?thesis by (intro bit_eqI) (auto simp: bit_byte_of B dest: bit_imp_le_length)
  next
    case (Suc i)
    have "byte_of j (word_of_bytes (b # bs)) = byte_of i (word_of_bytes bs)"
    proof (rule bit_eqI)
      fix n assume "possible_bit TYPE(u8) n"
      then have "n < 8" by simp
      moreover have "i < 7" using Cons.prems Suc by simp
      ultimately show "bit (byte_of j (word_of_bytes (b # bs))) n = bit (byte_of i (word_of_bytes bs)) n"
        by (simp add: bit_byte_of B Suc)
    qed
    also have "\<dots> = bs ! i" using Cons.prems Suc by (intro Cons.IH) auto
    finally show ?thesis by (simp add: Suc)
  qed
qed simp

definition bytewise :: "(u8 \<Rightarrow> u8 \<Rightarrow> u8) \<Rightarrow> u64 \<Rightarrow> u64 \<Rightarrow> u64" where
  \<comment> \<open>a loop over the eight bytes of a word\<close>
  "bytewise f v w = word_of_bytes (map (\<lambda>j. f (byte_of j v) (byte_of j w)) [0..<8])"

lemma byte_bytewise: "j < 8 \<Longrightarrow> byte_of j (bytewise f v w) = f (byte_of j v) (byte_of j w)"
  unfolding bytewise_def by (subst byte_of_word_of_bytes) auto

section \<open>Properties\<close>

text \<open>C34. Multiplying by a power of two with the two tables, one lookup of a logarithm and one of
  a power, is the same as that many multiplications by two in the field, for every byte and every
  exponent up to 255; the table of powers is periodic with period 255, so that an exponent of 255
  is the identity.\<close>

theorem vdev_raidz_exp2_correct:
  assumes "e \<le> 255"
  shows "vdev_raidz_exp2 a e = (VDEV_RAIDZ_MUL_2 ^^ e) a \<and> vdev_raidz_exp2 a 255 = a"
  using exp2_iter [OF assms] exp2_iter [of 255 a] iter_255 by simp

theorem vdev_raidz_exp2_correct_witness:
  "vdev_raidz_exp2 0x80 1 = 0x1d \<and> vdev_raidz_exp2 0x80 255 = 0x80"
  using vdev_raidz_exp2_correct [of 1 "0x80"] by (simp add: VDEV_RAIDZ_MUL_2_def)


end
