(* ===== verification/Raidz.thy ===== *)
theory Raidz
  imports Galois
begin

text \<open>
  RAID-Z stripes, \<^verbatim>\<open>src/lib/libzpool/vdev_raidz.c\<close>: the map of an I/O onto the columns of a
  stripe, parity generation and reconstruction. Buffers are lists of the 64-bit words that most of
  the loops step through; the columns own their part of the I/O buffer. A loop over the words of
  two buffers is \<open>loop2\<close>, a loop over the rest of one is \<open>loop1\<close>. Buffers that
  \<^verbatim>\<open>zio_buf_alloc()\<close> returns have arbitrary contents, an argument that gives the words of the
  buffer allocated for a column.
\<close>

section \<open>Columns and maps\<close>

record raidz_col =
  rc_devidx :: nat
  rc_offset :: u64
  rc_size :: u64
  rc_data :: "u64 list"
  rc_error :: int
  rc_tried :: bool
  rc_skipped :: bool

record raidz_map =
  rm_cols :: nat
  rm_bigcols :: nat
  rm_asize :: u64
  rm_missingdata :: nat
  rm_missingparity :: nat
  rm_firstdatacol :: nat
  rm_col :: "raidz_col list"

definition VDEV_RAIDZ_P :: nat where "VDEV_RAIDZ_P = 0"
definition VDEV_RAIDZ_Q :: nat where "VDEV_RAIDZ_Q = 1"
definition VDEV_RAIDZ_MAXPARITY :: nat where "VDEV_RAIDZ_MAXPARITY = 2"

definition roundup :: "u64 \<Rightarrow> u64 \<Rightarrow> u64" where
  "roundup x y = (x + (y - 1)) div y * y"

definition map_columns :: "u64 \<Rightarrow> u64 \<Rightarrow> nat \<Rightarrow> nat \<Rightarrow> nat \<Rightarrow> raidz_col list" where
  \<comment> \<open>the loop that sets device, offset and size of each column\<close>
  "map_columns io_offset io_size unit_shift dcols nparity =
     (let b = unat (drop_bit unit_shift io_offset); s = unat (drop_bit unit_shift io_size);
          f = b mod dcols; off = push_bit unit_shift (of_nat (b div dcols));
          q = s div (dcols - nparity); r = s - q * (dcols - nparity);
          bc = (if r = 0 then 0 else r + nparity);
          acols = (if q = 0 then bc else dcols)
      in map (\<lambda>c. let col = f + c in
           \<lparr>rc_devidx = (if col \<ge> dcols then col - dcols else col),
            rc_offset = (if col \<ge> dcols then off + push_bit unit_shift 1 else off),
            rc_size = push_bit unit_shift (of_nat (q + (if c < bc then 1 else 0))),
            rc_data = [], rc_error = 0, rc_tried = False, rc_skipped = False\<rparr>) [0..<acols])"

fun split_data :: "raidz_col list \<Rightarrow> u64 list \<Rightarrow> raidz_col list" where
  \<comment> \<open>consecutive parts of the I/O buffer for the data columns\<close>
  "split_data [] io_data = []"
| "split_data (rc # rcs) io_data =
     (let n = unat (rc_size rc) div 8 in rc\<lparr>rc_data := take n io_data\<rparr> # split_data rcs (drop n io_data))"

definition vdev_raidz_map_alloc ::
  "(nat \<Rightarrow> nat \<Rightarrow> u64 list) \<Rightarrow> u64 \<Rightarrow> u64 \<Rightarrow> u64 list \<Rightarrow> nat \<Rightarrow> nat \<Rightarrow> nat \<Rightarrow> raidz_map" where
  "vdev_raidz_map_alloc zio_buf_alloc io_offset io_size io_data unit_shift dcols nparity =
     (let cols = map_columns io_offset io_size unit_shift dcols nparity;
          s = unat (drop_bit unit_shift io_size); q = s div (dcols - nparity); r = s - q * (dcols - nparity);
          asize = foldl (\<lambda>a rc. a + rc_size rc) 0 cols;
          parity = map (\<lambda>c. (cols ! c)\<lparr>rc_data := zio_buf_alloc c (unat (rc_size (cols ! c)) div 8)\<rparr>) [0..<nparity];
          cols = parity @ split_data (drop nparity cols) io_data;
          cols = (if nparity = 1 \<and> io_offset AND push_bit 20 1 \<noteq> 0 then
            cols[0 := (cols ! 0)\<lparr>rc_devidx := rc_devidx (cols ! 1), rc_offset := rc_offset (cols ! 1)\<rparr>,
                 1 := (cols ! 1)\<lparr>rc_devidx := rc_devidx (cols ! 0), rc_offset := rc_offset (cols ! 0)\<rparr>]
            else cols)
      in \<lparr>rm_cols = length cols, rm_bigcols = (if r = 0 then 0 else r + nparity),
          rm_asize = roundup asize (push_bit unit_shift (of_nat (nparity + 1))),
          rm_missingdata = 0, rm_missingparity = 0, rm_firstdatacol = nparity, rm_col = cols\<rparr>)"

definition vdev_raidz_asize :: "nat \<Rightarrow> u64 \<Rightarrow> u64 \<Rightarrow> u64 \<Rightarrow> u64" where
  "vdev_raidz_asize ashift cols nparity psize =
     (let asize = drop_bit ashift (psize - 1) + 1;
          asize = asize + nparity * ((asize + cols - nparity - 1) div (cols - nparity))
      in push_bit ashift (roundup asize (nparity + 1)))"

section \<open>Parity\<close>

definition loop2 :: "nat \<Rightarrow> (u64 \<Rightarrow> u64 \<Rightarrow> u64) \<Rightarrow> u64 list \<Rightarrow> u64 list \<Rightarrow> u64 list" where
  \<comment> \<open>for (i = 0; i < n; i++, dst++, src++) *dst = f(*dst, *src)\<close>
  "loop2 n f dst src = map2 f (take n dst) (take n src) @ drop n dst"

definition loop1 :: "nat \<Rightarrow> nat \<Rightarrow> (u64 \<Rightarrow> u64) \<Rightarrow> u64 list \<Rightarrow> u64 list" where
  \<comment> \<open>for (; i < n; i++, dst++) *dst = f(*dst)\<close>
  "loop1 i n f dst = take i dst @ map f (take (n - i) (drop i dst)) @ drop (max i n) dst"

abbreviation col_data :: "raidz_map \<Rightarrow> nat \<Rightarrow> u64 list" where
  "col_data rm c \<equiv> rc_data (rm_col rm ! c)"

abbreviation col_words :: "raidz_map \<Rightarrow> nat \<Rightarrow> nat" where
  "col_words rm c \<equiv> unat (rc_size (rm_col rm ! c)) div 8"

definition set_data :: "nat \<Rightarrow> u64 list \<Rightarrow> raidz_map \<Rightarrow> raidz_map" where
  "set_data c d rm = rm\<lparr>rm_col := (rm_col rm)[c := (rm_col rm ! c)\<lparr>rc_data := d\<rparr>]\<rparr>"

definition set_size :: "nat \<Rightarrow> u64 \<Rightarrow> raidz_map \<Rightarrow> raidz_map" where
  "set_size c sz rm = rm\<lparr>rm_col := (rm_col rm)[c := (rm_col rm ! c)\<lparr>rc_size := sz\<rparr>]\<rparr>"

definition gen_p_col :: "nat \<Rightarrow> raidz_map \<Rightarrow> raidz_map" where
  "gen_p_col c rm =
     set_data VDEV_RAIDZ_P
       (loop2 (col_words rm c) (\<lambda>p src. if c = rm_firstdatacol rm then src else p XOR src)
          (col_data rm VDEV_RAIDZ_P) (col_data rm c)) rm"

definition vdev_raidz_generate_parity_p :: "raidz_map \<Rightarrow> raidz_map" where
  "vdev_raidz_generate_parity_p rm = fold gen_p_col [rm_firstdatacol rm..<rm_cols rm] rm"

definition gen_pq_col :: "nat \<Rightarrow> raidz_map \<Rightarrow> raidz_map" where
  "gen_pq_col c rm =
     (let pcount = col_words rm VDEV_RAIDZ_P; ccount = col_words rm c; src = col_data rm c;
          p = col_data rm VDEV_RAIDZ_P; q = col_data rm VDEV_RAIDZ_Q in
      if c = rm_firstdatacol rm then
        set_data VDEV_RAIDZ_Q (loop1 ccount pcount (\<lambda>_. 0) (loop2 ccount (\<lambda>_ s. s) q src))
          (set_data VDEV_RAIDZ_P (loop1 ccount pcount (\<lambda>_. 0) (loop2 ccount (\<lambda>_ s. s) p src)) rm)
      else
        set_data VDEV_RAIDZ_Q (loop1 ccount pcount mul2_word (loop2 ccount (\<lambda>q s. mul2_word q XOR s) q src))
          (set_data VDEV_RAIDZ_P (loop2 ccount (\<lambda>p s. p XOR s) p src) rm))"

definition vdev_raidz_generate_parity_pq :: "raidz_map \<Rightarrow> raidz_map" where
  "vdev_raidz_generate_parity_pq rm = fold gen_pq_col [rm_firstdatacol rm..<rm_cols rm] rm"

section \<open>Reconstruction\<close>

definition rec_p_col :: "nat \<Rightarrow> nat \<Rightarrow> raidz_map \<Rightarrow> raidz_map" where
  "rec_p_col x c rm =
     (if c = x then rm
      else set_data x (loop2 (min (col_words rm c) (col_words rm x)) (\<lambda>d s. d XOR s) (col_data rm x) (col_data rm c)) rm)"

definition vdev_raidz_reconstruct_p :: "nat \<Rightarrow> raidz_map \<Rightarrow> raidz_map" where
  "vdev_raidz_reconstruct_p x rm =
     fold (rec_p_col x) [rm_firstdatacol rm..<rm_cols rm]
       (set_data x (loop2 (col_words rm x) (\<lambda>_ s. s) (col_data rm x) (col_data rm VDEV_RAIDZ_P)) rm)"

definition rec_q_col :: "nat \<Rightarrow> nat \<Rightarrow> raidz_map \<Rightarrow> raidz_map" where
  "rec_q_col x c rm =
     (let xcount = col_words rm x; ccount = (if c = x then 0 else col_words rm c); count = min ccount xcount;
          dst = col_data rm x; src = col_data rm c in
      set_data x
        (if c = rm_firstdatacol rm then loop1 count xcount (\<lambda>_. 0) (loop2 count (\<lambda>_ s. s) dst src)
         else loop1 count xcount mul2_word (loop2 count (\<lambda>d s. mul2_word d XOR s) dst src)) rm)"

definition vdev_raidz_reconstruct_q :: "nat \<Rightarrow> raidz_map \<Rightarrow> raidz_map" where
  "vdev_raidz_reconstruct_q x rm =
     (let xcount = col_words rm x;
          rm' = fold (rec_q_col x) [rm_firstdatacol rm..<rm_cols rm] rm;
          exp = 255 - (rm_cols rm - 1 - x)
      in set_data x
           (loop2 xcount (\<lambda>d s. bytewise (\<lambda>b _. vdev_raidz_exp2 b exp) (d XOR s) 0)
              (col_data rm' x) (col_data rm' VDEV_RAIDZ_Q)) rm')"

definition vdev_raidz_reconstruct_pq :: "(nat \<Rightarrow> nat \<Rightarrow> u64 list) \<Rightarrow> nat \<Rightarrow> nat \<Rightarrow> raidz_map \<Rightarrow> raidz_map" where
  "vdev_raidz_reconstruct_pq zio_buf_alloc x y rm =
     (let pdata = col_data rm VDEV_RAIDZ_P; qdata = col_data rm VDEV_RAIDZ_Q;
          xsize = rc_size (rm_col rm ! x); ysize = rc_size (rm_col rm ! y);
          rm1 = set_data VDEV_RAIDZ_P (zio_buf_alloc VDEV_RAIDZ_P (col_words rm VDEV_RAIDZ_P)) rm;
          rm2 = set_data VDEV_RAIDZ_Q (zio_buf_alloc VDEV_RAIDZ_Q (col_words rm VDEV_RAIDZ_Q)) rm1;
          rm3 = set_size y 0 (set_size x 0 rm2);
          rm4 = vdev_raidz_generate_parity_pq rm3;
          rm5 = set_size y ysize (set_size x xsize rm4);
          pxy = col_data rm5 VDEV_RAIDZ_P; qxy = col_data rm5 VDEV_RAIDZ_Q;
          a = vdev_raidz_pow2 ! (255 + x - y);
          b = vdev_raidz_pow2 ! (255 - (rm_cols rm - 1 - x));
          tmp = 255 - unat (vdev_raidz_log2 ! unat (a XOR 1));
          aexp = unat (vdev_raidz_log2 ! unat (vdev_raidz_exp2 a tmp));
          bexp = unat (vdev_raidz_log2 ! unat (vdev_raidz_exp2 b tmp));
          pp = map2 (XOR) pdata pxy; qq = map2 (XOR) qdata qxy;
          xd = map2 (bytewise (\<lambda>p q. vdev_raidz_exp2 p aexp XOR vdev_raidz_exp2 q bexp)) pp qq;
          rm6 = set_data x (loop2 (unat xsize div 8) (\<lambda>_ s. s) (col_data rm5 x) xd) rm5;
          rm7 = set_data y (loop2 (unat (min xsize ysize) div 8) (\<lambda>_ s. s) (col_data rm6 y) (map2 (XOR) pp xd)) rm6
      in set_data VDEV_RAIDZ_Q qdata (set_data VDEV_RAIDZ_P pdata rm7))"

section \<open>Loops and updates\<close>

named_theorems raidz_simps \<open>reading a map after an update\<close>

lemma length_loop2: "n \<le> length dst \<Longrightarrow> n \<le> length src \<Longrightarrow> length (loop2 n f dst src) = length dst"
  by (simp add: loop2_def)

lemma nth_loop2:
  "n \<le> length dst \<Longrightarrow> n \<le> length src \<Longrightarrow> i < length dst \<Longrightarrow>
     loop2 n f dst src ! i = (if i < n then f (dst ! i) (src ! i) else dst ! i)"
  by (simp add: loop2_def nth_append)

lemma length_loop1: "length (loop1 i n f dst) = length dst"
  by (simp add: loop1_def)

lemma nth_loop1:
  assumes "k < length dst"
  shows "loop1 i n f dst ! k = (if i \<le> k \<and> k < n then f (dst ! k) else dst ! k)"
proof (cases "k < i")
  case True
  with assms show ?thesis by (simp add: loop1_def nth_append)
next
  case False
  then have i: "i \<le> k" by simp
  have "loop1 i n f dst ! k = (map f (take (n - i) (drop i dst)) @ drop (max i n) dst) ! (k - i)"
    using assms i unfolding loop1_def by (subst nth_append) simp
  also have "\<dots> = (if k < n then f (dst ! k) else dst ! k)"
  proof (cases "k < n")
    case True
    with assms i have "k - i < n - i" "k - i < length dst - i" by simp_all
    with True i assms show ?thesis by (simp add: nth_append)
  next
    case False
    with assms i have "length (map f (take (n - i) (drop i dst))) = n - i" by simp
    with False i assms show ?thesis by (auto simp: nth_append max_def)
  qed
  finally show ?thesis using i by simp
qed

lemma erase_data:
  assumes "r\<lparr>rc_data := []\<rparr> = r'\<lparr>rc_data := []\<rparr>"
  shows "rc_size r = rc_size r'" "rc_data r = rc_data r' \<Longrightarrow> r = r'" "r\<lparr>rc_data := d\<rparr> = r'\<lparr>rc_data := d\<rparr>"
  using assms by (cases r; cases r'; simp)+

definition only_data :: "nat set \<Rightarrow> raidz_map \<Rightarrow> raidz_map \<Rightarrow> bool" where
  \<comment> \<open>at most the buffers of the columns in the set differ\<close>
  "only_data S rm rm' \<longleftrightarrow> rm'\<lparr>rm_col := []\<rparr> = rm\<lparr>rm_col := []\<rparr> \<and> length (rm_col rm') = length (rm_col rm) \<and>
     (\<forall>c < length (rm_col rm). (rm_col rm' ! c)\<lparr>rc_data := []\<rparr> = (rm_col rm ! c)\<lparr>rc_data := []\<rparr> \<and>
        (c \<notin> S \<longrightarrow> col_data rm' c = col_data rm c) \<and> length (col_data rm' c) = length (col_data rm c))"

lemma only_data_refl [simp]: "only_data S rm rm"
  by (simp add: only_data_def)

lemma only_data_trans: "only_data S a b \<Longrightarrow> only_data S b c \<Longrightarrow> only_data S a c"
  unfolding only_data_def by simp

lemma only_data_mono: "only_data S a b \<Longrightarrow> S \<subseteq> T \<Longrightarrow> only_data T a b"
  unfolding only_data_def by blast

lemma only_data_sel:
  assumes "only_data S rm rm'"
  shows "rm_cols rm' = rm_cols rm" "rm_firstdatacol rm' = rm_firstdatacol rm" "length (rm_col rm') = length (rm_col rm)"
    "c < length (rm_col rm) \<Longrightarrow> rc_size (rm_col rm' ! c) = rc_size (rm_col rm ! c)"
    "c < length (rm_col rm) \<Longrightarrow> c \<notin> S \<Longrightarrow> rm_col rm' ! c = rm_col rm ! c"
    "c < length (rm_col rm) \<Longrightarrow> length (col_data rm' c) = length (col_data rm c)"
proof -
  have E: "rm'\<lparr>rm_col := []\<rparr> = rm\<lparr>rm_col := []\<rparr>" "length (rm_col rm') = length (rm_col rm)"
    and C: "\<And>c. c < length (rm_col rm) \<Longrightarrow> (rm_col rm' ! c)\<lparr>rc_data := []\<rparr> = (rm_col rm ! c)\<lparr>rc_data := []\<rparr> \<and>
        (c \<notin> S \<longrightarrow> col_data rm' c = col_data rm c) \<and> length (col_data rm' c) = length (col_data rm c)"
    using assms by (auto simp: only_data_def)
  show "rm_cols rm' = rm_cols rm" "rm_firstdatacol rm' = rm_firstdatacol rm" using E(1) by (cases rm; cases rm'; simp)+
  show "length (rm_col rm') = length (rm_col rm)" by (rule E)
  assume c: "c < length (rm_col rm)"
  show "rc_size (rm_col rm' ! c) = rc_size (rm_col rm ! c)" using C [OF c] erase_data(1) by blast
  show "rm_col rm' ! c = rm_col rm ! c" if "c \<notin> S" using C [OF c] erase_data(2) that by blast
  show "length (col_data rm' c) = length (col_data rm c)" using C [OF c] by blast
qed

lemma only_data_set:
  assumes "c < length (rm_col rm)" "length d = length (col_data rm c)" "c \<in> S"
  shows "only_data S rm (set_data c d rm)"
  using assms by (auto simp: only_data_def set_data_def nth_list_update)

lemma set_data_sel [raidz_simps]:
  "rm_cols (set_data c d rm) = rm_cols rm" "rm_firstdatacol (set_data c d rm) = rm_firstdatacol rm"
  "length (rm_col (set_data c d rm)) = length (rm_col rm)"
  "k < length (rm_col rm) \<Longrightarrow> rc_size (rm_col (set_data c d rm) ! k) = rc_size (rm_col rm ! k)"
  "k < length (rm_col rm) \<Longrightarrow> col_data (set_data c d rm) k = (if k = c then d else col_data rm k)"
  by (cases "c = k"; simp add: set_data_def)+

section \<open>Stripes\<close>

definition rm_wf :: "raidz_map \<Rightarrow> bool" where
  \<comment> \<open>every buffer has room for its column, and no data column is longer than the parity columns\<close>
  "rm_wf rm \<longleftrightarrow> length (rm_col rm) = rm_cols rm \<and> 0 < rm_firstdatacol rm \<and> rm_firstdatacol rm < rm_cols rm \<and>
     (\<forall>c < rm_cols rm. col_words rm c \<le> length (col_data rm c) \<and> col_words rm c \<le> col_words rm 0 \<and>
        (c < rm_firstdatacol rm \<longrightarrow> length (col_data rm c) = col_words rm 0 \<and> col_words rm c = col_words rm 0))"

definition rm_ok :: "raidz_map \<Rightarrow> bool" where
  "rm_ok rm \<longleftrightarrow> rm_wf rm \<and> (\<forall>c < rm_cols rm. length (col_data rm c) = col_words rm c)"

definition pad :: "raidz_map \<Rightarrow> nat \<Rightarrow> nat \<Rightarrow> u64" where
  \<comment> \<open>a word of a column, zero beyond its end\<close>
  "pad rm i c = (if i < col_words rm c then col_data rm c ! i else 0)"

definition xors :: "(nat \<Rightarrow> u64) \<Rightarrow> nat list \<Rightarrow> u64" where
  "xors f cs = fold (\<lambda>c acc. acc XOR f c) cs 0"

definition horner :: "(nat \<Rightarrow> u64) \<Rightarrow> nat list \<Rightarrow> u64" where
  "horner f cs = fold (\<lambda>c acc. mul2_word acc XOR f c) cs 0"

lemma xors_simps [simp]: "xors f [] = 0" "xors f (cs @ [c]) = xors f cs XOR f c"
  by (simp_all add: xors_def)

lemma xors_single [simp]: "xors f [c] = f c"
  by (simp add: xors_def)

lemma horner_simps [simp]: "horner f [] = 0" "horner f (cs @ [c]) = mul2_word (horner f cs) XOR f c"
  by (simp_all add: horner_def)

lemma horner_single [simp]: "horner f [c] = f c"
  by (simp add: horner_def mul2_word_0)

definition parity_p_ok :: "raidz_map \<Rightarrow> bool" where
  \<comment> \<open>column P is the sum of the data columns\<close>
  "parity_p_ok rm \<longleftrightarrow> (\<forall>i < col_words rm 0. col_data rm 0 ! i = xors (pad rm i) [rm_firstdatacol rm..<rm_cols rm])"

definition parity_q_ok :: "raidz_map \<Rightarrow> bool" where
  \<comment> \<open>column Q is the weighted sum of the data columns\<close>
  "parity_q_ok rm \<longleftrightarrow> (\<forall>i < col_words rm 0. col_data rm 1 ! i = horner (pad rm i) [rm_firstdatacol rm..<rm_cols rm])"

definition parity_ok :: "raidz_map \<Rightarrow> bool" where
  "parity_ok rm \<longleftrightarrow> parity_p_ok rm \<and> (1 < rm_firstdatacol rm \<longrightarrow> parity_q_ok rm)"

lemma rm_wfD:
  assumes "rm_wf rm"
  shows "length (rm_col rm) = rm_cols rm" "0 < rm_firstdatacol rm" "rm_firstdatacol rm < rm_cols rm"
    "c < rm_cols rm \<Longrightarrow> col_words rm c \<le> length (col_data rm c)"
    "c < rm_cols rm \<Longrightarrow> col_words rm c \<le> col_words rm 0"
    "c < rm_firstdatacol rm \<Longrightarrow> length (col_data rm c) = col_words rm 0 \<and> col_words rm c = col_words rm 0"
  using assms unfolding rm_wf_def by (blast, blast, blast, blast, blast, meson less_trans)

lemma rm_wf_only_data:
  assumes "rm_wf rm" "only_data S rm rm'"
  shows "rm_wf rm'"
proof -
  note sel = only_data_sel [OF assms(2)] and ok = rm_wfD [OF assms(1)]
  have w: "col_words rm' c = col_words rm c" "length (col_data rm' c) = length (col_data rm c)" if "c < rm_cols rm" for c
    using sel(4,6) [of c] ok(1) that by simp_all
  have z: "0 < rm_cols rm" using ok(2,3) by simp
  show ?thesis unfolding rm_wf_def sel(1-3) w(1) [OF z]
  proof (intro conjI allI impI)
    fix c assume c: "c < rm_cols rm"
    show "col_words rm' c \<le> length (col_data rm' c)" unfolding w [OF c] by (rule ok(4) [OF c])
    show "col_words rm' c \<le> col_words rm 0" unfolding w [OF c] by (rule ok(5) [OF c])
    show "length (col_data rm' c) = col_words rm 0" "col_words rm' c = col_words rm 0" if "c < rm_firstdatacol rm"
      unfolding w [OF c] using ok(6) [OF that] by blast+
  qed (rule ok)+
qed

lemma rm_okD:
  assumes "rm_ok rm"
  shows "rm_wf rm" "c < rm_cols rm \<Longrightarrow> length (col_data rm c) = col_words rm c"
  using assms unfolding rm_ok_def by blast+

lemma rm_ok_only_data:
  assumes "rm_ok rm" "only_data S rm rm'"
  shows "rm_ok rm'"
proof -
  note sel = only_data_sel [OF assms(2)] and wf = rm_wf_only_data [OF _ assms(2)]
  have "length (col_data rm' c) = col_words rm' c" if "c < rm_cols rm" for c
    using sel(4,6) [of c] that assms(1) unfolding rm_ok_def by (simp add: rm_wfD)
  then show ?thesis using assms(1) wf unfolding rm_ok_def sel(1) by blast
qed

lemma pad_only_data:
  assumes "only_data S rm rm'" "c < length (rm_col rm)" "c \<notin> S"
  shows "pad rm' i c = pad rm i c"
  by (simp add: pad_def only_data_sel(5) [OF assms])

lemma only_data_eqI:
  assumes "only_data S rm rm'" "\<And>c. c \<in> S \<Longrightarrow> c < length (rm_col rm) \<Longrightarrow> col_data rm' c = col_data rm c"
  shows "rm' = rm"
proof -
  have "rm_col rm' ! c = rm_col rm ! c" if c: "c < length (rm_col rm)" for c
  proof (rule erase_data(2))
    show "col_data rm' c = col_data rm c" using assms c unfolding only_data_def by blast
  qed (use assms(1) c in \<open>simp add: only_data_def\<close>)
  then have "rm_col rm' = rm_col rm" using only_data_sel(3) [OF assms(1)] by (simp add: nth_equalityI)
  then show ?thesis using assms(1) unfolding only_data_def by (cases rm; cases rm'; simp)
qed

lemma only_data_sym: "only_data S rm rm' \<Longrightarrow> only_data S rm' rm"
  by (auto simp: only_data_def)

section \<open>Parity generation\<close>

lemmas PQ_defs = VDEV_RAIDZ_P_def VDEV_RAIDZ_Q_def

lemma gen_p_col_step:
  assumes wf: "rm_wf rm" and c: "rm_firstdatacol rm \<le> c" "c < rm_cols rm"
    and first: "c = rm_firstdatacol rm \<Longrightarrow> col_words rm c = col_words rm 0"
  shows "only_data {0} rm (gen_p_col c rm)"
    "i < col_words rm 0 \<Longrightarrow> col_data (gen_p_col c rm) 0 ! i =
       (if c = rm_firstdatacol rm then pad rm i c else col_data rm 0 ! i XOR pad rm i c)"
proof -
  note ok = rm_wfD [OF wf]
  have l: "col_words rm c \<le> length (col_data rm 0)" "col_words rm c \<le> length (col_data rm c)" "0 < length (rm_col rm)"
    using ok(1-3) ok(4,5) [OF c(2)] ok(6) [of 0] c by simp_all
  show "only_data {0} rm (gen_p_col c rm)"
    unfolding gen_p_col_def PQ_defs by (rule only_data_set) (use l in \<open>simp_all add: length_loop2\<close>)
  assume i: "i < col_words rm 0"
  then have il: "i < length (col_data rm 0)" using ok(2) ok(6) [of 0] by simp
  show "col_data (gen_p_col c rm) 0 ! i = (if c = rm_firstdatacol rm then pad rm i c else col_data rm 0 ! i XOR pad rm i c)"
    unfolding gen_p_col_def PQ_defs set_data_sel(5) [OF l(3)]
    using nth_loop2 [OF l(1,2) il] first i by (simp add: pad_def)
qed

lemma gen_p_fold:
  assumes wf: "rm_wf rm" and first: "col_words rm (rm_firstdatacol rm) = col_words rm 0"
  shows "rm_firstdatacol rm + k < rm_cols rm \<Longrightarrow>
    (let rm' = fold gen_p_col [rm_firstdatacol rm..<rm_firstdatacol rm + Suc k] rm in
      only_data {0} rm rm' \<and> (\<forall>i < col_words rm 0. col_data rm' 0 ! i = xors (pad rm i) [rm_firstdatacol rm..<rm_firstdatacol rm + Suc k]))"
proof (induction k)
  case 0
  then show ?case using gen_p_col_step [OF wf order_refl] first by simp
next
  case (Suc k)
  let ?f = "rm_firstdatacol rm" and ?c = "rm_firstdatacol rm + Suc k"
  define rm' where "rm' = fold gen_p_col [?f..<?f + Suc k] rm"
  have IH: "only_data {0} rm rm'" "\<And>i. i < col_words rm 0 \<Longrightarrow> col_data rm' 0 ! i = xors (pad rm i) [?f..<?f + Suc k]"
    using Suc unfolding Let_def rm'_def by simp_all
  note sel = only_data_sel [OF IH(1)] and ok = rm_wfD [OF wf]
  have wf': "rm_wf rm'" by (rule rm_wf_only_data [OF wf IH(1)])
  have st: "only_data {0} rm' (gen_p_col ?c rm')"
      "\<And>i. i < col_words rm' 0 \<Longrightarrow> col_data (gen_p_col ?c rm') 0 ! i = col_data rm' 0 ! i XOR pad rm' i ?c"
    using gen_p_col_step [OF wf', of ?c] Suc.prems unfolding sel by simp_all
  have w0: "col_words rm' 0 = col_words rm 0" using sel(4) [of 0] ok(1-3) by simp
  have pd: "pad rm' i ?c = pad rm i ?c" for i using pad_only_data [OF IH(1)] Suc.prems ok(1) by simp
  have e: "[?f..<?f + Suc (Suc k)] = [?f..<?f + Suc k] @ [?c]" by simp
  have F: "fold gen_p_col [?f..<?f + Suc (Suc k)] rm = gen_p_col ?c rm'" unfolding e fold_append rm'_def by simp
  show ?case unfolding Let_def F unfolding e xors_simps(2)
    using only_data_trans [OF IH(1) st(1)] st(2) IH(2) w0 pd by simp
qed

lemma up_to: "a < b \<Longrightarrow> \<exists>k. b = a + Suc k"
  using less_iff_Suc_add by simp

lemma generate_parity_p:
  assumes wf: "rm_wf rm" and first: "col_words rm (rm_firstdatacol rm) = col_words rm 0"
  defines "rm' \<equiv> vdev_raidz_generate_parity_p rm"
  shows "only_data {0} rm rm'"
    "i < col_words rm 0 \<Longrightarrow> col_data rm' 0 ! i = xors (pad rm i) [rm_firstdatacol rm..<rm_cols rm]"
proof -
  obtain k where k: "rm_cols rm = rm_firstdatacol rm + Suc k" using up_to [OF rm_wfD(3) [OF wf]] by blast
  from gen_p_fold [OF wf first, of k]
  have "only_data {0} rm rm' \<and> (\<forall>i < col_words rm 0. col_data rm' 0 ! i = xors (pad rm i) [rm_firstdatacol rm..<rm_cols rm])"
    unfolding rm'_def vdev_raidz_generate_parity_p_def Let_def k by simp
  then show "only_data {0} rm rm'"
    "i < col_words rm 0 \<Longrightarrow> col_data rm' 0 ! i = xors (pad rm i) [rm_firstdatacol rm..<rm_cols rm]" by blast+
qed

lemma gen_pq_col_step:
  assumes wf: "rm_wf rm" and fd: "1 < rm_firstdatacol rm" and c: "rm_firstdatacol rm \<le> c" "c < rm_cols rm"
  shows "only_data {0, 1} rm (gen_pq_col c rm)"
    "i < col_words rm 0 \<Longrightarrow> col_data (gen_pq_col c rm) 0 ! i =
       (if c = rm_firstdatacol rm then pad rm i c else col_data rm 0 ! i XOR pad rm i c)"
    "i < col_words rm 0 \<Longrightarrow> col_data (gen_pq_col c rm) 1 ! i =
       (if c = rm_firstdatacol rm then pad rm i c else mul2_word (col_data rm 1 ! i) XOR pad rm i c)"
proof -
  note ok = rm_wfD [OF wf]
  have z: "0 < length (rm_col rm)" "1 < length (rm_col rm)" using ok(1-3) fd by simp_all
  have l: "length (col_data rm 0) = col_words rm 0" "length (col_data rm 1) = col_words rm 0" using ok(6) [of 0] ok(6) [of 1] ok(2) fd by simp_all
  have n: "col_words rm c \<le> length (col_data rm 0)" "col_words rm c \<le> length (col_data rm 1)" "col_words rm c \<le> length (col_data rm c)"
    using l ok(4,5) [OF c(2)] by simp_all
  have D: "gen_pq_col c rm = set_data 1 (if c = rm_firstdatacol rm
        then loop1 (col_words rm c) (col_words rm 0) (\<lambda>_. 0) (loop2 (col_words rm c) (\<lambda>_ s. s) (col_data rm 1) (col_data rm c))
        else loop1 (col_words rm c) (col_words rm 0) mul2_word (loop2 (col_words rm c) (\<lambda>q s. mul2_word q XOR s) (col_data rm 1) (col_data rm c)))
      (set_data 0 (if c = rm_firstdatacol rm
        then loop1 (col_words rm c) (col_words rm 0) (\<lambda>_. 0) (loop2 (col_words rm c) (\<lambda>_ s. s) (col_data rm 0) (col_data rm c))
        else loop2 (col_words rm c) (\<lambda>p s. p XOR s) (col_data rm 0) (col_data rm c)) rm)"
    by (simp add: gen_pq_col_def PQ_defs Let_def)
  show "only_data {0, 1} rm (gen_pq_col c rm)"
    unfolding D by (rule only_data_trans; rule only_data_set) (use z n in \<open>auto simp: set_data_sel length_loop1 length_loop2\<close>)
  assume i: "i < col_words rm 0"
  have a: "i < length (col_data rm 0)" "i < length (col_data rm 1)" using i l by simp_all
  show "col_data (gen_pq_col c rm) 0 ! i = (if c = rm_firstdatacol rm then pad rm i c else col_data rm 0 ! i XOR pad rm i c)"
    unfolding D using i z a n by (cases "c = rm_firstdatacol rm") (simp_all add: set_data_sel length_loop2 nth_loop1 nth_loop2 pad_def)
  show "col_data (gen_pq_col c rm) 1 ! i = (if c = rm_firstdatacol rm then pad rm i c else mul2_word (col_data rm 1 ! i) XOR pad rm i c)"
    unfolding D using i z a n by (cases "c = rm_firstdatacol rm") (simp_all add: set_data_sel length_loop2 nth_loop1 nth_loop2 pad_def)
qed

lemma gen_pq_fold:
  assumes wf: "rm_wf rm" and fd: "1 < rm_firstdatacol rm"
  shows "rm_firstdatacol rm + k < rm_cols rm \<Longrightarrow>
    (let rm' = fold gen_pq_col [rm_firstdatacol rm..<rm_firstdatacol rm + Suc k] rm in
      only_data {0, 1} rm rm' \<and> (\<forall>i < col_words rm 0.
        col_data rm' 0 ! i = xors (pad rm i) [rm_firstdatacol rm..<rm_firstdatacol rm + Suc k] \<and>
        col_data rm' 1 ! i = horner (pad rm i) [rm_firstdatacol rm..<rm_firstdatacol rm + Suc k]))"
proof (induction k)
  case 0
  then show ?case using gen_pq_col_step [OF wf fd order_refl] by simp
next
  case (Suc k)
  let ?f = "rm_firstdatacol rm" and ?c = "rm_firstdatacol rm + Suc k"
  define rm' where "rm' = fold gen_pq_col [?f..<?f + Suc k] rm"
  have IH: "only_data {0, 1} rm rm'" "\<And>i. i < col_words rm 0 \<Longrightarrow> col_data rm' 0 ! i = xors (pad rm i) [?f..<?f + Suc k]"
      "\<And>i. i < col_words rm 0 \<Longrightarrow> col_data rm' 1 ! i = horner (pad rm i) [?f..<?f + Suc k]"
    using Suc unfolding Let_def rm'_def by simp_all
  note sel = only_data_sel [OF IH(1)] and ok = rm_wfD [OF wf]
  have wf': "rm_wf rm'" by (rule rm_wf_only_data [OF wf IH(1)])
  have st: "only_data {0, 1} rm' (gen_pq_col ?c rm')"
      "\<And>i. i < col_words rm' 0 \<Longrightarrow> col_data (gen_pq_col ?c rm') 0 ! i = col_data rm' 0 ! i XOR pad rm' i ?c"
      "\<And>i. i < col_words rm' 0 \<Longrightarrow> col_data (gen_pq_col ?c rm') 1 ! i = mul2_word (col_data rm' 1 ! i) XOR pad rm' i ?c"
    using gen_pq_col_step [OF wf', of ?c] Suc.prems fd unfolding sel by simp_all
  have w0: "col_words rm' 0 = col_words rm 0" using sel(4) [of 0] ok(1-3) by simp
  have pd: "pad rm' i ?c = pad rm i ?c" for i using pad_only_data [OF IH(1)] Suc.prems ok(1) fd by simp
  have e: "[?f..<?f + Suc (Suc k)] = [?f..<?f + Suc k] @ [?c]" by simp
  have F: "fold gen_pq_col [?f..<?f + Suc (Suc k)] rm = gen_pq_col ?c rm'" unfolding e fold_append rm'_def by simp
  show ?case unfolding Let_def F unfolding e xors_simps(2) horner_simps(2)
    using only_data_trans [OF IH(1) st(1)] st(2,3) IH(2,3) w0 pd by simp
qed

lemma generate_parity_pq:
  assumes wf: "rm_wf rm" and fd: "1 < rm_firstdatacol rm"
  defines "rm' \<equiv> vdev_raidz_generate_parity_pq rm"
  shows "only_data {0, 1} rm rm'"
    "i < col_words rm 0 \<Longrightarrow> col_data rm' 0 ! i = xors (pad rm i) [rm_firstdatacol rm..<rm_cols rm]"
    "i < col_words rm 0 \<Longrightarrow> col_data rm' 1 ! i = horner (pad rm i) [rm_firstdatacol rm..<rm_cols rm]"
proof -
  obtain k where k: "rm_cols rm = rm_firstdatacol rm + Suc k" using up_to [OF rm_wfD(3) [OF wf]] by blast
  from gen_pq_fold [OF wf fd, of k]
  have "only_data {0, 1} rm rm' \<and> (\<forall>i < col_words rm 0. col_data rm' 0 ! i = xors (pad rm i) [rm_firstdatacol rm..<rm_cols rm] \<and>
      col_data rm' 1 ! i = horner (pad rm i) [rm_firstdatacol rm..<rm_cols rm])"
    unfolding rm'_def vdev_raidz_generate_parity_pq_def Let_def k by simp
  then show "only_data {0, 1} rm rm'"
    "i < col_words rm 0 \<Longrightarrow> col_data rm' 0 ! i = xors (pad rm i) [rm_firstdatacol rm..<rm_cols rm]"
    "i < col_words rm 0 \<Longrightarrow> col_data rm' 1 ! i = horner (pad rm i) [rm_firstdatacol rm..<rm_cols rm]" by blast+
qed

section \<open>Reconstruction of one column\<close>

lemma xors_split: "a \<le> x \<Longrightarrow> xors f [a..<m] = xors (f(x := 0)) [a..<m] XOR (if x < m then f x else 0)"
proof (induction m)
  case (Suc m)
  show ?case
  proof (cases "a \<le> m")
    case True
    then have "[a..<Suc m] = [a..<m] @ [m]" by simp
    with Suc show ?thesis by (simp add: xor.commute xor.left_commute less_Suc_eq)
  qed (use Suc.prems in simp)
qed simp

lemma xors_cong: "(\<And>c. c \<in> set cs \<Longrightarrow> f c = g c) \<Longrightarrow> xors f cs = xors g cs"
  unfolding xors_def by (rule fold_cong) simp_all

lemma horner_cong: "(\<And>c. c \<in> set cs \<Longrightarrow> f c = g c) \<Longrightarrow> horner f cs = horner g cs"
  unfolding horner_def by (rule fold_cong) simp_all

lemma horner_split:
  "a \<le> x \<Longrightarrow> horner f [a..<m] = horner (f(x := 0)) [a..<m] XOR (if x < m then (mul2_word ^^ (m - 1 - x)) (f x) else 0)"
proof (induction m)
  case (Suc m)
  show ?case
  proof (cases "a \<le> m")
    case True
    then have e: "[a..<Suc m] = [a..<m] @ [m]" by simp
    show ?thesis
    proof (cases "x < m")
      case True
      then have "m - x = Suc (m - 1 - x)" by simp
      then have "(mul2_word ^^ (m - x)) (f x) = mul2_word ((mul2_word ^^ (m - 1 - x)) (f x))" by simp
      with Suc True show ?thesis unfolding e horner_simps(2) by (simp add: mul2_word_xor xor.commute xor.left_commute fun_upd_def)
    next
      case False
      with Suc show ?thesis unfolding e horner_simps(2) by (cases "x = m") (simp_all add: mul2_word_xor fun_upd_def)
    qed
  qed (use Suc.prems in simp)
qed simp

lemma rec_p_col_step:
  assumes wf: "rm_wf rm" and c: "c < rm_cols rm" and x: "x < rm_cols rm"
  shows "only_data {x} rm (rec_p_col x c rm)"
    "i < col_words rm x \<Longrightarrow> col_data (rec_p_col x c rm) x ! i =
       col_data rm x ! i XOR (if c = x then 0 else pad rm i c)"
proof -
  note ok = rm_wfD [OF wf]
  have l: "min (col_words rm c) (col_words rm x) \<le> length (col_data rm x)" "min (col_words rm c) (col_words rm x) \<le> length (col_data rm c)"
      "x < length (rm_col rm)" "col_words rm x \<le> length (col_data rm x)"
    using ok(1) ok(4) [OF c] ok(4) [OF x] x by auto
  show "only_data {x} rm (rec_p_col x c rm)"
    unfolding rec_p_col_def using only_data_set [OF l(3) length_loop2 [OF l(1,2)]] by simp
  assume i: "i < col_words rm x"
  then have il: "i < length (col_data rm x)" using l(4) by simp
  show "col_data (rec_p_col x c rm) x ! i = col_data rm x ! i XOR (if c = x then 0 else pad rm i c)"
    unfolding rec_p_col_def using l(3) nth_loop2 [OF l(1,2) il] i by (simp add: pad_def set_data_sel)
qed

lemma rec_p_fold:
  assumes wf: "rm_wf rm" and x: "rm_firstdatacol rm \<le> x" "x < rm_cols rm"
  shows "rm_firstdatacol rm + k \<le> rm_cols rm \<Longrightarrow>
    (let rm' = fold (rec_p_col x) [rm_firstdatacol rm..<rm_firstdatacol rm + k] rm in
      only_data {x} rm rm' \<and> (\<forall>i < col_words rm x.
        col_data rm' x ! i = col_data rm x ! i XOR xors ((pad rm i)(x := 0)) [rm_firstdatacol rm..<rm_firstdatacol rm + k]))"
proof (induction k)
  case (Suc k)
  let ?f = "rm_firstdatacol rm" and ?c = "rm_firstdatacol rm + k"
  define rm' where "rm' = fold (rec_p_col x) [?f..<?c] rm"
  have IH: "only_data {x} rm rm'" "\<And>i. i < col_words rm x \<Longrightarrow> col_data rm' x ! i = col_data rm x ! i XOR xors ((pad rm i)(x := 0)) [?f..<?c]"
    using Suc unfolding Let_def rm'_def by simp_all
  note sel = only_data_sel [OF IH(1)] and ok = rm_wfD [OF wf]
  have wf': "rm_wf rm'" by (rule rm_wf_only_data [OF wf IH(1)])
  have st: "only_data {x} rm' (rec_p_col x ?c rm')"
      "\<And>i. i < col_words rm' x \<Longrightarrow> col_data (rec_p_col x ?c rm') x ! i = col_data rm' x ! i XOR (if ?c = x then 0 else pad rm' i ?c)"
    using rec_p_col_step [OF wf', of ?c x] Suc.prems x unfolding sel by simp_all
  have w: "col_words rm' x = col_words rm x" using sel(4) [of x] ok(1) x by simp
  have pd: "?c \<noteq> x \<Longrightarrow> pad rm' i ?c = pad rm i ?c" for i using pad_only_data [OF IH(1)] Suc.prems ok(1) by simp
  have e: "[?f..<?f + Suc k] = [?f..<?c] @ [?c]" by simp
  have F: "fold (rec_p_col x) [?f..<?f + Suc k] rm = rec_p_col x ?c rm'" unfolding e fold_append rm'_def by simp
  show ?case unfolding Let_def F unfolding e xors_simps(2)
    using only_data_trans [OF IH(1) st(1)] st(2) IH(2) w pd by (auto simp: xor.assoc)
qed simp

lemma reconstruct_p:
  assumes wf: "rm_wf rm" and x: "rm_firstdatacol rm \<le> x" "x < rm_cols rm"
  defines "rm' \<equiv> vdev_raidz_reconstruct_p x rm"
  shows "only_data {x} rm rm'"
    "i < col_words rm x \<Longrightarrow> col_data rm' x ! i = col_data rm 0 ! i XOR xors ((pad rm i)(x := 0)) [rm_firstdatacol rm..<rm_cols rm]"
proof -
  note ok = rm_wfD [OF wf]
  let ?d = "loop2 (col_words rm x) (\<lambda>_ s. s) (col_data rm x) (col_data rm 0)"
  let ?r = "set_data x ?d rm"
  obtain k where k: "rm_cols rm = rm_firstdatacol rm + k" using le_Suc_ex [OF less_imp_le [OF ok(3)]] by blast
  have l: "col_words rm x \<le> length (col_data rm x)" "col_words rm x \<le> length (col_data rm 0)" "x < length (rm_col rm)"
    using ok(1,2) ok(4,5) [OF x(2)] ok(6) [of 0] x by simp_all
  have od: "only_data {x} rm ?r" by (rule only_data_set [OF l(3) length_loop2 [OF l(1,2)]]) simp
  have wf': "rm_wf ?r" by (rule rm_wf_only_data [OF wf od])
  have E: "rm' = fold (rec_p_col x) [rm_firstdatacol ?r..<rm_firstdatacol ?r + k] ?r"
    unfolding rm'_def vdev_raidz_reconstruct_p_def PQ_defs by (simp add: set_data_sel k)
  have F: "only_data {x} ?r rm' \<and> (\<forall>i < col_words ?r x. col_data rm' x ! i = col_data ?r x ! i XOR
      xors ((pad ?r i)(x := 0)) [rm_firstdatacol ?r..<rm_firstdatacol ?r + k])"
    unfolding E by (rule rec_p_fold [OF wf', unfolded Let_def]) (use x k in \<open>simp_all only: set_data_sel\<close>)
  have P: "xors ((pad ?r i)(x := 0)) [rm_firstdatacol rm..<rm_cols rm] = xors ((pad rm i)(x := 0)) [rm_firstdatacol rm..<rm_cols rm]" for i
    using pad_only_data [OF od] ok(1) by (intro xors_cong) auto
  show "only_data {x} rm rm'" using only_data_trans [OF od] F by blast
  assume i: "i < col_words rm x"
  then have "i < length (col_data rm x)" using l by simp
  then have "col_data ?r x ! i = col_data rm 0 ! i" using i l nth_loop2 [OF l(1,2)] by (simp add: set_data_sel)
  moreover have "i < col_words ?r x" using i l by (simp add: set_data_sel)
  ultimately show "col_data rm' x ! i = col_data rm 0 ! i XOR xors ((pad rm i)(x := 0)) [rm_firstdatacol rm..<rm_cols rm]"
    using F P [of i] unfolding k set_data_sel(2) by simp
qed

lemma rec_q_col_step:
  assumes wf: "rm_wf rm" and c: "c < rm_cols rm" and x: "x < rm_cols rm"
  shows "only_data {x} rm (rec_q_col x c rm)"
    "i < col_words rm x \<Longrightarrow> col_data (rec_q_col x c rm) x ! i =
       (if c = rm_firstdatacol rm then 0 else mul2_word (col_data rm x ! i)) XOR (if c = x then 0 else pad rm i c)"
proof -
  note ok = rm_wfD [OF wf]
  define n where "n = min (if c = x then 0 else col_words rm c) (col_words rm x)"
  have l: "n \<le> length (col_data rm x)" "n \<le> length (col_data rm c)"
      "x < length (rm_col rm)" "col_words rm x \<le> length (col_data rm x)"
    using ok(1) ok(4) [OF c] ok(4) [OF x] x by (auto simp: n_def)
  have D: "rec_q_col x c rm = set_data x (if c = rm_firstdatacol rm
      then loop1 n (col_words rm x) (\<lambda>_. 0) (loop2 n (\<lambda>_ s. s) (col_data rm x) (col_data rm c))
      else loop1 n (col_words rm x) mul2_word (loop2 n (\<lambda>d s. mul2_word d XOR s) (col_data rm x) (col_data rm c))) rm"
    by (simp add: rec_q_col_def Let_def n_def)
  show "only_data {x} rm (rec_q_col x c rm)"
    unfolding D by (rule only_data_set [OF l(3)]) (use l(1,2) in \<open>auto simp: length_loop1 length_loop2\<close>)
  assume i: "i < col_words rm x"
  then have il: "i < length (col_data rm x)" using l(4) by simp
  have pd: "(if c = x then 0 else pad rm i c) = (if i < n then col_data rm c ! i else 0)" using i by (simp add: n_def pad_def)
  show "col_data (rec_q_col x c rm) x ! i =
      (if c = rm_firstdatacol rm then 0 else mul2_word (col_data rm x ! i)) XOR (if c = x then 0 else pad rm i c)"
    unfolding D pd using l(1-3) il i by (cases "c = rm_firstdatacol rm")
      (simp_all add: set_data_sel nth_loop1 length_loop2 nth_loop2)
qed

lemma rec_q_fold:
  assumes wf: "rm_wf rm" and x: "rm_firstdatacol rm \<le> x" "x < rm_cols rm"
  shows "rm_firstdatacol rm + k < rm_cols rm \<Longrightarrow>
    (let rm' = fold (rec_q_col x) [rm_firstdatacol rm..<rm_firstdatacol rm + Suc k] rm in
      only_data {x} rm rm' \<and> (\<forall>i < col_words rm x.
        col_data rm' x ! i = horner ((pad rm i)(x := 0)) [rm_firstdatacol rm..<rm_firstdatacol rm + Suc k]))"
proof (induction k)
  case 0
  then show ?case using rec_q_col_step [OF wf, of "rm_firstdatacol rm" x] x by (auto simp: fun_upd_def)
next
  case (Suc k)
  let ?f = "rm_firstdatacol rm" and ?c = "rm_firstdatacol rm + Suc k"
  define rm' where "rm' = fold (rec_q_col x) [?f..<?c] rm"
  have IH: "only_data {x} rm rm'" "\<And>i. i < col_words rm x \<Longrightarrow> col_data rm' x ! i = horner ((pad rm i)(x := 0)) [?f..<?c]"
    using Suc unfolding Let_def rm'_def by simp_all
  note sel = only_data_sel [OF IH(1)] and ok = rm_wfD [OF wf]
  have wf': "rm_wf rm'" by (rule rm_wf_only_data [OF wf IH(1)])
  have st: "only_data {x} rm' (rec_q_col x ?c rm')"
      "\<And>i. i < col_words rm' x \<Longrightarrow> col_data (rec_q_col x ?c rm') x ! i = mul2_word (col_data rm' x ! i) XOR (if ?c = x then 0 else pad rm' i ?c)"
    using rec_q_col_step [OF wf', of ?c x] Suc.prems x unfolding sel by simp_all
  have w: "col_words rm' x = col_words rm x" using sel(4) [of x] ok(1) x by simp
  have pd: "(if ?c = x then 0 else pad rm' i ?c) = ((pad rm i)(x := 0)) ?c" for i
    using pad_only_data [OF IH(1), of ?c] Suc.prems ok(1) by simp
  have e: "[?f..<?f + Suc (Suc k)] = [?f..<?c] @ [?c]" by simp
  have F: "fold (rec_q_col x) [?f..<?f + Suc (Suc k)] rm = rec_q_col x ?c rm'" unfolding e fold_append rm'_def by simp
  show ?case unfolding Let_def F unfolding e horner_simps(2)
    using only_data_trans [OF IH(1) st(1)] st(2) [unfolded w pd] IH(2) by (auto simp del: fun_upd_apply)
qed

lemma reconstruct_q:
  assumes wf: "rm_wf rm" and x: "rm_firstdatacol rm \<le> x" "x < rm_cols rm" and fd: "1 < rm_firstdatacol rm" and n: "rm_cols rm \<le> 256"
  defines "rm' \<equiv> vdev_raidz_reconstruct_q x rm"
  shows "only_data {x} rm rm'"
    "i < col_words rm x \<Longrightarrow> col_data rm' x ! i = (mul2_word ^^ (255 - (rm_cols rm - 1 - x)))
      (horner ((pad rm i)(x := 0)) [rm_firstdatacol rm..<rm_cols rm] XOR col_data rm 1 ! i)"
proof -
  note ok = rm_wfD [OF wf]
  let ?e = "255 - (rm_cols rm - 1 - x)" and ?f = "\<lambda>e d s. bytewise (\<lambda>b _. vdev_raidz_exp2 b e) (d XOR s) 0"
  define r where "r = fold (rec_q_col x) [rm_firstdatacol rm..<rm_cols rm] rm"
  obtain k where k: "rm_cols rm = rm_firstdatacol rm + Suc k" using up_to [OF ok(3)] by blast
  have od: "only_data {x} rm r" and h: "\<And>i. i < col_words rm x \<Longrightarrow> col_data r x ! i = horner ((pad rm i)(x := 0)) [rm_firstdatacol rm..<rm_cols rm]"
    using rec_q_fold [OF wf x, of k] unfolding r_def Let_def k by simp_all
  note sel = only_data_sel [OF od]
  have l: "col_words rm x \<le> length (col_data r x)" "col_words rm x \<le> length (col_data r 1)" "x < length (rm_col rm)" "1 < length (rm_col rm)"
    using sel(6) [of x] sel(6) [of 1] ok(1-3) ok(4,5) [OF x(2)] ok(6) [OF fd] x fd by simp_all
  have E: "rm' = set_data x (loop2 (col_words rm x) (?f ?e) (col_data r x) (col_data r 1)) r"
    unfolding rm'_def vdev_raidz_reconstruct_q_def PQ_defs r_def [symmetric] by (simp add: Let_def)
  have od': "only_data {x} r rm'"
    unfolding E by (rule only_data_set) (use l sel(3) in \<open>simp_all add: length_loop2\<close>)
  show "only_data {x} rm rm'" by (rule only_data_trans [OF od od'])
  assume i: "i < col_words rm x"
  then have il: "i < length (col_data r x)" using l by simp
  have q: "col_data r 1 = col_data rm 1" using sel(5) [of 1] l fd x by simp
  have b: "?f ?e d s = (mul2_word ^^ ?e) (d XOR s)" for d s
    by (rule bytes_eqI) (simp add: byte_bytewise exp2_iter byte_iter_word)
  show "col_data rm' x ! i = (mul2_word ^^ ?e) (horner ((pad rm i)(x := 0)) [rm_firstdatacol rm..<rm_cols rm] XOR col_data rm 1 ! i)"
    unfolding E using nth_loop2 [OF l(1,2) il, of "?f ?e"] i l(3) sel(3) unfolding b h [OF i] q by (simp add: set_data_sel(5))
qed

section \<open>Reconstruction of two columns\<close>

text \<open>The algebra of two missing columns, on the bytes of a word.\<close>

lemma xor_eq_0: "(v :: 'a::len word) XOR w = 0 \<longleftrightarrow> v = w"
  by (auto simp: bit_eq_iff bit_simps)

lemma iter_eqI:
  assumes "(mul2 ^^ i) 1 = (mul2 ^^ j) 1"
  shows "(mul2 ^^ i) z = (mul2 ^^ j) z"
proof (cases "z = 0")
  case False
  then obtain k where "z = (mul2 ^^ k) 1" using log2_iter by metis
  then show ?thesis using assms by (metis iter_add add.commute)
qed (simp add: iter_0)

lemma log_of_exp2:
  assumes "i \<le> 255" "t \<le> 255"
  shows "unat (vdev_raidz_log2 ! unat (vdev_raidz_exp2 (vdev_raidz_pow2 ! i) t)) < 255"
    "(mul2 ^^ unat (vdev_raidz_log2 ! unat (vdev_raidz_exp2 (vdev_raidz_pow2 ! i) t))) z = (mul2 ^^ (t + i)) z"
proof -
  let ?a = "vdev_raidz_exp2 (vdev_raidz_pow2 ! i) t"
  have a: "?a = (mul2 ^^ (t + i)) 1" using assms by (simp add: exp2_iter pow2_iter iter_add)
  have "?a \<noteq> 0"
  proof
    assume "?a = 0"
    then have "(mul2 ^^ (255 - i)) ((mul2 ^^ (255 - t)) ((mul2 ^^ (t + i)) 1)) = 0" unfolding a by (simp add: iter_0)
    moreover have "255 - i + (255 - t + (t + i)) = 255 + 255" using assms by simp
    ultimately have "(mul2 ^^ 255) ((mul2 ^^ 255) 1) = 0" unfolding iter_add by (simp only:)
    then show False unfolding iter_255 by simp
  qed
  note lg = log2_iter [OF this]
  show "unat (vdev_raidz_log2 ! unat ?a) < 255" using lg by blast
  show "(mul2 ^^ unat (vdev_raidz_log2 ! unat ?a)) z = (mul2 ^^ (t + i)) z"
    by (rule iter_eqI) (use lg a in simp)
qed

lemma solve_two:
  assumes x: "x < y" "y < n" "n \<le> 256" and gap: "y - x < 255"
  defines "a \<equiv> vdev_raidz_pow2 ! (255 + x - y)" and "b \<equiv> vdev_raidz_pow2 ! (255 - (n - 1 - x))"
  defines "tmp \<equiv> 255 - unat (vdev_raidz_log2 ! unat (a XOR 1))"
  shows "vdev_raidz_exp2 (u XOR v) (unat (vdev_raidz_log2 ! unat (vdev_raidz_exp2 a tmp))) XOR
      vdev_raidz_exp2 ((mul2 ^^ (n - 1 - x)) u XOR (mul2 ^^ (n - 1 - y)) v) (unat (vdev_raidz_log2 ! unat (vdev_raidz_exp2 b tmp))) = u"
proof -
  let ?e = "255 + x - y" and ?E = "255 - (n - 1 - x)"
  define L where "L = unat (vdev_raidz_log2 ! unat (a XOR 1))"
  have e: "?e \<le> 255" "0 < ?e" "?e < 255" "?E \<le> 255" "tmp \<le> 255" using x gap by (simp_all add: tmp_def)
  have a: "a = (mul2 ^^ ?e) 1" unfolding a_def by (rule pow2_iter [OF e(1)])
  have "a XOR 1 \<noteq> 0" using pow2_eq_1 [OF e(2,3)] unfolding a xor_eq_0 .
  from log2_iter [OF this] have L: "L < 255" "(mul2 ^^ L) 1 = 1 XOR (mul2 ^^ ?e) 1" unfolding L_def [symmetric] by (simp_all add: a xor.commute)
  note A = log_of_exp2 [OF e(1,5), folded a_def] and B = log_of_exp2 [OF e(4,5), folded b_def]
  have "?E + (n - 1 - x) = 255" "?E + (n - 1 - y) = ?e" using x by simp_all
  then have B': "(mul2 ^^ ?E) ((mul2 ^^ (n - 1 - x)) u XOR (mul2 ^^ (n - 1 - y)) v) = u XOR (mul2 ^^ ?e) v"
    unfolding iter_xor iter_add by (simp only: iter_255)
  have "vdev_raidz_exp2 (u XOR v) (unat (vdev_raidz_log2 ! unat (vdev_raidz_exp2 a tmp))) XOR
      vdev_raidz_exp2 ((mul2 ^^ (n - 1 - x)) u XOR (mul2 ^^ (n - 1 - y)) v) (unat (vdev_raidz_log2 ! unat (vdev_raidz_exp2 b tmp))) =
      (mul2 ^^ (tmp + ?e)) (u XOR v) XOR (mul2 ^^ (tmp + ?E)) ((mul2 ^^ (n - 1 - x)) u XOR (mul2 ^^ (n - 1 - y)) v)"
    unfolding exp2_iter [OF less_imp_le [OF A(1)]] exp2_iter [OF less_imp_le [OF B(1)]] A(2) B(2) by (rule refl)
  also have "\<dots> = (mul2 ^^ tmp) ((mul2 ^^ ?e) (u XOR v) XOR (u XOR (mul2 ^^ ?e) v))"
    unfolding iter_add [symmetric] unfolding B' unfolding iter_xor by (rule refl)
  also have "(mul2 ^^ ?e) (u XOR v) XOR (u XOR (mul2 ^^ ?e) v) = u XOR (mul2 ^^ ?e) u"
    unfolding iter_xor by (rule bit_eqI) (auto simp: bit_simps)
  also have "\<dots> = (mul2 ^^ L) u" using one_plus_power [OF L(2), of u] by simp
  also have "(mul2 ^^ tmp) \<dots> = (mul2 ^^ 255) u"
    using L(1) unfolding iter_add tmp_def L_def [symmetric] by (simp only: le_add_diff_inverse2 less_imp_le)
  also have "\<dots> = u" by (rule iter_255)
  finally show ?thesis .
qed

lemma only_data_erase:
  assumes "only_data S rm rm'" "c < length (rm_col rm)"
  shows "(rm_col rm' ! c)\<lparr>rc_data := d\<rparr> = (rm_col rm ! c)\<lparr>rc_data := d\<rparr>"
  by (rule erase_data(3)) (use assms in \<open>simp add: only_data_def\<close>)

text \<open>
  The map while the parity of the other columns is computed: columns \<open>x\<close> and \<open>y\<close> empty,
  fresh parity buffers.
\<close>

definition hide_two :: "(nat \<Rightarrow> nat \<Rightarrow> u64 list) \<Rightarrow> nat \<Rightarrow> nat \<Rightarrow> raidz_map \<Rightarrow> raidz_map" where
  "hide_two zio_buf_alloc x y rm =
     set_size y 0 (set_size x 0 (set_data 1 (zio_buf_alloc 1 (col_words rm 1)) (set_data 0 (zio_buf_alloc 0 (col_words rm 0)) rm)))"

lemma hide_two_sel:
  fixes zio_buf_alloc :: "nat \<Rightarrow> nat \<Rightarrow> u64 list"
  assumes "rm_ok rm" "1 < rm_firstdatacol rm" "rm_firstdatacol rm \<le> x" "x < y" "y < rm_cols rm"
  defines "h \<equiv> hide_two zio_buf_alloc x y rm"
  shows "rm_cols h = rm_cols rm" "rm_firstdatacol h = rm_firstdatacol rm" "length (rm_col h) = rm_cols rm"
    "c < rm_cols rm \<Longrightarrow> rm_col h ! c =
       (if c = x \<or> c = y then (rm_col rm ! c)\<lparr>rc_size := 0\<rparr>
        else if c = 0 \<or> c = 1 then (rm_col rm ! c)\<lparr>rc_data := zio_buf_alloc c (col_words rm c)\<rparr> else rm_col rm ! c)"
proof -
  have l: "length (rm_col rm) = rm_cols rm" by (rule rm_wfD(1) [OF rm_okD(1) [OF assms(1)]])
  then show "rm_cols h = rm_cols rm" "rm_firstdatacol h = rm_firstdatacol rm" "length (rm_col h) = rm_cols rm"
    by (simp_all add: h_def hide_two_def set_size_def set_data_def)
  assume "c < rm_cols rm"
  then show "rm_col h ! c = (if c = x \<or> c = y then (rm_col rm ! c)\<lparr>rc_size := 0\<rparr>
      else if c = 0 \<or> c = 1 then (rm_col rm ! c)\<lparr>rc_data := zio_buf_alloc c (col_words rm c)\<rparr> else rm_col rm ! c)"
    using assms l by (auto simp: h_def hide_two_def set_size_def set_data_def nth_list_update)
qed

lemma hide_two_wf:
  assumes ok: "rm_ok rm" and fd: "1 < rm_firstdatacol rm" "rm_firstdatacol rm \<le> x" "x < y" "y < rm_cols rm"
    and buf: "\<And>c n. length (zio_buf_alloc c n) = n"
  shows "rm_wf (hide_two zio_buf_alloc x y rm)"
proof -
  note h = hide_two_sel [where zio_buf_alloc = zio_buf_alloc, OF ok fd]
  note len = rm_okD(2) [OF ok] and w = rm_wfD [OF rm_okD(1) [OF ok]]
  have z: "0 < rm_cols rm" using w(2,3) by simp
  have w0: "col_words (hide_two zio_buf_alloc x y rm) 0 = col_words rm 0" using h(4) [OF z] fd by simp
  show ?thesis unfolding rm_wf_def h(1-3) w0
  proof (intro conjI allI impI)
    fix c assume c: "c < rm_cols rm"
    show "col_words (hide_two zio_buf_alloc x y rm) c \<le> length (col_data (hide_two zio_buf_alloc x y rm) c)"
      using len [OF c] h(4) [OF c] buf by simp
    show "col_words (hide_two zio_buf_alloc x y rm) c \<le> col_words rm 0" using w(5) [OF c] h(4) [OF c] by simp
    assume "c < rm_firstdatacol rm"
    with w(6) [OF this] h(4) [OF c] buf len [OF c] fd
    show "length (col_data (hide_two zio_buf_alloc x y rm) c) = col_words rm 0"
      "col_words (hide_two zio_buf_alloc x y rm) c = col_words rm 0" by (auto split: if_splits)
  qed (use w(2,3) in auto)
qed

lemma xor_cancel: "((h XOR a) XOR b) XOR h = b XOR (a :: 'a::len word)"
  by (rule bit_eqI) (auto simp: bit_simps)

lemma xors_split2:
  assumes "a \<le> x" "x < y" "y < m"
  shows "xors f [a..<m] XOR xors (f(x := 0, y := 0)) [a..<m] = f x XOR f y"
proof -
  have "xors f [a..<m] = (xors (f(x := 0, y := 0)) [a..<m] XOR f y) XOR f x"
    using xors_split [of a x f m] xors_split [of a y "f(x := 0)" m] assms by (simp del: fun_upd_apply) simp
  then show ?thesis by (simp only: xor_cancel)
qed

lemma horner_split2:
  assumes "a \<le> x" "x < y" "y < m"
  shows "horner f [a..<m] XOR horner (f(x := 0, y := 0)) [a..<m] = (mul2_word ^^ (m - 1 - x)) (f x) XOR (mul2_word ^^ (m - 1 - y)) (f y)"
proof -
  have "horner f [a..<m] = (horner (f(x := 0, y := 0)) [a..<m] XOR (mul2_word ^^ (m - 1 - y)) (f y)) XOR (mul2_word ^^ (m - 1 - x)) (f x)"
    using horner_split [of a x f m] horner_split [of a y "f(x := 0)" m] assms by (simp del: fun_upd_apply) simp
  then show ?thesis by (simp only: xor_cancel)
qed

lemma hide_two_parity:
  assumes ok: "rm_ok rm" and fd: "1 < rm_firstdatacol rm" "rm_firstdatacol rm \<le> x" "x < y" "y < rm_cols rm"
    and buf: "\<And>c n. length (zio_buf_alloc c n) = n"
    and good: "only_data {x, y} g rm" "parity_ok g" and i: "i < col_words rm 0"
  defines "h \<equiv> vdev_raidz_generate_parity_pq (hide_two zio_buf_alloc x y rm)"
  shows "col_data rm 0 ! i XOR col_data h 0 ! i = pad g i x XOR pad g i y"
    "col_data rm 1 ! i XOR col_data h 1 ! i =
       (mul2_word ^^ (rm_cols rm - 1 - x)) (pad g i x) XOR (mul2_word ^^ (rm_cols rm - 1 - y)) (pad g i y)"
proof -
  let ?h = "hide_two zio_buf_alloc x y rm" and ?cs = "[rm_firstdatacol rm..<rm_cols rm]"
  note hs = hide_two_sel [where zio_buf_alloc = zio_buf_alloc, OF ok fd] and sel = only_data_sel [OF good(1)]
  have l: "length (rm_col rm) = rm_cols rm" "0 < rm_cols rm" "1 < rm_cols rm" using rm_wfD(1) [OF rm_okD(1) [OF ok]] fd by auto
  have w0: "col_words ?h 0 = col_words rm 0" using hs(4) [OF l(2)] fd by simp
  have pd: "pad ?h i c = ((pad g i)(x := 0, y := 0)) c" if "c \<in> set ?cs" for c
    using that hs(4) [of c] sel(3) sel(5) [of c] l fd by (auto simp: pad_def)
  have X: "xors (pad ?h i) ?cs = xors ((pad g i)(x := 0, y := 0)) ?cs" "horner (pad ?h i) ?cs = horner ((pad g i)(x := 0, y := 0)) ?cs"
    using pd by (intro xors_cong horner_cong; blast)+
  note G = generate_parity_pq [OF hide_two_wf [where zio_buf_alloc = zio_buf_alloc, OF ok fd buf], unfolded hs(1,2) w0, OF fd(1), folded h_def]
  have gp: "col_data rm 0 ! i = xors (pad g i) ?cs" "col_data rm 1 ! i = horner (pad g i) ?cs"
    using good(2) i sel(1-3) sel(4) [of 0] sel(5) [of 0] sel(5) [of 1] l fd unfolding parity_ok_def parity_p_ok_def parity_q_ok_def by auto
  show "col_data rm 0 ! i XOR col_data h 0 ! i = pad g i x XOR pad g i y"
    unfolding G(2) [OF i] X gp by (rule xors_split2) (use fd in auto)
  show "col_data rm 1 ! i XOR col_data h 1 ! i =
       (mul2_word ^^ (rm_cols rm - 1 - x)) (pad g i x) XOR (mul2_word ^^ (rm_cols rm - 1 - y)) (pad g i y)"
    unfolding G(3) [OF i] X gp by (rule horner_split2) (use fd in auto)
qed

definition two_data :: "nat \<Rightarrow> nat \<Rightarrow> nat \<Rightarrow> u64 \<Rightarrow> u64 \<Rightarrow> u64" where
  \<comment> \<open>the word of column \<open>x\<close> that the two sums determine\<close>
  "two_data n x y =
     (let a = vdev_raidz_pow2 ! (255 + x - y); b = vdev_raidz_pow2 ! (255 - (n - 1 - x));
          tmp = 255 - unat (vdev_raidz_log2 ! unat (a XOR 1))
      in bytewise (\<lambda>p q. vdev_raidz_exp2 p (unat (vdev_raidz_log2 ! unat (vdev_raidz_exp2 a tmp))) XOR
           vdev_raidz_exp2 q (unat (vdev_raidz_log2 ! unat (vdev_raidz_exp2 b tmp)))))"

lemma two_data:
  assumes "x < y" "y < n" "n \<le> 256" "y - x < 255"
  shows "two_data n x y (u XOR v) ((mul2_word ^^ (n - 1 - x)) u XOR (mul2_word ^^ (n - 1 - y)) v) = u"
  unfolding two_data_def Let_def
  by (rule bytes_eqI) (simp only: byte_bytewise byte_of_xor byte_iter_word solve_two [OF assms])

lemma reconstruct_pq_frame:
  assumes ok: "rm_ok rm" and fd: "1 < rm_firstdatacol rm" "rm_firstdatacol rm \<le> x" "x < y" "y < rm_cols rm"
    and buf: "\<And>c n. length (zio_buf_alloc c n) = n" and le: "rc_size (rm_col rm ! y) \<le> rc_size (rm_col rm ! x)"
  defines "h \<equiv> vdev_raidz_generate_parity_pq (hide_two zio_buf_alloc x y rm)"
  defines "pp \<equiv> map2 (XOR) (col_data rm 0) (col_data h 0)" and "qq \<equiv> map2 (XOR) (col_data rm 1) (col_data h 1)"
  defines "xd \<equiv> map2 (two_data (rm_cols rm) x y) pp qq"
  shows "vdev_raidz_reconstruct_pq zio_buf_alloc x y rm =
    set_data y (loop2 (col_words rm y) (\<lambda>_ s. s) (col_data rm y) (map2 (XOR) pp xd))
      (set_data x (loop2 (col_words rm x) (\<lambda>_ s. s) (col_data rm x) xd) rm)"
proof -
  let ?h = "hide_two zio_buf_alloc x y rm"
  note hs = hide_two_sel [where zio_buf_alloc = zio_buf_alloc, OF ok fd]
  have wf: "rm_wf ?h" by (rule hide_two_wf [OF ok fd buf])
  have od: "only_data {0, 1} ?h h" unfolding h_def by (rule generate_parity_pq(1) [OF wf]) (use hs(2) fd in simp)
  have l: "length (rm_col rm) = rm_cols rm" by (rule rm_wfD(1) [OF rm_okD(1) [OF ok]])
  have c01: "(rm_col h ! c)\<lparr>rc_data := d\<rparr> = (rm_col rm ! c)\<lparr>rc_data := d\<rparr>" if "c = 0 \<or> c = 1" for c d
    using only_data_erase [OF od, of c d] hs(3) hs(4) [of c] that fd by auto
  have cx: "rm_col h ! c = (rm_col rm ! c)\<lparr>rc_size := 0\<rparr>" if "c = x \<or> c = y" for c
    using only_data_sel(5) [OF od, of c] hs(3) hs(4) [of c] that fd by auto
  have co: "rm_col h ! c = rm_col rm ! c" if "c < rm_cols rm" "c \<noteq> 0" "c \<noteq> 1" "c \<noteq> x" "c \<noteq> y" for c
    using only_data_sel(5) [OF od, of c] hs(3) hs(4) [of c] that by auto
  have lh: "length (rm_col h) = rm_cols rm" using only_data_sel(3) [OF od] hs(3) by simp
  have fields: "h\<lparr>rm_col := []\<rparr> = rm\<lparr>rm_col := []\<rparr>"
    using od unfolding only_data_def hide_two_def set_size_def set_data_def by simp
  let ?r5 = "set_size y (rc_size (rm_col rm ! y)) (set_size x (rc_size (rm_col rm ! x)) h)"
  let ?X = "loop2 (col_words rm x) (\<lambda>_ s. s) (col_data rm x) xd"
  let ?Y = "loop2 (col_words rm y) (\<lambda>_ s. s) (col_data rm y) (map2 (XOR) pp xd)"
  have d5: "col_data ?r5 c = col_data h c" if "c < rm_cols rm" for c
    using that lh fd by (cases "c = y"; cases "c = x") (simp_all add: set_size_def)
  have dx: "col_data h x = col_data rm x" "col_data h y = col_data rm y" using cx by simp_all
  have E: "vdev_raidz_reconstruct_pq zio_buf_alloc x y rm =
      set_data 1 (col_data rm 1) (set_data 0 (col_data rm 0) (set_data y ?Y (set_data x ?X ?r5)))"
  proof -
    have "col_data (set_data x d ?r5) y = col_data h y" for d
      using d5 [of y] set_data_sel(5) [of y ?r5 x d] lh fd by (simp add: set_size_def)
    then show ?thesis
      unfolding vdev_raidz_reconstruct_pq_def PQ_defs Let_def hide_two_def [symmetric] h_def [symmetric]
      using d5 [of 0] d5 [of 1] d5 [of x] dx fd le unfolding xd_def pp_def qq_def two_data_def Let_def min_def by simp
  qed
  have F: "rm_col (set_data 1 (col_data rm 1) (set_data 0 (col_data rm 0) (set_data y ?Y (set_data x ?X ?r5)))) =
      rm_col (set_data y ?Y (set_data x ?X rm))" (is "rm_col ?a = rm_col ?b")
  proof (rule nth_equalityI)
    show "length (rm_col ?a) = length (rm_col ?b)" using lh l by (simp add: set_data_def set_size_def)
    fix c assume "c < length (rm_col ?a)"
    then have c: "c < rm_cols rm" using lh by (simp add: set_data_def set_size_def)
    consider "c = 0" | "c = 1" | "c = x" | "c = y" | "c \<noteq> 0" "c \<noteq> 1" "c \<noteq> x" "c \<noteq> y" by blast
    then show "rm_col ?a ! c = rm_col ?b ! c"
      using c lh l fd c01 [of c] cx [of c] co [of c] by cases (simp_all add: set_data_def set_size_def nth_list_update)
  qed
  show ?thesis unfolding E using F fields by (cases h; cases rm) (simp add: set_data_def set_size_def)
qed

section \<open>What reconstruction restores\<close>

lemma parity_ok_p:
  assumes "rm_wf rm" "rm_firstdatacol rm = 1" "col_words rm 1 = col_words rm 0"
  shows "parity_ok (vdev_raidz_generate_parity_p rm)"
proof -
  let ?r = "vdev_raidz_generate_parity_p rm"
  have f: "col_words rm (rm_firstdatacol rm) = col_words rm 0" using assms by simp
  note G = generate_parity_p [OF assms(1) f] and w = rm_wfD [OF assms(1)]
  note sel = only_data_sel [OF G(1)]
  have "xors (pad ?r i) [rm_firstdatacol rm..<rm_cols rm] = xors (pad rm i) [rm_firstdatacol rm..<rm_cols rm]" for i
    using pad_only_data [OF G(1)] assms(2) w(1) by (intro xors_cong) auto
  moreover have "col_words ?r 0 = col_words rm 0" using sel(4) [of 0] w(1-3) by simp
  ultimately show ?thesis unfolding parity_ok_def parity_p_ok_def parity_q_ok_def using G(2) sel(1,2) assms(2) by simp
qed

lemma parity_ok_pq:
  assumes "rm_wf rm" "1 < rm_firstdatacol rm"
  shows "parity_ok (vdev_raidz_generate_parity_pq rm)"
proof -
  let ?r = "vdev_raidz_generate_parity_pq rm"
  note G = generate_parity_pq [OF assms] and w = rm_wfD [OF assms(1)]
  note sel = only_data_sel [OF G(1)]
  have "pad ?r i c = pad rm i c" if "c \<in> set [rm_firstdatacol rm..<rm_cols rm]" for i c
    using pad_only_data [OF G(1)] assms(2) w(1) that by auto
  then have "xors (pad ?r i) [rm_firstdatacol rm..<rm_cols rm] = xors (pad rm i) [rm_firstdatacol rm..<rm_cols rm]"
     "horner (pad ?r i) [rm_firstdatacol rm..<rm_cols rm] = horner (pad rm i) [rm_firstdatacol rm..<rm_cols rm]" for i
    by (blast intro: xors_cong horner_cong)+
  moreover have "col_words ?r 0 = col_words rm 0" using sel(4) [of 0] w(1-3) by simp
  ultimately show ?thesis unfolding parity_ok_def parity_p_ok_def parity_q_ok_def using G(2,3) sel(1,2) by simp
qed

lemma parity_okD:
  assumes "parity_ok rm"
  shows "parity_p_ok rm" "1 < rm_firstdatacol rm \<Longrightarrow> parity_q_ok rm"
  using assms by (auto simp: parity_ok_def)

lemma good_pad:
  assumes "rm_ok g" "c < rm_cols g" "i < col_words g c"
  shows "pad g i c = col_data g c ! i"
  using assms by (simp add: pad_def)

lemma reconstruct_p_good:
  assumes ok: "rm_ok g" and par: "parity_p_ok g" and x: "rm_firstdatacol g \<le> x" "x < rm_cols g" and bad: "only_data {x} g rm"
  shows "vdev_raidz_reconstruct_p x rm = g"
proof -
  note sel = only_data_sel [OF bad] and w = rm_wfD [OF rm_okD(1) [OF ok]]
  have wf: "rm_wf rm" by (rule rm_wf_only_data [OF rm_okD(1) [OF ok] bad])
  note R = reconstruct_p [OF wf, unfolded sel(1,2), OF x]
  have od: "only_data {x} g (vdev_raidz_reconstruct_p x rm)" by (rule only_data_trans [OF bad R(1)])
  have xl: "x < length (rm_col g)" "0 < length (rm_col g)" using w(1) x by auto
  have wx: "col_words rm x = col_words g x" using sel(4) [OF xl(1)] by simp
  have lx: "length (col_data g x) = col_words g x" by (rule rm_okD(2) [OF ok x(2)])
  have c: "xors ((pad rm i)(x := 0)) [rm_firstdatacol g..<rm_cols g] = xors ((pad g i)(x := 0)) [rm_firstdatacol g..<rm_cols g]" for i
    using pad_only_data [OF bad] w(1) by (intro xors_cong) auto
  have "col_data (vdev_raidz_reconstruct_p x rm) x = col_data g x"
  proof (rule nth_equalityI)
    show "length (col_data (vdev_raidz_reconstruct_p x rm) x) = length (col_data g x)" using only_data_sel(6) [OF od xl(1)] .
    fix i assume "i < length (col_data (vdev_raidz_reconstruct_p x rm) x)"
    then have i: "i < col_words g x" using only_data_sel(6) [OF od xl(1)] lx by simp
    have "i < col_words g 0" using i w(5) [OF x(2)] by simp
    then have "col_data rm 0 ! i = xors (pad g i) [rm_firstdatacol g..<rm_cols g]"
      using par sel(5) [of 0] xl w(2) x unfolding parity_p_ok_def by simp
    moreover have "xors (pad g i) [rm_firstdatacol g..<rm_cols g] = xors ((pad g i)(x := 0)) [rm_firstdatacol g..<rm_cols g] XOR pad g i x"
      using xors_split [OF x(1), of "pad g i" "rm_cols g"] x(2) by simp
    ultimately have "col_data (vdev_raidz_reconstruct_p x rm) x ! i = pad g i x"
      using R(2) [of i, unfolded wx, OF i] unfolding c by (simp add: xor.commute xor.left_commute)
    then show "col_data (vdev_raidz_reconstruct_p x rm) x ! i = col_data g x ! i" using good_pad [OF ok x(2) i] by simp
  qed
  then show ?thesis by (intro only_data_eqI [OF od]) auto
qed

lemma reconstruct_q_good:
  assumes ok: "rm_ok g" and par: "parity_q_ok g" and x: "rm_firstdatacol g \<le> x" "x < rm_cols g" and fd: "1 < rm_firstdatacol g"
    and n: "rm_cols g \<le> 256" and bad: "only_data {0, x} g rm"
  shows "only_data {0} g (vdev_raidz_reconstruct_q x rm)"
proof -
  let ?r = "vdev_raidz_reconstruct_q x rm"
  note sel = only_data_sel [OF bad] and w = rm_wfD [OF rm_okD(1) [OF ok]]
  have wf: "rm_wf rm" by (rule rm_wf_only_data [OF rm_okD(1) [OF ok] bad])
  note R = reconstruct_q [OF wf, unfolded sel(1,2), OF x fd n]
  have od: "only_data {0, x} g ?r" by (rule only_data_trans [OF bad only_data_mono [OF R(1)]]) simp
  have xl: "x < length (rm_col g)" "1 < length (rm_col g)" using w(1) x fd by auto
  have wx: "col_words rm x = col_words g x" using sel(4) [OF xl(1)] by simp
  have lx: "length (col_data g x) = col_words g x" by (rule rm_okD(2) [OF ok x(2)])
  have c: "horner ((pad rm i)(x := 0)) [rm_firstdatacol g..<rm_cols g] = horner ((pad g i)(x := 0)) [rm_firstdatacol g..<rm_cols g]" for i
    using pad_only_data [OF bad] w(1) fd by (intro horner_cong) auto
  let ?m = "rm_cols g - 1 - x"
  have "col_data ?r x = col_data g x"
  proof (rule nth_equalityI)
    show "length (col_data ?r x) = length (col_data g x)" using only_data_sel(6) [OF od xl(1)] .
    fix i assume "i < length (col_data ?r x)"
    then have i: "i < col_words g x" using only_data_sel(6) [OF od xl(1)] lx by simp
    have "i < col_words g 0" using i w(5) [OF x(2)] by simp
    then have q: "col_data rm 1 ! i = horner (pad g i) [rm_firstdatacol g..<rm_cols g]"
      using par sel(5) [of 1] xl x fd unfolding parity_q_ok_def by simp
    have h: "horner (pad g i) [rm_firstdatacol g..<rm_cols g] =
        horner ((pad g i)(x := 0)) [rm_firstdatacol g..<rm_cols g] XOR (mul2_word ^^ ?m) (pad g i x)"
      using horner_split [OF x(1), of "pad g i" "rm_cols g"] x(2) by simp
    have "col_data ?r x ! i = (mul2_word ^^ (255 - ?m)) ((mul2_word ^^ ?m) (pad g i x))"
      using R(2) [of i, unfolded wx, OF i] unfolding c q h by (simp only: xor.left_commute xor_self_eq xor.right_neutral flip: xor.assoc)
       (simp add: xor.assoc [symmetric])
    also have "\<dots> = (mul2_word ^^ 255) (pad g i x)" using n unfolding funpow_add [THEN fun_cong, unfolded comp_apply, symmetric] by simp
    also have "\<dots> = pad g i x" by (rule iter_word_255)
    finally show "col_data ?r x ! i = col_data g x ! i" using good_pad [OF ok x(2) i] by simp
  qed
  with od xl show ?thesis unfolding only_data_def by auto
qed

lemma loop2_set: "n = length dst \<Longrightarrow> n \<le> length src \<Longrightarrow> loop2 n (\<lambda>_ s. s) dst src = take n src"
  by (rule nth_equalityI) (simp_all add: length_loop2 nth_loop2)

lemma reconstruct_pq_good:
  assumes ok: "rm_ok g" and par: "parity_ok g" and x: "rm_firstdatacol g \<le> x" "x < y" "y < rm_cols g" and fd: "1 < rm_firstdatacol g"
    and n: "rm_cols g \<le> 256" and bad: "only_data {x, y} g rm" and le: "rc_size (rm_col g ! y) \<le> rc_size (rm_col g ! x)"
    and buf: "\<And>c n. length (zio_buf_alloc c n) = n"
  shows "vdev_raidz_reconstruct_pq zio_buf_alloc x y rm = g"
proof -
  note sel = only_data_sel [OF bad] and w = rm_wfD [OF rm_okD(1) [OF ok]]
  have ok': "rm_ok rm" by (rule rm_ok_only_data [OF ok bad])
  have f: "1 < rm_firstdatacol rm" "rm_firstdatacol rm \<le> x" "x < y" "y < rm_cols rm" using x fd sel by simp_all
  have xl: "x < length (rm_col g)" "y < length (rm_col g)" "0 < length (rm_col g)" "1 < length (rm_col g)" using w(1) x fd by auto
  have le': "rc_size (rm_col rm ! y) \<le> rc_size (rm_col rm ! x)" using le sel(4) [OF xl(1)] sel(4) [OF xl(2)] by simp
  define h where "h = vdev_raidz_generate_parity_pq (hide_two zio_buf_alloc x y rm)"
  define pp where "pp = map2 (XOR) (col_data rm 0) (col_data h 0)"
  define qq where "qq = map2 (XOR) (col_data rm 1) (col_data h 1)"
  define xd where "xd = map2 (two_data (rm_cols rm) x y) pp qq"
  note F = reconstruct_pq_frame [where zio_buf_alloc = zio_buf_alloc, OF ok' f buf le', folded h_def, folded pp_def qq_def, folded xd_def]
  note hs = hide_two_sel [where zio_buf_alloc = zio_buf_alloc, OF ok' f]
  have hw: "rm_wf h" "rm_firstdatacol h = rm_firstdatacol g" "col_words h 0 = col_words g 0"
  proof -
    have wf: "rm_wf (hide_two zio_buf_alloc x y rm)" by (rule hide_two_wf [OF ok' f buf])
    have od: "only_data {0, 1} (hide_two zio_buf_alloc x y rm) h"
      unfolding h_def by (rule generate_parity_pq(1) [OF wf]) (use hs(2) f in simp)
    show "rm_wf h" by (rule rm_wf_only_data [OF wf od])
    show "rm_firstdatacol h = rm_firstdatacol g" using only_data_sel(2) [OF od] hs(2) sel(2) by simp
    show "col_words h 0 = col_words g 0" using only_data_sel(4) [OF od, of 0] hs(3) hs(4) [of 0] sel(1) sel(4) [OF xl(3)] xl w(1) f by simp
  qed
  have lp: "length (col_data rm 0) = col_words g 0" "length (col_data rm 1) = col_words g 0"
      "length (col_data h 0) = col_words g 0" "length (col_data h 1) = col_words g 0"
    using rm_wfD(6) [OF rm_wf_only_data [OF rm_okD(1) [OF ok] bad], of 0] rm_wfD(6) [OF rm_wf_only_data [OF rm_okD(1) [OF ok] bad], of 1]
      rm_wfD(6) [OF hw(1), of 0] rm_wfD(6) [OF hw(1), of 1] hw(2,3) fd w(2) sel(2) sel(4) [OF xl(3)] by simp_all
  have np: "pp ! i = pad g i x XOR pad g i y" and nq: "xd ! i = pad g i x" if i: "i < col_words g 0" for i
  proof -
    have i': "i < col_words rm 0" using i sel(4) [OF xl(3)] by simp
    note H = hide_two_parity [where zio_buf_alloc = zio_buf_alloc, OF ok' f buf bad par i', folded h_def]
    show p: "pp ! i = pad g i x XOR pad g i y" unfolding pp_def using lp i H(1) by simp
    have "qq ! i = (mul2_word ^^ (rm_cols rm - 1 - x)) (pad g i x) XOR (mul2_word ^^ (rm_cols rm - 1 - y)) (pad g i y)"
      unfolding qq_def using lp i H(2) by simp
    with p show "xd ! i = pad g i x" unfolding xd_def using lp i two_data [OF f(3,4), of "pad g i x" "pad g i y"] n x fd sel(1)
      by (simp add: pp_def qq_def)
  qed
  have ll: "length pp = col_words g 0" "length xd = col_words g 0" using lp by (simp_all add: xd_def pp_def qq_def)
  let ?X = "loop2 (col_words rm x) (\<lambda>_ s. s) (col_data rm x) xd" and ?Y = "loop2 (col_words rm y) (\<lambda>_ s. s) (col_data rm y) (map2 (XOR) pp xd)"
  have wx: "col_words rm x = col_words g x" "col_words rm y = col_words g y" using sel(4) [OF xl(1)] sel(4) [OF xl(2)] by simp_all
  have lx: "length (col_data rm x) = col_words g x" "length (col_data rm y) = col_words g y" "col_words g x \<le> col_words g 0" "col_words g y \<le> col_words g 0"
      "length (col_data g x) = col_words g x" "length (col_data g y) = col_words g y"
    using sel(6) [OF xl(1)] sel(6) [OF xl(2)] rm_okD(2) [OF ok, of x] rm_okD(2) [OF ok, of y] x w(5) [of x] w(5) [of y] by simp_all
  have X: "?X = col_data g x"
    by (rule nth_equalityI) (use lx ll nq x in \<open>auto simp: wx length_loop2 nth_loop2 pad_def\<close>)
  have Y: "?Y = col_data g y"
    by (rule nth_equalityI) (use lx ll nq np x in \<open>auto simp: wx length_loop2 nth_loop2 pad_def xor.left_commute xor.commute\<close>)
  have od: "only_data {x, y} g (vdev_raidz_reconstruct_pq zio_buf_alloc x y rm)"
    unfolding F by (rule only_data_trans [OF bad], rule only_data_trans; rule only_data_set)
      (use xl lx sel(3) X Y in \<open>simp_all add: set_data_sel\<close>)
  show ?thesis
    by (rule only_data_eqI [OF od]) (use F X Y xl sel(3) f in \<open>auto simp: set_data_sel\<close>)
qed

section \<open>Properties\<close>

text \<open>C33. Single parity. After \<^verbatim>\<open>vdev_raidz_generate_parity_p\<close> any one data column whose
  buffer is lost is restored, with the rest of the map untouched, by
  \<^verbatim>\<open>vdev_raidz_reconstruct_p\<close>.\<close>

theorem vdev_raidz_reconstruct_p_correct:
  assumes "rm_ok rm" "rm_firstdatacol rm = 1" "col_words rm 1 = col_words rm 0" "1 \<le> x" "x < rm_cols rm"
    and "only_data {x} (vdev_raidz_generate_parity_p rm) bad"
  shows "vdev_raidz_reconstruct_p x bad = vdev_raidz_generate_parity_p rm"
proof -
  have f: "col_words rm (rm_firstdatacol rm) = col_words rm 0" using assms(2,3) by simp
  note G = generate_parity_p(1) [OF rm_okD(1) [OF assms(1)] f]
  show ?thesis
    by (rule reconstruct_p_good [OF rm_ok_only_data [OF assms(1) G] parity_okD(1) [OF parity_ok_p [OF rm_okD(1) [OF assms(1)] assms(2,3)]] _ _ assms(6)])
      (use assms only_data_sel(1,2) [OF G] in simp_all)
qed

definition demo_col :: "u64 list \<Rightarrow> raidz_col" where
  "demo_col d = \<lparr>rc_devidx = 0, rc_offset = 0, rc_size = 16, rc_data = d, rc_error = 0, rc_tried = False, rc_skipped = False\<rparr>"

definition demo_rm :: "nat \<Rightarrow> raidz_map" where
  "demo_rm p = \<lparr>rm_cols = p + 3, rm_bigcols = 0, rm_asize = 0, rm_missingdata = 0, rm_missingparity = 0, rm_firstdatacol = p,
     rm_col = map (\<lambda>_. demo_col [0, 0]) [0..<p] @ [demo_col [0x1122334455667788, 1], demo_col [0x80ff80ff, 2], demo_col [0xdeadbeef, 3]]\<rparr>"

lemma all_upto: "(\<forall>c < n. P c) \<longleftrightarrow> list_all P [0..<n]"
  by (auto simp: list_all_iff)

lemma demo_rm_ok: "rm_ok (demo_rm 1)" "rm_ok (demo_rm 2)"
  unfolding rm_ok_def rm_wf_def all_upto by (simp_all add: demo_rm_def demo_col_def upt_rec)

theorem vdev_raidz_reconstruct_p_correct_witness:
  "vdev_raidz_reconstruct_p 2 (set_data 2 [7, 7] (vdev_raidz_generate_parity_p (demo_rm 1))) = vdev_raidz_generate_parity_p (demo_rm 1)"
proof (rule vdev_raidz_reconstruct_p_correct)
  show "only_data {2} (vdev_raidz_generate_parity_p (demo_rm 1)) (set_data 2 [7, 7] (vdev_raidz_generate_parity_p (demo_rm 1)))"
    by (rule only_data_set) (simp_all add: vdev_raidz_generate_parity_p_def demo_rm_def demo_col_def gen_p_col_def set_data_def upt_rec PQ_defs loop2_def)
qed (use demo_rm_ok in \<open>simp_all add: demo_rm_def demo_col_def upt_rec\<close>)

text \<open>Double parity, one data column and the P column lost: after
  \<^verbatim>\<open>vdev_raidz_generate_parity_pq\<close>, \<^verbatim>\<open>vdev_raidz_reconstruct_q\<close> restores the data column from
  Q, whatever the P buffer holds.\<close>

theorem vdev_raidz_reconstruct_q_correct:
  assumes "rm_ok rm" "1 < rm_firstdatacol rm" "rm_firstdatacol rm \<le> x" "x < rm_cols rm" "rm_cols rm \<le> 256"
    and "only_data {0, x} (vdev_raidz_generate_parity_pq rm) bad"
  shows "only_data {0} (vdev_raidz_generate_parity_pq rm) (vdev_raidz_reconstruct_q x bad)"
proof -
  note G = generate_parity_pq(1) [OF rm_okD(1) [OF assms(1)] assms(2)]
  show ?thesis
    by (rule reconstruct_q_good [OF rm_ok_only_data [OF assms(1) G] parity_okD(2) [OF parity_ok_pq [OF rm_okD(1) [OF assms(1)] assms(2)]] _ _ _ _ assms(6)])
      (use assms only_data_sel(1,2) [OF G] in simp_all)
qed

lemma demo_lengths:
  "length (rm_col (vdev_raidz_generate_parity_pq (demo_rm 2))) = 5"
  "c < 5 \<Longrightarrow> length (col_data (vdev_raidz_generate_parity_pq (demo_rm 2)) c) = 2"
proof -
  note sel = only_data_sel(3,6) [OF generate_parity_pq(1) [OF rm_okD(1) [OF demo_rm_ok(2)]]]
  have fd: "1 < rm_firstdatacol (demo_rm 2)" "length (rm_col (demo_rm 2)) = 5" by (simp_all add: demo_rm_def)
  show "length (rm_col (vdev_raidz_generate_parity_pq (demo_rm 2))) = 5" using sel(1) fd by simp
  assume "c < 5"
  moreover have "\<forall>c < 5. length (col_data (demo_rm 2) c) = 2"
    unfolding all_upto by (simp add: demo_rm_def demo_col_def upt_rec)
  ultimately show "length (col_data (vdev_raidz_generate_parity_pq (demo_rm 2)) c) = 2" using sel(2) [of c] fd by simp
qed

theorem vdev_raidz_reconstruct_q_correct_witness:
  "only_data {0} (vdev_raidz_generate_parity_pq (demo_rm 2)) (vdev_raidz_reconstruct_q 3 (set_data 3 [7, 7] (vdev_raidz_generate_parity_pq (demo_rm 2))))"
proof (rule vdev_raidz_reconstruct_q_correct)
  show "only_data {0, 3} (vdev_raidz_generate_parity_pq (demo_rm 2)) (set_data 3 [7, 7] (vdev_raidz_generate_parity_pq (demo_rm 2)))"
    by (rule only_data_set) (simp_all add: demo_lengths)
qed (use demo_rm_ok in \<open>simp_all add: demo_rm_def demo_col_def upt_rec\<close>)

text \<open>C16. Double parity, two data columns lost: after \<^verbatim>\<open>vdev_raidz_generate_parity_pq\<close>,
  \<^verbatim>\<open>vdev_raidz_reconstruct_pq\<close> restores both from P and Q, whatever the temporary parity
  buffers held, and gives the parity columns their own buffers and the columns their sizes back.\<close>

theorem vdev_raidz_reconstruct_pq_correct:
  assumes "rm_ok rm" "1 < rm_firstdatacol rm" "rm_firstdatacol rm \<le> x" "x < y" "y < rm_cols rm" "rm_cols rm \<le> 256"
    and "rc_size (rm_col rm ! y) \<le> rc_size (rm_col rm ! x)"
    and "only_data {x, y} (vdev_raidz_generate_parity_pq rm) bad" and "\<And>c n. length (zio_buf_alloc c n) = n"
  shows "vdev_raidz_reconstruct_pq zio_buf_alloc x y bad = vdev_raidz_generate_parity_pq rm"
proof -
  note G = generate_parity_pq(1) [OF rm_okD(1) [OF assms(1)] assms(2)]
  have "rm_cols rm = length (rm_col rm)" using rm_wfD(1) [OF rm_okD(1) [OF assms(1)]] by simp
  then show ?thesis
    using assms only_data_sel(1,2) [OF G] only_data_sel(4) [OF G, of x] only_data_sel(4) [OF G, of y]
    by (intro reconstruct_pq_good [OF rm_ok_only_data [OF assms(1) G] parity_ok_pq [OF rm_okD(1) [OF assms(1)] assms(2)] _ _ _ _ _ assms(8) _ assms(9)]) simp_all
qed

lemma only_data_set2:
  assumes "x < length (rm_col rm)" "length d = length (col_data rm x)" "y < length (rm_col rm)" "length e = length (col_data rm y)" "x \<noteq> y"
  shows "only_data {x, y} rm (set_data x d (set_data y e rm))"
  by (rule only_data_trans [OF only_data_set [of y] only_data_set]) (use assms in \<open>simp_all add: set_data_sel\<close>)

theorem vdev_raidz_reconstruct_pq_correct_witness:
  "vdev_raidz_reconstruct_pq (\<lambda>c n. replicate n 99) 2 4 (set_data 2 [7, 7] (set_data 4 [8, 8] (vdev_raidz_generate_parity_pq (demo_rm 2)))) =
     vdev_raidz_generate_parity_pq (demo_rm 2)"
proof (rule vdev_raidz_reconstruct_pq_correct)
  show "only_data {2, 4} (vdev_raidz_generate_parity_pq (demo_rm 2)) (set_data 2 [7, 7] (set_data 4 [8, 8] (vdev_raidz_generate_parity_pq (demo_rm 2))))"
    by (rule only_data_set2) (simp_all add: demo_lengths)
qed (use demo_rm_ok in \<open>simp_all add: demo_rm_def demo_col_def upt_rec\<close>)

end
