(* ===== verification/Raidz_Map.thy ===== *)
theory Raidz_Map
  imports Raidz
begin

text \<open>
  Where \<^verbatim>\<open>vdev_raidz_map_alloc()\<close> puts the sectors of an I/O. The column sizes are first counted in
  sectors, as natural numbers; the theorems then carry the count over to the 64-bit offsets and
  sizes of the map.
\<close>

section \<open>Counting sectors\<close>

definition bigcols :: "nat \<Rightarrow> nat \<Rightarrow> nat \<Rightarrow> nat" where
  "bigcols S dcols np = (let r = S mod (dcols - np) in if r = 0 then 0 else r + np)"

definition acols :: "nat \<Rightarrow> nat \<Rightarrow> nat \<Rightarrow> nat" where
  "acols S dcols np = (if S div (dcols - np) = 0 then bigcols S dcols np else dcols)"

definition secs :: "nat \<Rightarrow> nat \<Rightarrow> nat \<Rightarrow> nat \<Rightarrow> nat" where
  "secs S dcols np c = S div (dcols - np) + (if c < bigcols S dcols np then 1 else 0)"

definition total_secs :: "nat \<Rightarrow> nat \<Rightarrow> nat \<Rightarrow> nat" where
  "total_secs S dcols np = S + np * ((S + (dcols - np) - 1) div (dcols - np))"

lemma sum_secs: "(\<Sum>c < n. q + (if c < b then 1 else 0)) = n * q + min n (b :: nat)"
  by (induction n) auto

lemma div_up:
  assumes "0 < (d :: nat)"
  shows "(S + d - 1) div d = S div d + (if S mod d = 0 then 0 else 1)"
proof -
  have "S + d - 1 = S div d * d + (S mod d + d - 1)" using assms by simp
  then have "(S + d - 1) div d = S div d + (S mod d + d - 1) div d" using assms by (metis div_mult_self3 less_irrefl_nat)
  moreover have "(S mod d + d - 1) div d = (if S mod d = 0 then 0 else 1)"
  proof (cases "S mod d = 0")
    case False
    then have e: "S mod d + d - 1 = S mod d - 1 + 1 * d" by simp
    have "S mod d - 1 < d" using mod_less_divisor [OF assms, of S] by simp
    then show ?thesis using False assms unfolding e div_mult_self1 [OF less_imp_neq [OF assms, symmetric]] by simp
  qed (use assms in simp)
  ultimately show ?thesis by simp
qed

definition stripe :: "nat \<Rightarrow> nat \<Rightarrow> nat \<Rightarrow> bool" where
  "stripe S dcols np \<longleftrightarrow> 0 < np \<and> np < dcols \<and> 0 < S"

lemma stripeD:
  assumes "stripe S dcols np"
  shows "0 < np" "np < dcols" "0 < S" "0 < dcols - np"
  using assms by (auto simp: stripe_def)

lemma sec_cases:
  assumes "stripe S dcols np"
  obtains (full) "S mod (dcols - np) = 0" "0 < S div (dcols - np)" | (part) "0 < S mod (dcols - np)" "S mod (dcols - np) < dcols - np"
proof (cases "S mod (dcols - np) = 0")
  case True
  moreover have "0 < S div (dcols - np)" using True stripeD [OF assms] by (auto simp: div_greater_zero_iff dvd_imp_le mod_eq_0_iff_dvd)
  ultimately show ?thesis by (rule full)
next
  case False
  moreover have "S mod (dcols - np) < dcols - np" using stripeD [OF assms] by simp
  ultimately show ?thesis by (intro part) simp_all
qed

lemma S_split: "(S :: nat) = S div (dcols - np) * (dcols - np) + S mod (dcols - np)"
  by (rule div_mult_mod_eq [symmetric])

lemma total_eq:
  assumes st: "stripe S dcols np"
  shows "total_secs S dcols np = acols S dcols np * (S div (dcols - np)) + bigcols S dcols np"
proof -
  note np = stripeD [OF st]
  let ?d = "dcols - np"
  let ?q = "S div ?d" and ?r = "S mod ?d"
  have sp: "(?d + np) * ?q = dcols * ?q" using np by simp
  show ?thesis using st
  proof (cases rule: sec_cases)
    case full
    have "S + np * ?q = (?d + np) * ?q" using S_split [of S dcols np] full(1) by (simp only: algebra_simps add_0_right)
    then show ?thesis unfolding total_secs_def div_up [OF np(4)] sp using full by (simp add: acols_def bigcols_def)
  next
    case part
    have "S + np * (?q + 1) = (?d + np) * ?q + (?r + np)"
      by (subst (1) S_split [of S dcols np]) (simp only: algebra_simps mult_1_right)
    then show ?thesis unfolding total_secs_def div_up [OF np(4)] sp using part by (auto simp: acols_def bigcols_def)
  qed
qed

lemma acols_bounds:
  assumes st: "stripe S dcols np"
  shows "np < acols S dcols np" "acols S dcols np \<le> dcols" "bigcols S dcols np \<le> acols S dcols np"
proof -
  define q r where "q = S div (dcols - np)" "r = S mod (dcols - np)"
  have b: "bigcols S dcols np = (if r = 0 then 0 else r + np)" "acols S dcols np = (if q = 0 then bigcols S dcols np else dcols)"
    by (simp_all add: bigcols_def acols_def q_r_def Let_def)
  have "r < dcols - np" "np < dcols" "q = 0 \<Longrightarrow> 0 < r"
    using stripeD [OF st] sec_cases [OF st] unfolding q_r_def by auto
  then show "np < acols S dcols np" "acols S dcols np \<le> dcols" "bigcols S dcols np \<le> acols S dcols np"
    unfolding b by auto
qed

lemma sum_all:
  assumes st: "stripe S dcols np"
  shows "(\<Sum>c < acols S dcols np. secs S dcols np c) = total_secs S dcols np"
  unfolding secs_def sum_secs total_eq [OF st] using acols_bounds(3) [OF st] by (simp only: min_absorb2)

lemma secs_np:
  assumes st: "stripe S dcols np" and c: "c < np"
  shows "secs S dcols np c = (S + (dcols - np) - 1) div (dcols - np)"
  unfolding secs_def div_up [OF stripeD(4) [OF st]] using c by (simp add: bigcols_def)

lemma sum_data:
  assumes st: "stripe S dcols np"
  shows "(\<Sum>c = np..<acols S dcols np. secs S dcols np c) = S"
proof -
  have "(\<Sum>c < acols S dcols np. secs S dcols np c) = (\<Sum>c < np. secs S dcols np c) + (\<Sum>c = np..<acols S dcols np. secs S dcols np c)"
    using acols_bounds(1) [OF st] by (simp add: lessThan_atLeast0 sum.atLeastLessThan_concat)
  moreover have "(\<Sum>c < np. secs S dcols np c) = np * ((S + (dcols - np) - 1) div (dcols - np))"
    by (simp add: secs_np [OF st] del: One_nat_def)
  ultimately show ?thesis unfolding sum_all [OF st] total_secs_def by simp
qed

lemma secs_mono: "c \<le> c' \<Longrightarrow> secs S dcols np c' \<le> secs S dcols np c"
  by (simp add: secs_def)

lemma secs_first:
  assumes st: "stripe S dcols np"
  shows "secs S dcols np np = secs S dcols np 0"
  using stripeD [OF st] by (cases rule: sec_cases [OF st]) (auto simp: secs_def bigcols_def)

lemma secs_in_total:
  assumes st: "stripe S dcols np" and c: "c < acols S dcols np" and k: "k < secs S dcols np c"
  shows "c + k * dcols < total_secs S dcols np"
proof (cases "k < S div (dcols - np)")
  case True
  then have "Suc k * dcols \<le> S div (dcols - np) * dcols" by (intro mult_le_mono1) simp
  then have "k * dcols + dcols \<le> dcols * (S div (dcols - np))" by (simp add: algebra_simps)
  moreover have "acols S dcols np = dcols" using True by (auto simp: acols_def)
  ultimately show ?thesis using c unfolding total_eq [OF st] by simp
next
  case False
  then have k: "k = S div (dcols - np)" "c < bigcols S dcols np" using k by (auto simp: secs_def split: if_splits)
  show ?thesis unfolding total_eq [OF st] k(1) using k(2) by (cases "S div (dcols - np) = 0") (simp_all add: acols_def mult.commute)
qed

lemma secs_le:
  assumes st: "stripe S dcols np"
  shows "secs S dcols np c \<le> S"
  using st
proof (cases rule: sec_cases)
  case full
  then show ?thesis by (simp add: secs_def bigcols_def)
next
  case part
  then have "1 < dcols - np" by linarith
  then have "S div (dcols - np) < S" using stripeD(3) [OF st] by (rule div_less_dividend)
  then show ?thesis by (simp add: secs_def)
qed

lemma total_le:
  assumes st: "stripe S dcols np"
  shows "total_secs S dcols np \<le> S * (np + 1)"
proof -
  have "(S + (dcols - np) - 1) div (dcols - np) \<le> S" using secs_le [OF st, of 0] secs_np [OF st stripeD(1) [OF st]] by simp
  then have "np * ((S + (dcols - np) - 1) div (dcols - np)) \<le> np * S" by (rule mult_le_mono2)
  then show ?thesis unfolding total_secs_def by (simp add: algebra_simps)
qed

section \<open>Offsets and sizes in bytes\<close>

definition io_ok :: "u64 \<Rightarrow> u64 \<Rightarrow> nat \<Rightarrow> nat \<Rightarrow> nat \<Rightarrow> bool" where
  \<comment> \<open>an I/O of whole sectors within the limits of the format\<close>
  "io_ok io_offset io_size sh dcols np \<longleftrightarrow> 0 < np \<and> np < dcols \<and> dcols \<le> 256 \<and> 3 \<le> sh \<and> sh \<le> 16 \<and>
     0 < io_size \<and> 2 ^ sh dvd unat io_size \<and> unat io_size \<le> 2 ^ 32 \<and> unat io_offset < 2 ^ 63"

lemma io_okD:
  assumes "io_ok io_offset io_size sh dcols np"
  shows "stripe (unat io_size div 2 ^ sh) dcols np" "dcols \<le> 256" "3 \<le> sh" "sh \<le> 16"
    "unat io_size div 2 ^ sh * 2 ^ sh = unat io_size" "unat io_size \<le> 2 ^ 32" "unat io_offset < 2 ^ 63"
proof -
  have "0 < unat io_size" using assms by (simp add: io_ok_def unat_gt_0 word_neq_0_conv)
  moreover have "2 ^ sh dvd unat io_size" using assms by (simp add: io_ok_def)
  ultimately have "0 < unat io_size div 2 ^ sh" by (simp add: div_greater_zero_iff dvd_imp_le)
  then show "stripe (unat io_size div 2 ^ sh) dcols np" using assms by (simp add: io_ok_def stripe_def)
qed (use assms in \<open>auto simp: io_ok_def\<close>)

lemma sectors_push:
  assumes "n * 2 ^ sh < 2 ^ 64"
  shows "unat (push_bit sh (of_nat n :: u64)) = n * 2 ^ sh"
proof -
  have "push_bit sh (of_nat n :: u64) = of_nat (n * 2 ^ sh)" by (simp add: push_bit_eq_mult)
  then show ?thesis using assms by (simp only: unat_of_nat) simp
qed

lemma add_mod_div:
  assumes "c < d" "0 < (d :: nat)"
  shows "(b + c) mod d = (if b mod d + c \<ge> d then b mod d + c - d else b mod d + c)"
    "(b + c) div d = b div d + (if b mod d + c \<ge> d then 1 else 0)"
proof -
  have b: "b + c = b div d * d + (b mod d + c)" by simp
  have l: "b mod d + c < d + d" using assms mod_less_divisor [OF assms(2), of b] by linarith
  have m: "(b mod d + c) mod d = (if b mod d + c \<ge> d then b mod d + c - d else b mod d + c)"
    using l by (auto simp: le_mod_geq)
  have v: "(b mod d + c) div d = (if b mod d + c \<ge> d then 1 else 0)"
    using l assms by (auto simp: le_div_geq)
  show "(b + c) mod d = (if b mod d + c \<ge> d then b mod d + c - d else b mod d + c)" unfolding m [symmetric] by (simp add: mod_simps)
  show "(b + c) div d = b div d + (if b mod d + c \<ge> d then 1 else 0)"
    unfolding v [symmetric] by (subst b, subst div_mult_self3) (use assms in simp_all)
qed

lemma map_columns_sel:
  fixes io_offset io_size :: u64
  assumes io: "io_ok io_offset io_size sh dcols np"
  defines "S \<equiv> unat io_size div 2 ^ sh" and "b \<equiv> unat io_offset div 2 ^ sh"
  defines "cols \<equiv> map_columns io_offset io_size sh dcols np"
  shows "length cols = acols S dcols np"
    "c < acols S dcols np \<Longrightarrow> rc_devidx (cols ! c) = (b + c) mod dcols"
    "c < acols S dcols np \<Longrightarrow> unat (rc_offset (cols ! c)) = (b + c) div dcols * 2 ^ sh"
    "c < acols S dcols np \<Longrightarrow> rc_size (cols ! c) = push_bit sh (of_nat (secs S dcols np c))"
    "unat (push_bit sh (of_nat (secs S dcols np c)) :: u64) = secs S dcols np c * 2 ^ sh"
proof -
  note d = io_okD [OF io, folded S_def]
  have u: "unat (drop_bit sh io_offset) = b" "unat (drop_bit sh io_size) = S" by (simp_all add: unat_drop_bit b_def S_def)
  have r: "S - S div (dcols - np) * (dcols - np) = S mod (dcols - np)" by (simp add: minus_div_mult_eq_mod)
  have C: "cols = map (\<lambda>c. let col = b mod dcols + c in
     \<lparr>rc_devidx = (if col \<ge> dcols then col - dcols else col),
      rc_offset = (if col \<ge> dcols then push_bit sh (of_nat (b div dcols)) + push_bit sh 1 else push_bit sh (of_nat (b div dcols))),
      rc_size = push_bit sh (of_nat (secs S dcols np c)), rc_data = [], rc_error = 0, rc_tried = False, rc_skipped = False\<rparr>)
      [0..<acols S dcols np]"
    unfolding cols_def map_columns_def u Let_def r secs_def acols_def bigcols_def by simp
  show "length cols = acols S dcols np" by (simp add: C)
  show "unat (push_bit sh (of_nat (secs S dcols np c)) :: u64) = secs S dcols np c * 2 ^ sh"
  proof (rule sectors_push)
    have "secs S dcols np c * 2 ^ sh \<le> S * 2 ^ sh" using secs_le [OF d(1)] by simp
    then show "secs S dcols np c * 2 ^ sh < 2 ^ 64" using d(5,6) by simp
  qed
  assume c: "c < acols S dcols np"
  then have cd: "c < dcols" "0 < dcols" using acols_bounds(2) [OF d(1)] by simp_all
  show "rc_devidx (cols ! c) = (b + c) mod dcols" using c add_mod_div(1) [OF cd, of b] by (simp add: C Let_def)
  show "rc_size (cols ! c) = push_bit sh (of_nat (secs S dcols np c))" using c by (simp add: C Let_def)
  have p: "(2 :: nat) ^ sh \<le> 2 ^ 16" using d(4) by (rule power_increasing) simp
  have "b div dcols * 2 ^ sh \<le> b * 2 ^ sh" by simp
  also have "\<dots> \<le> unat io_offset" by (simp add: b_def)
  finally have o1: "b div dcols * 2 ^ sh < 2 ^ 63" using d(7) by simp
  have o2: "(b div dcols + 1) * 2 ^ sh < 2 ^ 64" using o1 p by (simp add: algebra_simps)
  have "push_bit sh (of_nat (b div dcols)) + push_bit sh 1 = (push_bit sh (of_nat (b div dcols + 1)) :: u64)"
    by (simp add: push_bit_eq_mult algebra_simps)
  then have "rc_offset (cols ! c) = push_bit sh (of_nat ((b + c) div dcols))"
    unfolding add_mod_div(2) [OF cd] using c by (simp add: C Let_def add.commute)
  moreover have "(b + c) div dcols * 2 ^ sh < 2 ^ 64" unfolding add_mod_div(2) [OF cd] using o1 o2 by simp
  ultimately show "unat (rc_offset (cols ! c)) = (b + c) div dcols * 2 ^ sh" using sectors_push by simp
qed

section \<open>The map of an I/O\<close>

abbreviation col_place :: "raidz_col \<Rightarrow> nat \<times> u64" where
  "col_place rc \<equiv> (rc_devidx rc, rc_offset rc)"

lemma split_data_sel:
  "length (split_data rcs d) = length rcs"
  "c < length rcs \<Longrightarrow> (split_data rcs d ! c)\<lparr>rc_data := []\<rparr> = (rcs ! c)\<lparr>rc_data := []\<rparr>"
  "(\<Sum>rc\<leftarrow>rcs. unat (rc_size rc) div 8) = length d \<Longrightarrow> concat (map rc_data (split_data rcs d)) = d"
  "(\<Sum>rc\<leftarrow>rcs. unat (rc_size rc) div 8) = length d \<Longrightarrow> c < length rcs \<Longrightarrow>
     length (rc_data (split_data rcs d ! c)) = unat (rc_size (rcs ! c)) div 8"
proof (induction rcs arbitrary: d c)
  case (Cons rc rcs)
  { case 1 show ?case using Cons(1) by (simp add: Let_def) }
  { case 2 then show ?case using Cons(2) by (cases c) (simp_all add: Let_def) }
  { case 3 then show ?case using Cons(3) by (simp add: Let_def) }
  { case 4 then show ?case using Cons(4) by (cases c) (simp_all add: Let_def) }
qed simp_all

definition unswapped :: "(nat \<Rightarrow> nat \<Rightarrow> u64 list) \<Rightarrow> u64 \<Rightarrow> u64 \<Rightarrow> u64 list \<Rightarrow> nat \<Rightarrow> nat \<Rightarrow> nat \<Rightarrow> raidz_col list" where
  \<comment> \<open>the columns before the places of the first two are exchanged\<close>
  "unswapped zio_buf_alloc io_offset io_size io_data sh dcols np =
     (let cols = map_columns io_offset io_size sh dcols np
      in map (\<lambda>c. (cols ! c)\<lparr>rc_data := zio_buf_alloc c (unat (rc_size (cols ! c)) div 8)\<rparr>) [0..<np] @ split_data (drop np cols) io_data)"

definition swaps :: "u64 \<Rightarrow> nat \<Rightarrow> bool" where
  "swaps io_offset np \<longleftrightarrow> np = 1 \<and> io_offset AND push_bit 20 1 \<noteq> 0"

definition swapped :: "u64 \<Rightarrow> nat \<Rightarrow> nat \<Rightarrow> nat" where
  \<comment> \<open>the column whose place a column gets\<close>
  "swapped io_offset np c = (if swaps io_offset np \<and> c < 2 then 1 - c else c)"

lemma map_alloc_col:
  "rm_col (vdev_raidz_map_alloc zio_buf_alloc io_offset io_size io_data sh dcols np) =
     (let cols = unswapped zio_buf_alloc io_offset io_size io_data sh dcols np in
      if swaps io_offset np then
        cols[0 := (cols ! 0)\<lparr>rc_devidx := rc_devidx (cols ! 1), rc_offset := rc_offset (cols ! 1)\<rparr>,
             1 := (cols ! 1)\<lparr>rc_devidx := rc_devidx (cols ! 0), rc_offset := rc_offset (cols ! 0)\<rparr>]
      else cols)"
  unfolding vdev_raidz_map_alloc_def unswapped_def swaps_def Let_def by simp

lemma swap_nth:
  fixes sw :: bool and cols :: "raidz_col list"
  assumes "1 < length cols" "c < length cols"
  defines "r \<equiv> (if sw then cols[0 := (cols ! 0)\<lparr>rc_devidx := rc_devidx (cols ! 1), rc_offset := rc_offset (cols ! 1)\<rparr>,
             1 := (cols ! 1)\<lparr>rc_devidx := rc_devidx (cols ! 0), rc_offset := rc_offset (cols ! 0)\<rparr>] else cols)"
  shows "rc_size (r ! c) = rc_size (cols ! c)" "rc_data (r ! c) = rc_data (cols ! c)"
    "col_place (r ! c) = col_place (cols ! (if sw \<and> c < 2 then 1 - c else c))"
  using assms by (cases "c = 0"; cases "c = 1"; simp)+

lemma map_alloc_sel:
  fixes io_offset io_size :: u64 and zio_buf_alloc :: "nat \<Rightarrow> nat \<Rightarrow> u64 list"
  assumes io: "io_ok io_offset io_size sh dcols np" and data: "8 * length io_data = unat io_size"
  defines "S \<equiv> unat io_size div 2 ^ sh" and "b \<equiv> unat io_offset div 2 ^ sh"
  defines "rm \<equiv> vdev_raidz_map_alloc zio_buf_alloc io_offset io_size io_data sh dcols np"
  shows "length (rm_col rm) = acols S dcols np" "rm_cols rm = acols S dcols np" "rm_firstdatacol rm = np"
    "c < acols S dcols np \<Longrightarrow> unat (rc_size (rm_col rm ! c)) = secs S dcols np c * 2 ^ sh"
    "c < np \<Longrightarrow> col_data rm c = zio_buf_alloc c (col_words rm c)"
    "c < acols S dcols np \<Longrightarrow> np \<le> c \<Longrightarrow> length (col_data rm c) = col_words rm c"
    "concat (map rc_data (drop np (rm_col rm))) = io_data"
    "c < acols S dcols np \<Longrightarrow> rc_devidx (rm_col rm ! c) = (b + swapped io_offset np c) mod dcols"
    "c < acols S dcols np \<Longrightarrow> unat (rc_offset (rm_col rm ! c)) = (b + swapped io_offset np c) div dcols * 2 ^ sh"
proof -
  note d = io_okD [OF io, folded S_def] and mc = map_columns_sel [OF io, folded S_def b_def] and ac = acols_bounds [OF io_okD(1) [OF io], folded S_def]
  define cols where "cols = map_columns io_offset io_size sh dcols np"
  define us where "us = unswapped zio_buf_alloc io_offset io_size io_data sh dcols np"
  note mc = mc [folded cols_def]
  have us: "us = map (\<lambda>c. (cols ! c)\<lparr>rc_data := zio_buf_alloc c (unat (rc_size (cols ! c)) div 8)\<rparr>) [0..<np] @ split_data (drop np cols) io_data"
    by (simp add: us_def unswapped_def cols_def Let_def)
  show l: "length (rm_col rm) = acols S dcols np"
    using ac mc(1) unfolding rm_def map_alloc_col Let_def us_def [symmetric] by (simp add: us split_data_sel)
  show "rm_firstdatacol rm = np" by (simp add: rm_def vdev_raidz_map_alloc_def Let_def)
  show "rm_cols rm = acols S dcols np" unfolding l [symmetric] by (simp add: rm_def vdev_raidz_map_alloc_def Let_def)
  have lu: "length us = acols S dcols np" using ac mc(1) by (simp add: us split_data_sel)
  have ones: "1 < length us" using ac io lu by (simp add: io_ok_def)
  have E: "rm_col rm = (if swaps io_offset np then us[0 := (us ! 0)\<lparr>rc_devidx := rc_devidx (us ! 1), rc_offset := rc_offset (us ! 1)\<rparr>,
             1 := (us ! 1)\<lparr>rc_devidx := rc_devidx (us ! 0), rc_offset := rc_offset (us ! 0)\<rparr>] else us)"
    unfolding rm_def map_alloc_col Let_def us_def [symmetric] by (rule refl)
  note sw = swap_nth [OF ones, where sw = "swaps io_offset np", folded E, folded swapped_def, unfolded lu]
  have er: "(us ! c)\<lparr>rc_data := []\<rparr> = (cols ! c)\<lparr>rc_data := []\<rparr>" if "c < acols S dcols np" for c
    using that mc(1) split_data_sel(2) [of "c - np" "drop np cols" io_data] ac by (auto simp: us nth_append)
  have er': "rc_size (us ! c) = rc_size (cols ! c)" "col_place (us ! c) = col_place (cols ! c)" if "c < acols S dcols np" for c
    using er [OF that] by (cases "us ! c"; cases "cols ! c"; simp)+
  have swc: "swapped io_offset np c < acols S dcols np" if "c < acols S dcols np" for c
    using that ones lu by (auto simp: swapped_def)
  show "unat (rc_size (rm_col rm ! c)) = secs S dcols np c * 2 ^ sh" if c: "c < acols S dcols np"
    using sw(1) [OF c] er'(1) [OF c] mc(4) [OF c] mc(5) by simp
  show "rc_devidx (rm_col rm ! c) = (b + swapped io_offset np c) mod dcols" if c: "c < acols S dcols np"
    using sw(3) [OF c] er'(2) [OF swc [OF c]] mc(2) [OF swc [OF c]] by simp
  show "unat (rc_offset (rm_col rm ! c)) = (b + swapped io_offset np c) div dcols * 2 ^ sh" if c: "c < acols S dcols np"
    using sw(3) [OF c] er'(2) [OF swc [OF c]] mc(3) [OF swc [OF c]] by simp
  show "col_data rm c = zio_buf_alloc c (col_words rm c)" if c: "c < np"
    using sw(1,2) [of c] er'(1) [of c] c ac by (simp add: us nth_append)
  have "(\<Sum>rc\<leftarrow>drop np cols. unat (rc_size rc) div 8) = (\<Sum>c = np..<acols S dcols np. secs S dcols np c) * 2 ^ sh div 8"
  proof -
    have "(8 :: nat) dvd 2 ^ sh" using d(3) power_le_dvd [of 2 sh 8 3] by (simp add: le_imp_power_dvd [of 3 sh 2, simplified])
    then obtain e where e: "(2 :: nat) ^ sh = 8 * e" by (rule dvdE)
    have "map (\<lambda>rc. unat (rc_size rc) div 8) (drop np cols) = map (\<lambda>c. secs S dcols np c * e) [np..<acols S dcols np]"
      by (rule nth_equalityI) (use mc(1,4,5) ac e in \<open>auto simp: add.commute\<close>)
    then have "(\<Sum>rc\<leftarrow>drop np cols. unat (rc_size rc) div 8) = (\<Sum>c = np..<acols S dcols np. secs S dcols np c) * e"
      by (simp add: interv_sum_list_conv_sum_set_nat sum_distrib_right)
    moreover have "x * (8 * e) div 8 = x * e" for x :: nat by (simp add: mult.left_commute)
    ultimately show ?thesis unfolding e by simp
  qed
  then have sum: "(\<Sum>rc\<leftarrow>drop np cols. unat (rc_size rc) div 8) = length io_data"
    unfolding sum_data [OF d(1)] using d(5) data by simp
  have du: "drop np us = split_data (drop np cols) io_data" by (simp add: us)
  have "map rc_data (drop np (rm_col rm)) = map rc_data (drop np us)"
    by (rule nth_equalityI) (use l lu sw(2) in auto)
  then show "concat (map rc_data (drop np (rm_col rm))) = io_data" unfolding du using split_data_sel(3) [OF sum] by simp
  show "length (col_data rm c) = col_words rm c" if c: "c < acols S dcols np" "np \<le> c"
    using sw(1,2) [OF c(1)] er'(1) [OF c(1)] split_data_sel(4) [OF sum, of "c - np"] c mc(1) by (simp add: us nth_append)
qed

lemma div_below: "((2 ^ sh - 1) + n * 2 ^ sh) div 2 ^ sh = (n :: nat)"
  by (subst div_mult_self1) simp_all

lemma unat_roundup:
  assumes "0 < unat y" "unat x + unat y \<le> 2 ^ 64"
  shows "unat (roundup x y) = (unat x + unat y - 1) div unat y * unat y"
proof -
  have y1: "unat (y - 1) = unat y - 1" using assms(1) by (intro unat_minus_one) auto
  have a: "unat (x + (y - 1)) = unat x + unat y - 1"
  proof -
    have "unat x + unat (y - 1) < 2 ^ 64" using assms unfolding y1 by linarith
    then show ?thesis using y1 assms(1) by (simp add: unat_word_ariths)
  qed
  have "(unat x + unat y - 1) div unat y * unat y \<le> unat x + unat y - 1" by simp
  then have "(unat x + unat y - 1) div unat y * unat y < 2 ^ 64" using assms by linarith
  moreover have "unat ((x + (y - 1)) div y) = (unat x + unat y - 1) div unat y" by (simp only: unat_div a)
  ultimately show ?thesis unfolding roundup_def unat_word_ariths(2) by simp
qed

lemma asize_bound:
  assumes io: "io_ok io_offset io_size sh dcols np"
  defines "S \<equiv> unat io_size div 2 ^ sh"
  shows "(total_secs S dcols np + np + 1) * 2 ^ sh \<le> 2 ^ 62"
proof -
  note d = io_okD [OF io, folded S_def]
  have "total_secs S dcols np + np + 1 \<le> S * (np + 1) + (np + 1)" using total_le [OF d(1)] by simp
  also have "\<dots> \<le> S * 256 + 256" using stripeD(2) [OF d(1)] d(2) by (intro add_mono mult_le_mono2) simp_all
  finally have "(total_secs S dcols np + np + 1) * 2 ^ sh \<le> (S * 256 + 256) * 2 ^ sh" by (rule mult_le_mono1)
  also have "\<dots> = 256 * (S * 2 ^ sh) + 256 * 2 ^ sh" by (simp add: algebra_simps)
  also have "\<dots> \<le> 256 * 2 ^ 32 + 256 * 2 ^ 16"
    using d(4,5,6) power_increasing [of sh 16 "2 :: nat"] by (intro add_mono mult_le_mono2) simp_all
  finally show ?thesis by simp
qed

lemma map_alloc_asize:
  assumes io: "io_ok io_offset io_size sh dcols np"
  defines "S \<equiv> unat io_size div 2 ^ sh"
  shows "unat (rm_asize (vdev_raidz_map_alloc zio_buf_alloc io_offset io_size io_data sh dcols np)) =
    (total_secs S dcols np + np) div (np + 1) * (np + 1) * 2 ^ sh"
proof -
  note d = io_okD [OF io, folded S_def] and mc = map_columns_sel [OF io, folded S_def]
  have B: "(total_secs S dcols np + np + 1) * 2 ^ sh \<le> 2 ^ 62" unfolding S_def by (rule asize_bound [OF io])
  let ?cols = "map_columns io_offset io_size sh dcols np"
  have f: "foldl (\<lambda>a rc. a + rc_size rc) 0 xs = push_bit sh (of_nat (\<Sum>c < length xs. secs S dcols np c))"
    if "\<And>c. c < length xs \<Longrightarrow> rc_size (xs ! c) = push_bit sh (of_nat (secs S dcols np c))" for xs
    using that
  proof (induction xs rule: rev_induct)
    case (snoc x xs)
    have "foldl (\<lambda>a rc. a + rc_size rc) 0 xs = push_bit sh (of_nat (\<Sum>c < length xs. secs S dcols np c))"
      using snoc.prems by (intro snoc.IH) (metis less_SucI length_append_singleton nth_append)
    moreover have "rc_size x = push_bit sh (of_nat (secs S dcols np (length xs)))" using snoc.prems [of "length xs"] by simp
    ultimately show ?case by (simp add: push_bit_eq_mult algebra_simps)
  qed simp
  have sm: "foldl (\<lambda>a rc. a + rc_size rc) 0 ?cols = push_bit sh (of_nat (total_secs S dcols np))"
    using f [of ?cols] mc(1,4) sum_all [OF d(1)] by simp
  have b1: "total_secs S dcols np * 2 ^ sh < 2 ^ 64" "(np + 1) * 2 ^ sh < 2 ^ 64"
    using B by (simp_all add: algebra_simps)
  have u: "unat (push_bit sh (of_nat (total_secs S dcols np)) :: u64) = total_secs S dcols np * 2 ^ sh"
    "unat (push_bit sh (of_nat (np + 1)) :: u64) = (np + 1) * 2 ^ sh" using b1 sectors_push by blast+
  have p: "0 < (2 :: nat) ^ sh" by simp
  have e: "(total_secs S dcols np * 2 ^ sh + (np + 1) * 2 ^ sh - 1) div ((np + 1) * 2 ^ sh) = (total_secs S dcols np + np) div (np + 1)"
  proof -
    have "total_secs S dcols np * 2 ^ sh + (np + 1) * 2 ^ sh - 1 = (2 ^ sh - 1) + (total_secs S dcols np + np) * 2 ^ sh"
      using p by (cases "(2 :: nat) ^ sh") (simp_all add: algebra_simps)
    then have "(total_secs S dcols np * 2 ^ sh + (np + 1) * 2 ^ sh - 1) div 2 ^ sh = total_secs S dcols np + np" by (simp only: div_below)
    then show ?thesis by (metis div_mult2_eq mult.commute)
  qed
  have "rm_asize (vdev_raidz_map_alloc zio_buf_alloc io_offset io_size io_data sh dcols np) =
      roundup (push_bit sh (of_nat (total_secs S dcols np))) (push_bit sh (of_nat (np + 1)))"
    unfolding vdev_raidz_map_alloc_def Let_def sm by simp
  moreover have "unat (roundup (push_bit sh (of_nat (total_secs S dcols np))) (push_bit sh (of_nat (np + 1)))) =
      (total_secs S dcols np + np) div (np + 1) * ((np + 1) * 2 ^ sh)"
    using unat_roundup [of "push_bit sh (of_nat (np + 1))" "push_bit sh (of_nat (total_secs S dcols np))", unfolded u e] B
    by (simp add: algebra_simps)
  ultimately show ?thesis by (simp only: mult.assoc)
qed

lemma vdev_raidz_asize_total:
  assumes io: "io_ok io_offset io_size sh dcols np"
  defines "S \<equiv> unat io_size div 2 ^ sh"
  shows "unat (vdev_raidz_asize sh (of_nat dcols) (of_nat np) io_size) = (total_secs S dcols np + np) div (np + 1) * (np + 1) * 2 ^ sh"
proof -
  note d = io_okD [OF io, folded S_def]
  note st = stripeD [OF d(1)]
  have B: "(total_secs S dcols np + np + 1) * 2 ^ sh \<le> 2 ^ 62" unfolding S_def by (rule asize_bound [OF io])
  have le: "total_secs S dcols np + np + 1 \<le> (total_secs S dcols np + np + 1) * 2 ^ sh"
    using mult_le_mono2 [of 1 "2 ^ sh" "total_secs S dcols np + np + 1"] by (simp only: mult_1_right) simp
  have B': "total_secs S dcols np + np + 1 \<le> 2 ^ 62" using le B by linarith
  have un: "unat (of_nat dcols :: u64) = dcols" "unat (of_nat np :: u64) = np" "unat (of_nat (np + 1) :: u64) = np + 1"
    using d(2) st(2) by (simp_all only: unat_of_nat) simp_all
  have s1: "unat (io_size - 1) = S * 2 ^ sh - 1"
    using d(5) st(3) by (subst unat_minus_one) (auto simp: S_def)
  have "S * 2 ^ sh - 1 = (2 ^ sh - 1) + (S - 1) * 2 ^ sh" using st(3) by (cases S) simp_all
  then have "(S * 2 ^ sh - 1) div 2 ^ sh = S - 1" by (simp only: div_below)
  then have s2: "unat (drop_bit sh (io_size - 1)) = S - 1" by (simp add: unat_drop_bit s1)
  have SB: "S \<le> total_secs S dcols np" by (simp add: total_secs_def)
  have a1: "drop_bit sh (io_size - 1) + 1 = (of_nat S :: u64)"
  proof -
    have "drop_bit sh (io_size - 1) = of_nat (S - 1)" using arg_cong [OF s2, of "of_nat :: nat \<Rightarrow> u64"] by simp
    then show ?thesis using st(3) by (simp add: of_nat_diff)
  qed
  have a2: "(of_nat S + of_nat dcols - of_nat np - 1 :: u64) = of_nat (S + (dcols - np) - 1)"
    using st by (simp add: of_nat_diff algebra_simps)
  have a3: "(of_nat dcols - of_nat np :: u64) = of_nat (dcols - np)" using st by (simp add: of_nat_diff)
  have a4: "(of_nat (S + (dcols - np) - 1) div of_nat (dcols - np) :: u64) = of_nat ((S + (dcols - np) - 1) div (dcols - np))"
  proof -
    have "S + (dcols - np) - 1 < 2 ^ 64" "dcols - np < 2 ^ 64" using B' SB d(2) by simp_all
    then show ?thesis by (simp add: word_arith_nat_div unat_of_nat del: of_nat_add of_nat_diff of_nat_Suc)
  qed
  have tot: "of_nat S + of_nat np * (of_nat (S + (dcols - np) - 1) div of_nat (dcols - np)) = (of_nat (total_secs S dcols np) :: u64)"
    unfolding a4 total_secs_def by simp
  have ut: "unat (of_nat (total_secs S dcols np) :: u64) = total_secs S dcols np" using B' by (simp only: unat_of_nat) simp
  let ?R = "roundup (of_nat (total_secs S dcols np)) (of_nat (np + 1)) :: u64"
  have R: "unat ?R = (total_secs S dcols np + np) div (np + 1) * (np + 1)"
    using unat_roundup [of "of_nat (np + 1)" "of_nat (total_secs S dcols np)", unfolded un ut] B' by simp
  have "(total_secs S dcols np + np) div (np + 1) * (np + 1) \<le> total_secs S dcols np + np" by (rule div_times_less_eq_dividend)
  then have "(total_secs S dcols np + np) div (np + 1) * (np + 1) * 2 ^ sh \<le> (total_secs S dcols np + np) * 2 ^ sh" by (rule mult_le_mono1)
  then have "unat ?R * 2 ^ sh < 2 ^ 64" unfolding R using B by (simp add: algebra_simps)
  then have "unat (push_bit sh ?R) = unat ?R * 2 ^ sh" using sectors_push [of "unat ?R" sh] by simp
  then show ?thesis unfolding vdev_raidz_asize_def Let_def a1 a2 a3 tot R [symmetric] by (simp add: add.commute)
qed

section \<open>Properties\<close>

lemma mod_inj:
  assumes "x < d" "y < d" "(b + x) mod d = (b + y) mod (d :: nat)"
  shows "x = y"
proof -
  have "b mod d < d" using assms by simp
  then show ?thesis using assms add_mod_div(1) [of x d b] add_mod_div(1) [of y d b] by (auto split: if_splits)
qed

lemma round_up_ge: "(n :: nat) \<le> (n + m) div (m + 1) * (m + 1)"
proof -
  have "n + m = (n + m) div (m + 1) * (m + 1) + (n + m) mod (m + 1)" by (rule div_mult_mod_eq [symmetric])
  moreover have "(n + m) mod (m + 1) < m + 1" by (rule mod_less_divisor) simp
  ultimately show ?thesis by linarith
qed

lemma map_alloc_ok:
  fixes zio_buf_alloc :: "nat \<Rightarrow> nat \<Rightarrow> u64 list"
  assumes io: "io_ok io_offset io_size sh dcols np" and data: "8 * length io_data = unat io_size"
    and buf: "\<And>c n. length (zio_buf_alloc c n) = n"
  defines "rm \<equiv> vdev_raidz_map_alloc zio_buf_alloc io_offset io_size io_data sh dcols np"
  shows "rm_ok rm" "col_words rm np = col_words rm 0"
    "c \<le> c' \<Longrightarrow> c' < rm_cols rm \<Longrightarrow> rc_size (rm_col rm ! c') \<le> rc_size (rm_col rm ! c)"
proof -
  let ?S = "unat io_size div 2 ^ sh"
  note sel = map_alloc_sel [OF io data, where zio_buf_alloc = zio_buf_alloc, folded rm_def] and d = io_okD [OF io]
  note ac = acols_bounds [OF d(1)] and st = stripeD [OF d(1)]
  have len: "length (col_data rm c) = col_words rm c" if "c < acols ?S dcols np" for c
    using that sel(5) [of c] sel(6) [of c] buf by (cases "c < np") simp_all
  have w: "unat (rc_size (rm_col rm ! c)) \<le> unat (rc_size (rm_col rm ! 0))"
    "c < np \<Longrightarrow> unat (rc_size (rm_col rm ! c)) = unat (rc_size (rm_col rm ! 0))" if "c < acols ?S dcols np" for c
    using that sel(4) [of c] sel(4) [of 0] ac secs_mono [of 0 c ?S dcols np] secs_np [OF d(1), of c] secs_np [OF d(1), of 0] st by auto
  show "rm_ok rm" unfolding rm_ok_def rm_wf_def sel(1-3)
  proof (intro conjI allI impI)
    fix c assume c: "c < acols ?S dcols np"
    show "length (col_data rm c) = col_words rm c" "col_words rm c \<le> length (col_data rm c)" using len [OF c] by simp_all
    show "col_words rm c \<le> col_words rm 0" using w(1) [OF c] by (rule div_le_mono)
    assume "c < np"
    from w(2) [OF c this] show "col_words rm c = col_words rm 0" by simp
    with len [OF c] show "length (col_data rm c) = col_words rm 0" by simp
  qed (use ac st in simp_all)
  show "col_words rm np = col_words rm 0" using sel(4) [of np] sel(4) [of 0] ac st secs_first [OF d(1)] by simp
  assume "c \<le> c'" "c' < rm_cols rm"
  then show "rc_size (rm_col rm ! c') \<le> rc_size (rm_col rm ! c)"
    unfolding word_le_nat_alt using sel(2) sel(4) [of c] sel(4) [of c'] secs_mono [of c c' ?S dcols np] by simp
qed

text \<open>C36. The map of a RAID-Z I/O is well formed: every column has a buffer of its size, the
  parity columns are as long as the first data column, data columns only get shorter, and the data
  columns together are the I/O buffer.\<close>

theorem vdev_raidz_map_alloc_wf:
  assumes "io_ok io_offset io_size sh dcols np" "8 * length io_data = unat io_size" "\<And>c n. length (zio_buf_alloc c n) = n"
  shows "let rm = vdev_raidz_map_alloc zio_buf_alloc io_offset io_size io_data sh dcols np in
    rm_ok rm \<and> rm_firstdatacol rm = np \<and> col_words rm np = col_words rm 0 \<and>
    concat (map rc_data (drop np (rm_col rm))) = io_data \<and>
    (\<forall>c c'. c \<le> c' \<and> c' < rm_cols rm \<longrightarrow> rc_size (rm_col rm ! c') \<le> rc_size (rm_col rm ! c))"
  unfolding Let_def
  by (intro conjI allI impI map_alloc_ok [OF assms] map_alloc_sel(3,7) [OF assms(1,2)]) simp_all

theorem vdev_raidz_map_alloc_wf_witness:
  "let rm = vdev_raidz_map_alloc (\<lambda>c n. replicate n 0) 0x100200 0x600 (replicate 192 5) 9 4 1 in
    rm_ok rm \<and> rm_firstdatacol rm = 1 \<and> concat (map rc_data (drop 1 (rm_col rm))) = replicate 192 5"
  using vdev_raidz_map_alloc_wf [of "0x100200" "0x600" 9 4 1 "replicate 192 5" "\<lambda>c n. replicate n 0"]
  by (simp add: Let_def io_ok_def)

definition sector_of :: "nat \<Rightarrow> nat \<Rightarrow> raidz_col \<Rightarrow> nat \<Rightarrow> nat" where
  \<comment> \<open>the position in the RAID-Z device of a sector of a column: sectors are numbered across the children\<close>
  "sector_of sh dcols rc k = (unat (rc_offset rc) div 2 ^ sh + k) * dcols + rc_devidx rc"

lemma sector_of_eq:
  fixes zio_buf_alloc :: "nat \<Rightarrow> nat \<Rightarrow> u64 list"
  assumes io: "io_ok io_offset io_size sh dcols np" and data: "8 * length io_data = unat io_size"
  defines "rm \<equiv> vdev_raidz_map_alloc zio_buf_alloc io_offset io_size io_data sh dcols np"
  assumes c: "c < rm_cols rm"
  shows "sector_of sh dcols (rm_col rm ! c) k = unat io_offset div 2 ^ sh + swapped io_offset np c + k * dcols"
proof -
  note sel = map_alloc_sel [OF io data, where zio_buf_alloc = zio_buf_alloc, folded rm_def]
  have "(unat io_offset div 2 ^ sh + swapped io_offset np c) div dcols * dcols + (unat io_offset div 2 ^ sh + swapped io_offset np c) mod dcols
      = unat io_offset div 2 ^ sh + swapped io_offset np c" by (rule div_mult_mod_eq)
  then show ?thesis unfolding sector_of_def using sel(8) [of c] sel(9) [of c] c sel(2) by (simp add: algebra_simps)
qed

lemma swapped_props:
  assumes "2 \<le> n" "c < n"
  shows "swapped io_offset np c < n" "c' < n \<Longrightarrow> swapped io_offset np c = swapped io_offset np c' \<longleftrightarrow> c = c'"
  using assms by (auto simp: swapped_def)

lemma map_alloc_devidx:
  fixes zio_buf_alloc :: "nat \<Rightarrow> nat \<Rightarrow> u64 list"
  assumes io: "io_ok io_offset io_size sh dcols np" and data: "8 * length io_data = unat io_size"
  defines "a \<equiv> vdev_raidz_map_alloc zio_buf_alloc io_offset io_size io_data sh dcols np"
  shows "inj_on (\<lambda>c. rc_devidx (rm_col a ! c)) {..<rm_cols a}" "c < rm_cols a \<Longrightarrow> rc_devidx (rm_col a ! c) < dcols"
proof -
  note sel = map_alloc_sel [OF io data, where zio_buf_alloc = zio_buf_alloc, folded a_def] and ac = acols_bounds [OF io_okD(1) [OF io]]
  have n: "2 \<le> rm_cols a" "rm_cols a \<le> dcols" using sel(2) ac(1,2) io by (simp_all add: io_ok_def)
  show "inj_on (\<lambda>c. rc_devidx (rm_col a ! c)) {..<rm_cols a}"
  proof (rule inj_onI)
    fix x y assume xy: "x \<in> {..<rm_cols a}" "y \<in> {..<rm_cols a}" "rc_devidx (rm_col a ! x) = rc_devidx (rm_col a ! y)"
    have "swapped io_offset np x = swapped io_offset np y"
      by (rule mod_inj [of _ dcols _ "unat io_offset div 2 ^ sh"]) (use xy sel(2,8) swapped_props(1) [OF n(1), of _ io_offset np] n(2) in \<open>auto intro: less_le_trans\<close>)
    then show "x = y" using swapped_props(2) [OF n(1)] xy(1,2) by simp
  qed
  show "c < rm_cols a \<Longrightarrow> rc_devidx (rm_col a ! c) < dcols" using sel(2,8) n by simp
qed

lemma swapped_secs:
  assumes "stripe S dcols np"
  shows "secs S dcols np (swapped io_offset np c) = secs S dcols np c"
proof (cases "swaps io_offset np \<and> c < 2")
  case True
  then have "np = 1" by (simp add: swaps_def)
  then show ?thesis using True secs_first [OF assms] by (cases "c = 0") (auto simp: swapped_def less_2_cases_iff)
qed (auto simp: swapped_def)

text \<open>C19. Where a RAID-Z I/O lands. Its columns are on different children, the sectors of its
  columns are pairwise different, and all of them lie within the space of \<^verbatim>\<open>vdev_raidz_asize\<close> bytes
  that the allocator reserves from the offset of the block, so two blocks whose allocations are
  disjoint never share a sector. The size recorded in the map is the size the allocator reserves.\<close>

theorem vdev_raidz_map_alloc_layout:
  assumes "io_ok io_offset io_size sh dcols np" "8 * length io_data = unat io_size"
  shows "let rm = vdev_raidz_map_alloc zio_buf_alloc io_offset io_size io_data sh dcols np;
      b = unat io_offset div 2 ^ sh;
      used = {(c, k). c < rm_cols rm \<and> k < unat (rc_size (rm_col rm ! c)) div 2 ^ sh};
      place = (\<lambda>(c, k). sector_of sh dcols (rm_col rm ! c) k)
    in rm_asize rm = vdev_raidz_asize sh (of_nat dcols) (of_nat np) io_size \<and>
      inj_on (\<lambda>c. rc_devidx (rm_col rm ! c)) {..<rm_cols rm} \<and>
      inj_on place used \<and> place ` used \<subseteq> {b..<b + unat (rm_asize rm) div 2 ^ sh}"
proof -
  define rm where "rm = vdev_raidz_map_alloc zio_buf_alloc io_offset io_size io_data sh dcols np"
  define S b where "S = unat io_size div 2 ^ sh" "b = unat io_offset div 2 ^ sh"
  let ?used = "{(c, k). c < rm_cols rm \<and> k < unat (rc_size (rm_col rm ! c)) div 2 ^ sh}"
  let ?place = "\<lambda>(c, k). sector_of sh dcols (rm_col rm ! c) k"
  note sel = map_alloc_sel [OF assms, where zio_buf_alloc = zio_buf_alloc, folded rm_def S_b_def]
  note d = io_okD [OF assms(1), folded S_b_def]
  note ac = acols_bounds [OF d(1)] and st = stripeD [OF d(1)]
  note pl = sector_of_eq [OF assms, where zio_buf_alloc = zio_buf_alloc, folded rm_def S_b_def]
  have two: "2 \<le> acols S dcols np" using ac(1) st(1) by simp
  note sw = swapped_props [OF two, where io_offset = io_offset and np = np]
  have A: "rm_asize rm = vdev_raidz_asize sh (of_nat dcols) (of_nat np) io_size"
    by (rule word_unat_eq_iff [THEN iffD2])
      (simp only: rm_def map_alloc_asize [OF assms(1)] vdev_raidz_asize_total [OF assms(1)])
  have T: "unat (rm_asize rm) div 2 ^ sh = (total_secs S dcols np + np) div (np + 1) * (np + 1)"
    unfolding rm_def map_alloc_asize [OF assms(1)] S_b_def by simp
  have T': "total_secs S dcols np \<le> unat (rm_asize rm) div 2 ^ sh"
    unfolding T by (rule round_up_ge)
  have D: "inj_on (\<lambda>c. rc_devidx (rm_col rm ! c)) {..<rm_cols rm}" unfolding rm_def by (rule map_alloc_devidx(1) [OF assms])
  have I: "inj_on ?place ?used"
  proof (rule inj_onI, clarify)
    fix c k c' k' assume c: "c < rm_cols rm" "c' < rm_cols rm"
      and e: "sector_of sh dcols (rm_col rm ! c) k = sector_of sh dcols (rm_col rm ! c') k'"
    have l: "swapped io_offset np c < dcols" "swapped io_offset np c' < dcols" using sw(1) c sel(2) ac(2) less_le_trans by metis+
    from e have eq: "swapped io_offset np c + k * dcols = swapped io_offset np c' + k' * dcols" unfolding pl [OF c(1)] pl [OF c(2)] by simp
    from arg_cong [OF eq, of "\<lambda>x. x mod dcols"] have "swapped io_offset np c = swapped io_offset np c'" using l by simp
    moreover from this eq have "k = k'" using st by simp
    ultimately show "c = c' \<and> k = k'" using sw(2) c sel(2) by simp
  qed
  have R: "?place ` ?used \<subseteq> {b..<b + unat (rm_asize rm) div 2 ^ sh}"
  proof clarify
    fix c k assume c: "c < rm_cols rm" and k: "k < unat (rc_size (rm_col rm ! c)) div 2 ^ sh"
    have "k < secs S dcols np (swapped io_offset np c)" using k sel(4) [of c] c sel(2) by (simp add: swapped_secs [OF d(1)])
    then have "swapped io_offset np c + k * dcols < total_secs S dcols np"
      using secs_in_total [OF d(1)] sw(1) c sel(2) by simp
    then show "sector_of sh dcols (rm_col rm ! c) k \<in> {b..<b + unat (rm_asize rm) div 2 ^ sh}"
      using T' unfolding pl [OF c] by simp
  qed
  show ?thesis unfolding Let_def rm_def [symmetric] S_b_def(2) [symmetric] using A D I R by blast
qed

theorem vdev_raidz_map_alloc_layout_witness:
  "rm_asize (vdev_raidz_map_alloc (\<lambda>c n. replicate n 0) 0x100200 0x600 (replicate 192 5) 9 4 1) = vdev_raidz_asize 9 4 1 0x600"
  using vdev_raidz_map_alloc_layout [of "0x100200" "0x600" 9 4 1 "replicate 192 5" "\<lambda>c n. replicate n 0"]
  by (simp add: Let_def io_ok_def)

end
