(* ===== verification/Vdev.thy ===== *)
theory Vdev
  imports Space_Map Blkptr
begin

text \<open>
  What the replicated vdevs share: vdev states (\<^verbatim>\<open>sys/fs/zfs.h\<close>), the flags and types of an I/O
  (\<^verbatim>\<open>sys/zio.h\<close>), the tests of \<^verbatim>\<open>vdev.c\<close> on a vdev and its dirty time logs (DTLs): space maps
  of the transaction groups a vdev has missed. A vdev is a tree; a call that follows the parent
  pointers works on the list of vdevs from a leaf up to the root.
\<close>

section \<open>States, errors and flags\<close>

datatype vdev_state = VDEV_STATE_UNKNOWN | VDEV_STATE_CLOSED | VDEV_STATE_OFFLINE | VDEV_STATE_REMOVED
  | VDEV_STATE_CANT_OPEN | VDEV_STATE_FAULTED | VDEV_STATE_DEGRADED | VDEV_STATE_HEALTHY

primrec vdev_state_num :: "vdev_state \<Rightarrow> nat" where
  "vdev_state_num VDEV_STATE_UNKNOWN = 0"
| "vdev_state_num VDEV_STATE_CLOSED = 1"
| "vdev_state_num VDEV_STATE_OFFLINE = 2"
| "vdev_state_num VDEV_STATE_REMOVED = 3"
| "vdev_state_num VDEV_STATE_CANT_OPEN = 4"
| "vdev_state_num VDEV_STATE_FAULTED = 5"
| "vdev_state_num VDEV_STATE_DEGRADED = 6"
| "vdev_state_num VDEV_STATE_HEALTHY = 7"

lemma vdev_state_num_inj: "vdev_state_num a = vdev_state_num b \<longleftrightarrow> a = b"
  by (cases a; cases b) simp_all

instantiation vdev_state :: linorder
begin

definition less_eq_vdev_state :: "vdev_state \<Rightarrow> vdev_state \<Rightarrow> bool" where
  "a \<le> b \<longleftrightarrow> vdev_state_num a \<le> vdev_state_num b"

definition less_vdev_state :: "vdev_state \<Rightarrow> vdev_state \<Rightarrow> bool" where
  "a < b \<longleftrightarrow> vdev_state_num a < vdev_state_num b"

instance
  by standard (auto simp: less_eq_vdev_state_def less_vdev_state_def vdev_state_num_inj)

end

datatype vdev_aux = VDEV_AUX_NONE | VDEV_AUX_OPEN_FAILED | VDEV_AUX_CORRUPT_DATA | VDEV_AUX_NO_REPLICAS
  | VDEV_AUX_BAD_GUID_SUM | VDEV_AUX_TOO_SMALL | VDEV_AUX_BAD_LABEL | VDEV_AUX_VERSION_NEWER
  | VDEV_AUX_VERSION_OLDER | VDEV_AUX_SPARED | VDEV_AUX_ERR_EXCEEDED | VDEV_AUX_IO_FAILURE | VDEV_AUX_BAD_LOG

datatype zio_type = ZIO_TYPE_NULL | ZIO_TYPE_READ | ZIO_TYPE_WRITE | ZIO_TYPE_FREE | ZIO_TYPE_CLAIM | ZIO_TYPE_IOCTL

text \<open>Error numbers of the host's \<^verbatim>\<open>errno.h\<close>.\<close>

definition EIO :: int where "EIO = 5"
definition ENXIO :: int where "ENXIO = 6"
definition EINVAL :: int where "EINVAL = 22"
definition ENOSPC :: int where "ENOSPC = 28"
definition ENOTSUP :: int where "ENOTSUP = 95"
definition ESTALE :: int where "ESTALE = 116"
definition ECKSUM :: int where "ECKSUM = 52"

lemmas errno_defs = EIO_def ENXIO_def EINVAL_def ENOSPC_def ENOTSUP_def ESTALE_def ECKSUM_def

definition ZIO_FLAG_CANFAIL :: u32 where "ZIO_FLAG_CANFAIL = 0x00001"
definition ZIO_FLAG_FAILFAST :: u32 where "ZIO_FLAG_FAILFAST = 0x00002"
definition ZIO_FLAG_DONT_PROPAGATE :: u32 where "ZIO_FLAG_DONT_PROPAGATE = 0x00040"
definition ZIO_FLAG_IO_BYPASS :: u32 where "ZIO_FLAG_IO_BYPASS = 0x00200"
definition ZIO_FLAG_IO_REPAIR :: u32 where "ZIO_FLAG_IO_REPAIR = 0x00400"
definition ZIO_FLAG_SPECULATIVE :: u32 where "ZIO_FLAG_SPECULATIVE = 0x00800"
definition ZIO_FLAG_RESILVER :: u32 where "ZIO_FLAG_RESILVER = 0x01000"
definition ZIO_FLAG_SCRUB :: u32 where "ZIO_FLAG_SCRUB = 0x02000"
definition ZIO_FLAG_SCRUB_THREAD :: u32 where "ZIO_FLAG_SCRUB_THREAD = 0x04000"

abbreviation has_flag :: "u32 \<Rightarrow> u32 \<Rightarrow> bool" where
  "has_flag flags f \<equiv> flags AND f \<noteq> 0"

section \<open>A vdev\<close>

record vdev_stat =
  vs_aux :: vdev_aux
  vs_ops :: "zio_type \<Rightarrow> u64"
  vs_bytes :: "zio_type \<Rightarrow> u64"
  vs_read_errors :: u64
  vs_write_errors :: u64
  vs_checksum_errors :: u64
  vs_self_healed :: u64
  vs_scrub_repaired :: u64

record vdev_info =
  vdev_guid :: u64
  vdev_state :: vdev_state
  vdev_is_failing :: bool
  vdev_stats :: vdev_stat
  vdev_dtl_map :: space_map
  vdev_dtl_scrub :: space_map

datatype vdev = Vdev (vdev_info: vdev_info) (vdev_child: "vdev list")

definition vdev_is_dead :: "vdev_info \<Rightarrow> bool" where
  "vdev_is_dead vd \<longleftrightarrow> vdev_state vd < VDEV_STATE_DEGRADED \<and> vs_aux (vdev_stats vd) \<noteq> VDEV_AUX_IO_FAILURE"

definition vdev_readable :: "vdev_info \<Rightarrow> bool" where
  "vdev_readable vd \<longleftrightarrow> \<not> vdev_is_dead vd"

definition vdev_writeable :: "vdev_info \<Rightarrow> bool" where
  "vdev_writeable vd \<longleftrightarrow> \<not> vdev_is_dead vd \<and> \<not> vdev_is_failing vd"

section \<open>Dirty time logs\<close>

definition vdev_dtl_dirty :: "bool \<Rightarrow> space_map \<Rightarrow> u64 \<Rightarrow> u64 \<Rightarrow> space_map option" where
  "vdev_dtl_dirty zr sm txg sz = do {
     c \<leftarrow> space_map_contains sm txg sz;
     if \<not> c then space_map_add zr sm txg sz else Some sm }"

definition vdev_dtl_contains :: "space_map \<Rightarrow> u64 \<Rightarrow> u64 \<Rightarrow> bool option" where
  "vdev_dtl_contains sm txg sz = (if sm_space sm = 0 then Some False else space_map_contains sm txg sz)"

text \<open>
  \<^verbatim>\<open>vdev_dtl_reassess()\<close>: the flag \<open>scrub_ok\<close> is
  \<^verbatim>\<open>spa->spa_scrub_started || spa->spa_scrub_errors == 0\<close>; the second result lists the leaves it
  puts on the DTL list of the transaction group.
\<close>

definition reassess_leaf :: "bool \<Rightarrow> bool \<Rightarrow> u64 \<Rightarrow> u64 \<Rightarrow> bool \<Rightarrow> vdev_info \<Rightarrow> (vdev_info \<times> u64 list) option" where
  "reassess_leaf zr scrub_ok txg scrub_txg scrub_done vd = do {
     m \<leftarrow> (if scrub_txg \<noteq> 0 \<and> scrub_ok then do {
             m \<leftarrow> space_map_excise zr (vdev_dtl_map vd) 0 scrub_txg;
             space_map_union zr m (vdev_dtl_scrub vd) }
           else Some (vdev_dtl_map vd));
     (s, _) \<leftarrow> (if scrub_done then space_map_vacate (vdev_dtl_scrub vd) None () else Some (vdev_dtl_scrub vd, ()));
     Some (vd\<lparr>vdev_dtl_map := m, vdev_dtl_scrub := s\<rparr>, if txg \<noteq> 0 then [vdev_guid vd] else []) }"

fun vdev_dtl_reassess :: "bool \<Rightarrow> bool \<Rightarrow> u64 \<Rightarrow> u64 \<Rightarrow> bool \<Rightarrow> vdev \<Rightarrow> (vdev \<times> u64 list) option"
  and reassess_children :: "bool \<Rightarrow> bool \<Rightarrow> u64 \<Rightarrow> u64 \<Rightarrow> bool \<Rightarrow> vdev_info \<Rightarrow> vdev list \<Rightarrow> (vdev_info \<times> vdev list \<times> u64 list) option" where
  "vdev_dtl_reassess zr scrub_ok txg scrub_txg scrub_done (Vdev vd cs) =
     (if cs = [] then do {
        (vd', ds) \<leftarrow> reassess_leaf zr scrub_ok txg scrub_txg scrub_done vd;
        Some (Vdev vd' [], ds) }
      else do {
        (m, _) \<leftarrow> space_map_vacate (vdev_dtl_map vd) None ();
        (s, _) \<leftarrow> space_map_vacate (vdev_dtl_scrub vd) None ();
        (vd', cs', ds) \<leftarrow> reassess_children zr scrub_ok txg scrub_txg scrub_done (vd\<lparr>vdev_dtl_map := m, vdev_dtl_scrub := s\<rparr>) cs;
        Some (Vdev vd' cs', ds) })"
| "reassess_children zr scrub_ok txg scrub_txg scrub_done vd [] = Some (vd, [], [])"
| "reassess_children zr scrub_ok txg scrub_txg scrub_done vd (c # cs) = do {
     (c', d) \<leftarrow> vdev_dtl_reassess zr scrub_ok txg scrub_txg scrub_done c;
     m \<leftarrow> space_map_union zr (vdev_dtl_map vd) (vdev_dtl_map (vdev_info c'));
     s \<leftarrow> space_map_union zr (vdev_dtl_scrub vd) (vdev_dtl_scrub (vdev_info c'));
     (vd', cs', ds) \<leftarrow> reassess_children zr scrub_ok txg scrub_txg scrub_done (vd\<lparr>vdev_dtl_map := m, vdev_dtl_scrub := s\<rparr>) cs;
     Some (vd', c' # cs', d @ ds) }"

section \<open>Statistics of a finished I/O\<close>

record zio_stat =
  io_type :: zio_type
  io_flags :: u32
  io_error :: int
  io_size :: u64
  io_txg :: u64
  io_delegate :: bool

definition dirty_path :: "bool \<Rightarrow> (vdev_info \<Rightarrow> space_map) \<Rightarrow> (space_map \<Rightarrow> vdev_info \<Rightarrow> vdev_info) \<Rightarrow> u64 \<Rightarrow> vdev_info list \<Rightarrow> vdev_info list option" where
  \<comment> \<open>for (pvd = vd; pvd != NULL; pvd = pvd->vdev_parent) vdev_dtl_dirty(...)\<close>
  "dirty_path zr get put txg path = foldM (\<lambda>acc vd. do { m \<leftarrow> vdev_dtl_dirty zr (get vd) txg 1; Some (acc @ [put m vd]) }) [] path"

definition stat_ok :: "zio_stat \<Rightarrow> vdev_stat \<Rightarrow> vdev_stat" where
  "stat_ok zio vs =
     (let vs = (if \<not> has_flag (io_flags zio) ZIO_FLAG_IO_BYPASS then
            vs\<lparr>vs_ops := (vs_ops vs)(io_type zio := vs_ops vs (io_type zio) + 1),
               vs_bytes := (vs_bytes vs)(io_type zio := vs_bytes vs (io_type zio) + io_size zio)\<rparr> else vs)
      in if has_flag (io_flags zio) ZIO_FLAG_IO_REPAIR \<and> \<not> io_delegate zio then
           (if has_flag (io_flags zio) ZIO_FLAG_SCRUB_THREAD then vs\<lparr>vs_scrub_repaired := vs_scrub_repaired vs + io_size zio\<rparr>
            else vs\<lparr>vs_self_healed := vs_self_healed vs + io_size zio\<rparr>)
         else vs)"

definition stat_error :: "zio_stat \<Rightarrow> vdev_stat \<Rightarrow> vdev_stat" where
  "stat_error zio vs =
     (let vs = (if io_type zio = ZIO_TYPE_READ then
            (if io_error zio = ECKSUM then vs\<lparr>vs_checksum_errors := vs_checksum_errors vs + 1\<rparr>
             else vs\<lparr>vs_read_errors := vs_read_errors vs + 1\<rparr>) else vs)
      in if io_type zio = ZIO_TYPE_WRITE then vs\<lparr>vs_write_errors := vs_write_errors vs + 1\<rparr> else vs)"

definition vdev_stat_update :: "bool \<Rightarrow> zio_stat \<Rightarrow> bool \<Rightarrow> vdev_info list \<Rightarrow> (vdev_info list \<times> u64 list) option" where
  \<comment> \<open>the path from the vdev of the I/O to the root, and the leaves put on a DTL list\<close>
  "vdev_stat_update zr zio is_leaf path =
     (let vd = hd path in
      if io_error zio = 0 then Some (vd\<lparr>vdev_stats := stat_ok zio (vdev_stats vd)\<rparr> # tl path, [])
      else if has_flag (io_flags zio) ZIO_FLAG_SPECULATIVE then Some (path, [])
      else let vd = (if vdev_readable vd then vd\<lparr>vdev_stats := stat_error zio (vdev_stats vd)\<rparr> else vd); path = vd # tl path in
      if io_type zio = ZIO_TYPE_WRITE then
        if io_txg zio = 0 \<or> \<not> is_leaf then Some (path, [])
        else do {
          path \<leftarrow> (if has_flag (io_flags zio) ZIO_FLAG_SCRUB_THREAD
                  then dirty_path zr vdev_dtl_scrub (\<lambda>m vd. vd\<lparr>vdev_dtl_scrub := m\<rparr>) (io_txg zio) path else Some path);
          if \<not> has_flag (io_flags zio) ZIO_FLAG_IO_REPAIR then do {
            c \<leftarrow> vdev_dtl_contains (vdev_dtl_map vd) (io_txg zio) 1;
            if c then Some (path, [])
            else do {
              path \<leftarrow> dirty_path zr vdev_dtl_map (\<lambda>m vd. vd\<lparr>vdev_dtl_map := m\<rparr>) (io_txg zio) path;
              Some (path, [vdev_guid vd]) } }
          else Some (path, []) }
      else Some (path, []))"

section \<open>Child I/Os\<close>

text \<open>
  What the vdevs with children keep in an I/O, the I/Os they issue to a child, and whether a
  finished I/O waits for more children (\<^verbatim>\<open>zio_vdev_io_redone\<close>) or goes on. The last field of a child
  I/O is the column or mirror child its completion is recorded in, if any.
\<close>

record vdev_zio = zio_stat +
  io_offset :: u64
  io_data :: "u64 list"
  io_numerrors :: nat

record child_io =
  ci_vdev :: nat
  ci_offset :: u64
  ci_data :: "u64 list"
  ci_size :: u64
  ci_type :: zio_type
  ci_flags :: u32
  ci_col :: "nat option"

datatype vdev_next = Redo "child_io list" | Finished "child_io list"

section \<open>What the DTLs stand for\<close>

definition dtl_ok :: "space_map \<Rightarrow> bool" where
  \<comment> \<open>a map over all transaction groups, as \<^verbatim>\<open>vdev_alloc_common()\<close> creates it\<close>
  "dtl_ok sm \<longleftrightarrow> sm_inv sm \<and> sm_start sm = 0 \<and> sm_size sm = - 1 \<and> sm_shift sm = 0"

lemma dtl_create: "dtl_ok (space_map_create 0 (- 1) 0)" "sm_set (space_map_create 0 (- 1) 0) = {}"
proof -
  have "unat (0 :: u64) + unat (- 1 :: u64) < 2 ^ 64" using unat_lt64 [of "- 1"] by simp
  from sm_inv_create [OF this, of 0] show "dtl_ok (space_map_create 0 (- 1) 0)" "sm_set (space_map_create 0 (- 1) 0) = {}"
    by (simp_all add: dtl_ok_def space_map_create_def)
qed

lemma dtl_aligned: "dtl_ok sm \<Longrightarrow> sm_aligned sm x"
  by (simp add: dtl_ok_def sm_aligned_def sm_unit_def P2PHASE_def)

lemma dtl_frame: "dtl_ok sm \<Longrightarrow> sm_frame sm sm' \<Longrightarrow> sm_inv sm' \<Longrightarrow> dtl_ok sm'"
  by (simp add: dtl_ok_def sm_frame_sel)

lemma unat_max: "unat (- 1 :: u64) = 2 ^ 64 - 1"
  by (simp add: unsigned_minus_1_eq_mask mask_eq_exp_minus_1)

lemma txg_below: "txg \<noteq> (- 1 :: u64) \<Longrightarrow> unat txg + 1 < 2 ^ 64"
proof -
  assume "txg \<noteq> (- 1 :: u64)"
  then have "unat txg \<noteq> 2 ^ 64 - 1" using unat_max by (metis word_unat_eq_iff)
  then show "unat txg + 1 < 2 ^ 64" using unat_lt64 [of txg] by linarith
qed

lemma dtl_contains_iff:
  assumes "dtl_ok sm" "txg \<noteq> - 1"
  shows "space_map_contains sm txg 1 = Some (unat txg \<in> sm_set sm)"
  using space_map_contains_iff [of sm 1 txg] dtl_aligned [OF assms(1)] txg_below [OF assms(2)] assms(1) by (simp add: dtl_ok_def)

lemma dtl_contains:
  assumes "dtl_ok sm" "txg \<noteq> - 1"
  shows "vdev_dtl_contains sm txg 1 = Some (unat txg \<in> sm_set sm)"
proof (cases "sm_space sm = 0")
  case True
  then have "card (sm_set sm) = 0" using assms(1) by (simp add: dtl_ok_def sm_inv_def)
  moreover have "finite (sm_set sm)" by (simp add: sm_set_def segs_set_def seg_set_def)
  ultimately show ?thesis using True by (simp add: vdev_dtl_contains_def)
qed (simp add: vdev_dtl_contains_def dtl_contains_iff [OF assms])

lemma dtl_dirty:
  assumes "dtl_ok sm" "txg \<noteq> - 1"
  shows "\<exists>sm'. vdev_dtl_dirty zr sm txg 1 = Some sm' \<and> dtl_ok sm' \<and> sm_set sm' = insert (unat txg) (sm_set sm)"
proof (cases "unat txg \<in> sm_set sm")
  case True
  then show ?thesis using assms by (auto simp: vdev_dtl_dirty_def dtl_contains_iff)
next
  case False
  have inv: "sm_inv sm" "sm_start sm = 0" "sm_size sm = - 1" using assms(1) by (simp_all add: dtl_ok_def)
  have "unat txg + unat (1 :: u64) \<le> unat (sm_start sm) + unat (sm_size sm)"
    using txg_below [OF assms(2)] unfolding inv(2,3) unat_max by simp
  moreover have "{unat txg..<unat txg + unat (1 :: u64)} = {unat txg}" by auto
  ultimately show ?thesis
    using space_map_add_Some [OF inv(1), of 1 txg zr] dtl_aligned [OF assms(1)] False inv dtl_frame [OF assms(1) sm_frame_upd]
    by (auto simp: vdev_dtl_dirty_def dtl_contains_iff [OF assms])
qed

lemma dtl_union:
  assumes "dtl_ok a" "dtl_ok b"
  shows "\<exists>c. space_map_union zr a b = Some c \<and> dtl_ok c \<and> sm_set c = sm_set a \<union> sm_set b"
proof -
  have "sm_inv a" "sm_inv b" "sm_start b = sm_start a" "sm_size b = sm_size a" "sm_shift b = sm_shift a"
    using assms by (simp_all add: dtl_ok_def)
  from space_map_union_Some [OF this, of zr] show ?thesis using dtl_frame [OF assms(1)] by blast
qed

lemma dtl_excise:
  assumes "dtl_ok a" "txg \<noteq> 0"
  shows "\<exists>c. space_map_excise zr a 0 txg = Some c \<and> dtl_ok c \<and> sm_set c = sm_set a - {0..<unat txg}"
proof -
  have "sm_inv a" "unat (0 :: u64) + unat txg < 2 ^ 64" using assms unat_lt64 [of txg] by (simp_all add: dtl_ok_def)
  from space_map_excise_Some [OF this(1) dtl_aligned [OF assms(1)] dtl_aligned [OF assms(1)] this(2) assms(2), of zr]
  show ?thesis using dtl_frame [OF assms(1)] by auto
qed

lemma dtl_vacate:
  assumes "dtl_ok a"
  shows "\<exists>c. space_map_vacate a None () = Some (c, ()) \<and> dtl_ok c \<and> sm_set c = {}"
  using space_map_vacate_Some [of a None "()"] assms dtl_frame [OF assms sm_frame_upd] by (auto simp: dtl_ok_def)

section \<open>Reassessing a tree of DTLs\<close>

fun vdev_ok :: "vdev \<Rightarrow> bool" where
  "vdev_ok (Vdev vd cs) \<longleftrightarrow> dtl_ok (vdev_dtl_map vd) \<and> dtl_ok (vdev_dtl_scrub vd) \<and> list_all vdev_ok cs"

abbreviation missing :: "vdev \<Rightarrow> nat set" where
  "missing v \<equiv> sm_set (vdev_dtl_map (vdev_info v))"

abbreviation scrubbing :: "vdev \<Rightarrow> nat set" where
  "scrubbing v \<equiv> sm_set (vdev_dtl_scrub (vdev_info v))"

fun reassessed :: "bool \<Rightarrow> nat \<Rightarrow> bool \<Rightarrow> vdev \<Rightarrow> vdev \<Rightarrow> bool" where
  \<comment> \<open>what the DTLs of a vdev should be, in terms of the sets they stand for\<close>
  "reassessed scrub_ok scrub_txg scrub_done (Vdev vd cs) v' \<longleftrightarrow> vdev_ok v' \<and>
     (if cs = [] then vdev_child v' = [] \<and>
        missing v' = (if scrub_txg \<noteq> 0 \<and> scrub_ok then sm_set (vdev_dtl_map vd) - {0..<scrub_txg} \<union> sm_set (vdev_dtl_scrub vd)
                      else sm_set (vdev_dtl_map vd)) \<and>
        scrubbing v' = (if scrub_done then {} else sm_set (vdev_dtl_scrub vd))
      else list_all2 (reassessed scrub_ok scrub_txg scrub_done) cs (vdev_child v') \<and>
        missing v' = (\<Union>c\<in>set (vdev_child v'). missing c) \<and> scrubbing v' = (\<Union>c\<in>set (vdev_child v'). scrubbing c))"

lemma reassess_leaf_ok:
  assumes "dtl_ok (vdev_dtl_map vd)" "dtl_ok (vdev_dtl_scrub vd)"
  shows "\<exists>vd' ds. reassess_leaf zr scrub_ok txg scrub_txg scrub_done vd = Some (vd', ds) \<and>
    reassessed scrub_ok (unat scrub_txg) scrub_done (Vdev vd []) (Vdev vd' [])"
proof -
  obtain s where s: "space_map_vacate (vdev_dtl_scrub vd) None () = Some (s, ())" "dtl_ok s" "sm_set s = {}"
    using dtl_vacate [OF assms(2)] by blast
  show ?thesis
  proof (cases "scrub_txg \<noteq> 0 \<and> scrub_ok")
    case True
    obtain m where m: "space_map_excise zr (vdev_dtl_map vd) 0 scrub_txg = Some m" "dtl_ok m"
        "sm_set m = sm_set (vdev_dtl_map vd) - {0..<unat scrub_txg}"
      using dtl_excise [OF assms(1), of scrub_txg zr] True by blast
    obtain u where u: "space_map_union zr m (vdev_dtl_scrub vd) = Some u" "dtl_ok u" "sm_set u = sm_set m \<union> sm_set (vdev_dtl_scrub vd)"
      using dtl_union [OF m(2) assms(2)] by blast
    show ?thesis using True m u s assms by (simp add: reassess_leaf_def unat_eq_zero)
  next
    case False
    then show ?thesis using s assms by (auto simp: reassess_leaf_def unat_eq_zero)
  qed
qed

lemma reassess_ok:
  "vdev_ok v \<Longrightarrow> \<exists>v' ds. vdev_dtl_reassess zr scrub_ok txg scrub_txg scrub_done v = Some (v', ds) \<and>
     reassessed scrub_ok (unat scrub_txg) scrub_done v v'"
  "list_all vdev_ok cs \<Longrightarrow> dtl_ok (vdev_dtl_map vd) \<Longrightarrow> dtl_ok (vdev_dtl_scrub vd) \<Longrightarrow>
     \<exists>vd' cs' ds. reassess_children zr scrub_ok txg scrub_txg scrub_done vd cs = Some (vd', cs', ds) \<and>
       list_all2 (reassessed scrub_ok (unat scrub_txg) scrub_done) cs cs' \<and> list_all vdev_ok cs' \<and>
       dtl_ok (vdev_dtl_map vd') \<and> dtl_ok (vdev_dtl_scrub vd') \<and>
       sm_set (vdev_dtl_map vd') = sm_set (vdev_dtl_map vd) \<union> (\<Union>c\<in>set cs'. missing c) \<and>
       sm_set (vdev_dtl_scrub vd') = sm_set (vdev_dtl_scrub vd) \<union> (\<Union>c\<in>set cs'. scrubbing c)"
proof (induction zr scrub_ok txg scrub_txg scrub_done v and zr scrub_ok txg scrub_txg scrub_done vd cs
    rule: vdev_dtl_reassess_reassess_children.induct)
  case (1 zr scrub_ok txg scrub_txg scrub_done vd cs)
  show ?case
  proof (cases "cs = []")
    case True
    from reassess_leaf_ok [of vd zr scrub_ok txg scrub_txg scrub_done] 1(2) True show ?thesis by auto
  next
    case False
    obtain m s where ms: "space_map_vacate (vdev_dtl_map vd) None () = Some (m, ())" "dtl_ok m" "sm_set m = {}"
        "space_map_vacate (vdev_dtl_scrub vd) None () = Some (s, ())" "dtl_ok s" "sm_set s = {}"
      using dtl_vacate [of "vdev_dtl_map vd"] dtl_vacate [of "vdev_dtl_scrub vd"] 1(2) by auto
    from 1(1) [OF False ms(1) refl ms(4) refl] 1(2) ms False show ?thesis by fastforce
  qed
next
  case (3 zr scrub_ok txg scrub_txg scrub_done vd c cs)
  obtain c' d where c: "vdev_dtl_reassess zr scrub_ok txg scrub_txg scrub_done c = Some (c', d)"
      "reassessed scrub_ok (unat scrub_txg) scrub_done c c'" using 3 by auto
  have c'ok: "dtl_ok (vdev_dtl_map (vdev_info c'))" "dtl_ok (vdev_dtl_scrub (vdev_info c'))" "vdev_ok c'"
    using c(2) by (cases c; cases c'; simp)+
  obtain m s where m: "space_map_union zr (vdev_dtl_map vd) (vdev_dtl_map (vdev_info c')) = Some m" "dtl_ok m"
      "sm_set m = sm_set (vdev_dtl_map vd) \<union> missing c'"
    and s: "space_map_union zr (vdev_dtl_scrub vd) (vdev_dtl_scrub (vdev_info c')) = Some s" "dtl_ok s"
      "sm_set s = sm_set (vdev_dtl_scrub vd) \<union> scrubbing c'"
    using dtl_union [OF 3(4) c'ok(1), of zr] dtl_union [OF 3(5) c'ok(2), of zr] by blast
  from 3(2) [OF c(1) refl m(1) s(1)] 3(3) m s
  obtain vd' cs' ds where r: "reassess_children zr scrub_ok txg scrub_txg scrub_done (vd\<lparr>vdev_dtl_map := m, vdev_dtl_scrub := s\<rparr>) cs = Some (vd', cs', ds)"
    "list_all2 (reassessed scrub_ok (unat scrub_txg) scrub_done) cs cs'" "list_all vdev_ok cs'"
    "dtl_ok (vdev_dtl_map vd')" "dtl_ok (vdev_dtl_scrub vd')"
    "sm_set (vdev_dtl_map vd') = sm_set m \<union> (\<Union>c\<in>set cs'. missing c)" "sm_set (vdev_dtl_scrub vd') = sm_set s \<union> (\<Union>c\<in>set cs'. scrubbing c)"
    by auto
  show ?case using c m s r c'ok by auto
qed simp_all

section \<open>Properties\<close>

text \<open>C17. Reassessing the DTLs of a vdev tree always returns. Every leaf then misses exactly what
  the finished scrub leaves it with, and every interior vdev misses exactly what some child misses.\<close>

theorem vdev_dtl_reassess_correct:
  assumes "vdev_ok v"
  shows "\<exists>v' ds. vdev_dtl_reassess zr scrub_ok txg scrub_txg scrub_done v = Some (v', ds) \<and>
    reassessed scrub_ok (unat scrub_txg) scrub_done v v'"
  by (rule reassess_ok(1) [OF assms])

definition demo_stat :: vdev_stat where
  "demo_stat = \<lparr>vs_aux = VDEV_AUX_NONE, vs_ops = (\<lambda>_. 0), vs_bytes = (\<lambda>_. 0), vs_read_errors = 0, vs_write_errors = 0,
     vs_checksum_errors = 0, vs_self_healed = 0, vs_scrub_repaired = 0\<rparr>"

definition demo_vdev :: vdev_info where
  "demo_vdev = \<lparr>vdev_guid = 17, vdev_state = VDEV_STATE_HEALTHY, vdev_is_failing = False, vdev_stats = demo_stat,
     vdev_dtl_map = space_map_create 0 (- 1) 0, vdev_dtl_scrub = space_map_create 0 (- 1) 0\<rparr>"

lemma demo_vdev_ok: "vdev_ok (Vdev demo_vdev [Vdev demo_vdev [], Vdev demo_vdev []])"
  by (simp add: demo_vdev_def dtl_create)

theorem vdev_dtl_reassess_correct_witness:
  "\<exists>v' ds. vdev_dtl_reassess False True 5 4 True (Vdev demo_vdev [Vdev demo_vdev [], Vdev demo_vdev []]) = Some (v', ds) \<and>
    length (vdev_child v') = 2 \<and> missing v' = (\<Union>c\<in>set (vdev_child v'). missing c)"
  using vdev_dtl_reassess_correct [OF demo_vdev_ok, of False True 5 4 True] by (auto simp: list_all2_Cons1)

lemma dirty_path_ok:
  assumes "\<And>vd. vd \<in> set path \<Longrightarrow> dtl_ok (vdev_dtl_map vd)" "txg \<noteq> - 1"
  shows "\<exists>path'. foldM (\<lambda>acc vd. do { m \<leftarrow> vdev_dtl_dirty zr (vdev_dtl_map vd) txg 1; Some (acc @ [vd\<lparr>vdev_dtl_map := m\<rparr>]) }) acc path =
      Some (acc @ path') \<and>
    list_all2 (\<lambda>vd vd'. \<exists>m. vd' = vd\<lparr>vdev_dtl_map := m\<rparr> \<and> dtl_ok m \<and> sm_set m = insert (unat txg) (sm_set (vdev_dtl_map vd))) path path'"
  using assms(1)
proof (induction path arbitrary: acc)
  case (Cons vd path)
  obtain m where m: "vdev_dtl_dirty zr (vdev_dtl_map vd) txg 1 = Some m" "dtl_ok m" "sm_set m = insert (unat txg) (sm_set (vdev_dtl_map vd))"
    using dtl_dirty [OF _ assms(2)] Cons.prems by fastforce
  obtain path' where "foldM (\<lambda>acc vd. do { m \<leftarrow> vdev_dtl_dirty zr (vdev_dtl_map vd) txg 1; Some (acc @ [vd\<lparr>vdev_dtl_map := m\<rparr>]) })
        (acc @ [vd\<lparr>vdev_dtl_map := m\<rparr>]) path = Some ((acc @ [vd\<lparr>vdev_dtl_map := m\<rparr>]) @ path')"
    "list_all2 (\<lambda>vd vd'. \<exists>m. vd' = vd\<lparr>vdev_dtl_map := m\<rparr> \<and> dtl_ok m \<and> sm_set m = insert (unat txg) (sm_set (vdev_dtl_map vd))) path path'"
    using Cons.IH [of "acc @ [vd\<lparr>vdev_dtl_map := m\<rparr>]"] Cons.prems by auto
  then show ?case using m by (intro exI [of _ "vd\<lparr>vdev_dtl_map := m\<rparr> # path'"]) auto
qed simp

text \<open>C35. A failed write to a leaf that is not a repair and not speculative is remembered: its
  transaction group is afterwards in the DTL of the leaf and, when it was not already there, in the
  DTL of every vdev above it and the leaf is put on the DTL list.\<close>

theorem vdev_stat_update_records_failed_write:
  assumes "\<And>v. v \<in> set (vd # parents) \<Longrightarrow> dtl_ok (vdev_dtl_map v)"
    and "io_error zio \<noteq> 0" "io_type zio = ZIO_TYPE_WRITE" "io_txg zio \<noteq> 0" "io_txg zio \<noteq> - 1"
    and "io_flags zio AND (ZIO_FLAG_SPECULATIVE OR ZIO_FLAG_IO_REPAIR OR ZIO_FLAG_SCRUB_THREAD) = 0"
  shows "\<exists>path ds. vdev_stat_update zr zio True (vd # parents) = Some (path, ds) \<and>
    unat (io_txg zio) \<in> sm_set (vdev_dtl_map (hd path)) \<and>
    (unat (io_txg zio) \<notin> sm_set (vdev_dtl_map vd) \<longrightarrow>
       ds = [vdev_guid vd] \<and> length path = Suc (length parents) \<and> (\<forall>v\<in>set path. unat (io_txg zio) \<in> sm_set (vdev_dtl_map v)))"
proof -
  have fl: "io_flags zio AND ZIO_FLAG_SPECULATIVE = 0" "io_flags zio AND ZIO_FLAG_IO_REPAIR = 0" "io_flags zio AND ZIO_FLAG_SCRUB_THREAD = 0"
    using assms(6) by (simp_all add: bit_eq_iff bit_simps)
  define vd1 where "vd1 = (if vdev_readable vd then vd\<lparr>vdev_stats := stat_error zio (vdev_stats vd)\<rparr> else vd)"
  have vd1: "vdev_dtl_map vd1 = vdev_dtl_map vd" "vdev_guid vd1 = vdev_guid vd" by (simp_all add: vd1_def)
  have ok: "dtl_ok (vdev_dtl_map v)" if "v \<in> set (vd1 # parents)" for v using assms(1) that vd1 by auto
  have c: "vdev_dtl_contains (vdev_dtl_map vd1) (io_txg zio) 1 = Some (unat (io_txg zio) \<in> sm_set (vdev_dtl_map vd))"
    using dtl_contains [OF ok [of vd1] assms(5)] vd1(1) by simp
  have E: "vdev_stat_update zr zio True (vd # parents) =
      (if unat (io_txg zio) \<in> sm_set (vdev_dtl_map vd) then Some (vd1 # parents, [])
       else do { path \<leftarrow> dirty_path zr vdev_dtl_map (\<lambda>m vd. vd\<lparr>vdev_dtl_map := m\<rparr>) (io_txg zio) (vd1 # parents); Some (path, [vdev_guid vd]) })"
    using assms(2-4) fl c [unfolded vd1(1)] unfolding vdev_stat_update_def Let_def list.sel vd1_def by (cases "vdev_readable vd") simp_all
  obtain path' where p: "dirty_path zr vdev_dtl_map (\<lambda>m vd. vd\<lparr>vdev_dtl_map := m\<rparr>) (io_txg zio) (vd1 # parents) = Some path'"
      "list_all2 (\<lambda>vd vd'. \<exists>m. vd' = vd\<lparr>vdev_dtl_map := m\<rparr> \<and> dtl_ok m \<and> sm_set m = insert (unat (io_txg zio)) (sm_set (vdev_dtl_map vd))) (vd1 # parents) path'"
    using dirty_path_ok [where path = "vd1 # parents" and acc = "[]", OF ok assms(5)] unfolding dirty_path_def append_Nil by blast
  have q: "unat (io_txg zio) \<in> sm_set (vdev_dtl_map v)" if "v \<in> set path'" for v
    using p(2) that by (auto simp: list_all2_conv_all_nth in_set_conv_nth)
  have "length path' = Suc (length parents)" "path' \<noteq> []" using list_all2_lengthD [OF p(2)] by auto
  then show ?thesis unfolding E using p(1) q vd1 hd_in_set by (cases "unat (io_txg zio) \<in> sm_set (vdev_dtl_map vd)") auto
qed

theorem vdev_stat_update_records_failed_write_witness:
  "\<exists>path ds. vdev_stat_update False \<lparr>io_type = ZIO_TYPE_WRITE, io_flags = ZIO_FLAG_CANFAIL, io_error = EIO, io_size = 512, io_txg = 7, io_delegate = False\<rparr>
     True [demo_vdev, demo_vdev] = Some (path, ds) \<and> 7 \<in> sm_set (vdev_dtl_map (hd path)) \<and> ds = [17]"
  using vdev_stat_update_records_failed_write [of demo_vdev "[demo_vdev]"
      "\<lparr>io_type = ZIO_TYPE_WRITE, io_flags = ZIO_FLAG_CANFAIL, io_error = EIO, io_size = 512, io_txg = 7, io_delegate = False\<rparr>" False]
  by (auto simp: demo_vdev_def dtl_create EIO_def ZIO_FLAG_CANFAIL_def ZIO_FLAG_SPECULATIVE_def ZIO_FLAG_IO_REPAIR_def ZIO_FLAG_SCRUB_THREAD_def)

end
