(* ===== verification/Raidz_IO.thy ===== *)
theory Raidz_IO
  imports Raidz_Map Vdev
begin

text \<open>
  Reads and writes of a RAID-Z vdev, the rest of \<^verbatim>\<open>src/lib/libzpool/vdev_raidz.c\<close>. Child I/Os are
  asynchronous: \<^verbatim>\<open>vdev_raidz_io_start\<close> and \<^verbatim>\<open>vdev_raidz_io_done\<close> return the child I/Os they
  issue, and \<^verbatim>\<open>vdev_raidz_child_done\<close> records the outcome of each in the map. The map owns the
  data buffer from \<^verbatim>\<open>io_start\<close> until \<^verbatim>\<open>vdev_raidz_map_free\<close>. The checksum test of the
  block, \<^verbatim>\<open>zio_checksum_error\<close>, and the contents of fresh buffers are arguments.
\<close>

section \<open>State\<close>

record raidz_zio = vdev_zio +
  io_birth :: u64
  io_vsd :: "raidz_map option"

record raidz_state =
  rs_zio :: raidz_zio
  rs_child :: "vdev_info list"
  rs_ereports :: "nat list"
  raidz_corrected_p :: u64
  raidz_corrected_q :: u64
  raidz_corrected_pq :: u64

definition rm_data :: "raidz_map \<Rightarrow> u64 list" where
  \<comment> \<open>the I/O buffer: the data columns one after the other\<close>
  "rm_data rm = concat (map rc_data (drop (rm_firstdatacol rm) (rm_col rm)))"

definition vdev_raidz_map_free :: "raidz_zio \<Rightarrow> raidz_zio" where
  "vdev_raidz_map_free zio =
     (case io_vsd zio of None \<Rightarrow> zio | Some rm \<Rightarrow> zio\<lparr>io_data := rm_data rm, io_vsd := None\<rparr>)"

definition set_col :: "nat \<Rightarrow> (raidz_col \<Rightarrow> raidz_col) \<Rightarrow> raidz_map \<Rightarrow> raidz_map" where
  "set_col c f rm = rm\<lparr>rm_col := (rm_col rm)[c := f (rm_col rm ! c)]\<rparr>"

definition col_io :: "zio_type \<Rightarrow> u32 \<Rightarrow> nat option \<Rightarrow> raidz_col \<Rightarrow> child_io" where
  "col_io type flags col rc =
     \<lparr>ci_vdev = rc_devidx rc, ci_offset = rc_offset rc, ci_data = rc_data rc, ci_size = rc_size rc,
      ci_type = type, ci_flags = flags, ci_col = col\<rparr>"

section \<open>Starting an I/O\<close>

definition start_read_col :: "vdev_info list \<Rightarrow> u64 \<Rightarrow> u32 \<Rightarrow> raidz_map \<times> child_io list \<Rightarrow> nat \<Rightarrow> (raidz_map \<times> child_io list) option" where
  "start_read_col children birth flags = (\<lambda>(rm, ios) c.
     let rc = rm_col rm ! c; cvd = children ! rc_devidx rc;
         miss = (\<lambda>rm. if c \<ge> rm_firstdatacol rm then rm\<lparr>rm_missingdata := rm_missingdata rm + 1\<rparr>
                      else rm\<lparr>rm_missingparity := rm_missingparity rm + 1\<rparr>) in
     if \<not> vdev_readable cvd then
       Some (set_col c (\<lambda>rc. rc\<lparr>rc_error := ENXIO, rc_tried := True, rc_skipped := True\<rparr>) (miss rm), ios)
     else do {
       stale \<leftarrow> vdev_dtl_contains (vdev_dtl_map cvd) birth 1;
       if stale then Some (set_col c (\<lambda>rc. rc\<lparr>rc_error := ESTALE, rc_skipped := True\<rparr>) (miss rm), ios)
       else if c \<ge> rm_firstdatacol rm \<or> rm_missingdata rm > 0 \<or> has_flag flags ZIO_FLAG_SCRUB
       then Some (rm, ios @ [col_io ZIO_TYPE_READ ZIO_FLAG_CANFAIL (Some c) rc])
       else Some (rm, ios) })"

definition generate_parity :: "raidz_map \<Rightarrow> raidz_map" where
  "generate_parity rm = (if rm_firstdatacol rm = 1 then vdev_raidz_generate_parity_p rm else vdev_raidz_generate_parity_pq rm)"

definition vdev_raidz_io_start :: "(nat \<Rightarrow> nat \<Rightarrow> u64 list) \<Rightarrow> nat \<Rightarrow> nat \<Rightarrow> vdev_info list \<Rightarrow> raidz_zio \<Rightarrow> (raidz_zio \<times> child_io list) option" where
  "vdev_raidz_io_start zio_buf_alloc ashift nparity children zio =
     (let rm = vdev_raidz_map_alloc zio_buf_alloc (io_offset zio) (io_size zio) (io_data zio) ashift (length children) nparity in
      if io_type zio = ZIO_TYPE_WRITE then
        let rm = generate_parity rm in
        Some (zio\<lparr>io_vsd := Some rm\<rparr>, map (\<lambda>c. col_io ZIO_TYPE_WRITE ZIO_FLAG_CANFAIL (Some c) (rm_col rm ! c)) [0..<rm_cols rm])
      else do {
        (rm, ios) \<leftarrow> foldM (start_read_col children (io_birth zio) (io_flags zio)) (rm, []) (rev [0..<rm_cols rm]);
        Some (zio\<lparr>io_vsd := Some rm\<rparr>, ios) })"

definition vdev_raidz_child_done :: "nat \<Rightarrow> int \<Rightarrow> raidz_map \<Rightarrow> raidz_map" where
  "vdev_raidz_child_done c error rm = set_col c (\<lambda>rc. rc\<lparr>rc_error := error, rc_tried := True, rc_skipped := False\<rparr>) rm"

definition vdev_raidz_repair_done :: "raidz_zio \<Rightarrow> raidz_zio" where
  "vdev_raidz_repair_done zio = vdev_raidz_map_free zio"

section \<open>Finishing an I/O\<close>

definition raidz_checksum_error :: "nat \<Rightarrow> raidz_state \<Rightarrow> raidz_state" where
  "raidz_checksum_error devidx st =
     (if has_flag (io_flags (rs_zio st)) ZIO_FLAG_SPECULATIVE then st
      else st\<lparr>rs_child := (rs_child st)[devidx := (rs_child st ! devidx)
           \<lparr>vdev_stats := (vdev_stats (rs_child st ! devidx))\<lparr>vs_checksum_errors := vs_checksum_errors (vdev_stats (rs_child st ! devidx)) + 1\<rparr>\<rparr>],
           rs_ereports := rs_ereports st @ [devidx]\<rparr>)"

definition verify_col :: "raidz_map \<Rightarrow> nat \<Rightarrow> nat \<times> raidz_state \<times> raidz_map \<Rightarrow> nat \<times> raidz_state \<times> raidz_map" where
  "verify_col old c = (\<lambda>(ret, st, rm).
     let rc = rm_col rm ! c in
     if \<not> rc_tried rc \<or> rc_error rc \<noteq> 0 then (ret, st, rm)
     else if col_data old c \<noteq> rc_data rc
     then (ret + 1, raidz_checksum_error (rc_devidx rc) st, set_col c (\<lambda>rc. rc\<lparr>rc_error := ECKSUM\<rparr>) rm)
     else (ret, st, rm))"

definition raidz_parity_verify :: "raidz_state \<Rightarrow> raidz_map \<Rightarrow> nat \<times> raidz_state \<times> raidz_map" where
  "raidz_parity_verify st rm = fold (verify_col rm) [0..<rm_firstdatacol rm] (0, st, generate_parity rm)"

record raidz_errs =
  e_error :: int
  e_num :: nat
  e_unexpected :: nat
  e_parity :: nat
  e_untried :: nat
  e_data :: nat

definition count_col :: "raidz_map \<Rightarrow> nat \<Rightarrow> raidz_errs \<Rightarrow> raidz_errs" where
  "count_col rm c e =
     (let rc = rm_col rm ! c in
      if rc_error rc \<noteq> 0 then
        e\<lparr>e_error := (if e_error e \<noteq> EIO then rc_error rc else e_error e),
          e_parity := (if c < rm_firstdatacol rm then e_parity e + 1 else e_parity e),
          e_data := (if c < rm_firstdatacol rm then e_data e else e_data e + 1),
          e_unexpected := (if \<not> rc_skipped rc then e_unexpected e + 1 else e_unexpected e),
          e_num := e_num e + 1\<rparr>
      else if c < rm_firstdatacol rm \<and> \<not> rc_tried rc then e\<lparr>e_untried := e_untried e + 1\<rparr>
      else e)"

definition count_errors :: "raidz_map \<Rightarrow> raidz_errs" where
  "count_errors rm = fold (count_col rm) [0..<rm_cols rm]
     \<lparr>e_error = 0, e_num = 0, e_unexpected = 0, e_parity = 0, e_untried = 0, e_data = 0\<rparr>"

fun next_error :: "raidz_map \<Rightarrow> nat list \<Rightarrow> nat" where
  \<comment> \<open>for (; c < rm->rm_cols; c++) if (rm->rm_col[c].rc_error != 0) break;\<close>
  "next_error rm [] = rm_cols rm"
| "next_error rm (c # cs) = (if rc_error (rm_col rm ! c) \<noteq> 0 then c else next_error rm cs)"

text \<open>
  The first phase of a read, the \<^verbatim>\<open>switch (data_errors)\<close>. The result says whether it goes to the
  end of the routine, with the number of unexpected errors.
\<close>

definition correct_known :: "(nat \<Rightarrow> nat \<Rightarrow> u64 list) \<Rightarrow> (u64 list \<Rightarrow> int) \<Rightarrow> raidz_errs \<Rightarrow> raidz_state \<Rightarrow> raidz_map \<Rightarrow>
    nat option \<times> raidz_state \<times> raidz_map" where
  "correct_known zio_buf_alloc zio_checksum_error e st rm =
     (let resilver = has_flag (io_flags (rs_zio st)) ZIO_FLAG_RESILVER in
      if e_data e = 0 then
        if zio_checksum_error (rm_data rm) = 0 then
          let st = st\<lparr>rs_zio := (rs_zio st)\<lparr>io_error := 0\<rparr>\<rparr> in
          if e_parity e + e_untried e < rm_firstdatacol rm \<or> resilver then
            let (n, st, rm) = raidz_parity_verify st rm in (Some (e_unexpected e + n), st, rm)
          else (Some (e_unexpected e), st, rm)
        else (None, st, rm)
      else if e_data e = 1 then
        let c = next_error rm [rm_firstdatacol rm..<rm_cols rm];
            p_ok = (rc_error (rm_col rm ! VDEV_RAIDZ_P) = 0);
            rm = (if p_ok then vdev_raidz_reconstruct_p c rm else vdev_raidz_reconstruct_q c rm) in
        if zio_checksum_error (rm_data rm) = 0 then
          let st = st\<lparr>rs_zio := (rs_zio st)\<lparr>io_error := 0\<rparr>\<rparr>;
              st = (if p_ok then st\<lparr>raidz_corrected_p := raidz_corrected_p st + 1\<rparr>
                    else st\<lparr>raidz_corrected_q := raidz_corrected_q st + 1\<rparr>) in
          if e_parity e < rm_firstdatacol rm - 1 \<or> resilver then
            let (n, st, rm) = raidz_parity_verify st rm in (Some (e_unexpected e + n), st, rm)
          else (Some (e_unexpected e), st, rm)
        else (None, st, rm)
      else if e_data e = 2 then
        let c1 = next_error rm [rm_firstdatacol rm..<rm_cols rm];
            c = next_error rm [Suc c1..<rm_cols rm];
            rm = vdev_raidz_reconstruct_pq zio_buf_alloc c1 c rm in
        if zio_checksum_error (rm_data rm) = 0 then
          (Some (e_unexpected e), st\<lparr>rs_zio := (rs_zio st)\<lparr>io_error := 0\<rparr>, raidz_corrected_pq := raidz_corrected_pq st + 1\<rparr>, rm)
        else (None, st, rm)
      else (None, st, rm))"

text \<open>Combinatorial reconstruction: try the columns in turn, putting the old contents back.\<close>

fun combine_one :: "(nat \<Rightarrow> raidz_map \<Rightarrow> raidz_map) \<Rightarrow> (u64 list \<Rightarrow> int) \<Rightarrow> nat list \<Rightarrow> raidz_map \<Rightarrow> nat option \<times> raidz_map" where
  "combine_one reconstruct zio_checksum_error [] rm = (None, rm)"
| "combine_one reconstruct zio_checksum_error (c # cs) rm =
     (let orig = col_data rm c; rm' = reconstruct c rm in
      if zio_checksum_error (rm_data rm') = 0 then (Some c, rm')
      else combine_one reconstruct zio_checksum_error cs (set_data c orig rm'))"

fun combine_inner :: "(nat \<Rightarrow> nat \<Rightarrow> u64 list) \<Rightarrow> (u64 list \<Rightarrow> int) \<Rightarrow> nat \<Rightarrow> nat list \<Rightarrow> raidz_map \<Rightarrow> nat option \<times> raidz_map" where
  "combine_inner zio_buf_alloc zio_checksum_error c [] rm = (None, rm)"
| "combine_inner zio_buf_alloc zio_checksum_error c (c1 # cs) rm =
     (let orig1 = col_data rm c1; rm' = vdev_raidz_reconstruct_pq zio_buf_alloc c c1 rm in
      if zio_checksum_error (rm_data rm') = 0 then (Some c1, rm')
      else combine_inner zio_buf_alloc zio_checksum_error c cs (set_data c1 orig1 rm'))"

fun combine_two :: "(nat \<Rightarrow> nat \<Rightarrow> u64 list) \<Rightarrow> (u64 list \<Rightarrow> int) \<Rightarrow> nat list \<Rightarrow> raidz_map \<Rightarrow> (nat \<times> nat) option \<times> raidz_map" where
  "combine_two zio_buf_alloc zio_checksum_error [] rm = (None, rm)"
| "combine_two zio_buf_alloc zio_checksum_error (c # cs) rm =
     (let orig = col_data rm c in
      case combine_inner zio_buf_alloc zio_checksum_error c [Suc c..<rm_cols rm] rm of
        (Some c1, rm') \<Rightarrow> (Some (c, c1), rm')
      | (None, rm') \<Rightarrow> combine_two zio_buf_alloc zio_checksum_error cs (set_data c orig rm'))"

definition impute :: "nat \<Rightarrow> raidz_state \<times> raidz_map \<Rightarrow> raidz_state \<times> raidz_map" where
  \<comment> \<open>a column that returned bad data without knowing\<close>
  "impute c = (\<lambda>(st, rm). let rc = rm_col rm ! c in
     (if rc_tried rc \<and> rc_error rc = 0 then raidz_checksum_error (rc_devidx rc) st else st,
      set_col c (\<lambda>rc. rc\<lparr>rc_error := ECKSUM\<rparr>) rm))"

definition combinatorial :: "(nat \<Rightarrow> nat \<Rightarrow> u64 list) \<Rightarrow> (u64 list \<Rightarrow> int) \<Rightarrow> raidz_state \<Rightarrow> raidz_map \<Rightarrow> raidz_state \<times> raidz_map" where
  "combinatorial zio_buf_alloc zio_checksum_error st rm =
     (let fd = rm_firstdatacol rm; cols = [fd..<rm_cols rm];
          ok = (\<lambda>st. st\<lparr>rs_zio := (rs_zio st)\<lparr>io_error := 0\<rparr>\<rparr>);
          p_ok = (rc_error (rm_col rm ! VDEV_RAIDZ_P) = 0);
          q_ok = (fd > 1 \<and> rc_error (rm_col rm ! VDEV_RAIDZ_Q) = 0);
          (r1, rm) = (if p_ok then combine_one vdev_raidz_reconstruct_p zio_checksum_error cols rm else (None, rm)) in
      case r1 of Some c \<Rightarrow> impute c ((ok st)\<lparr>raidz_corrected_p := raidz_corrected_p st + 1\<rparr>, rm)
      | None \<Rightarrow>
     (let (r2, rm) = (if q_ok then combine_one vdev_raidz_reconstruct_q zio_checksum_error cols rm else (None, rm)) in
      case r2 of Some c \<Rightarrow> impute c ((ok st)\<lparr>raidz_corrected_q := raidz_corrected_q st + 1\<rparr>, rm)
      | None \<Rightarrow>
     (let (r3, rm) = (if p_ok \<and> q_ok then combine_two zio_buf_alloc zio_checksum_error [fd..<rm_cols rm - 1] rm else (None, rm)) in
      case r3 of Some (c, c1) \<Rightarrow> 
        let (st', rm') = impute c ((ok st)\<lparr>raidz_corrected_pq := raidz_corrected_pq st + 1\<rparr>, rm) in impute c1 (st', rm')
      | None \<Rightarrow>
        (let st = st\<lparr>rs_zio := (rs_zio st)\<lparr>io_error := ECKSUM\<rparr>\<rparr> in
         (if \<not> has_flag (io_flags (rs_zio st)) ZIO_FLAG_SPECULATIVE
          then st\<lparr>rs_ereports := rs_ereports st @ map (\<lambda>c. rc_devidx (rm_col rm ! c)) [0..<rm_cols rm]\<rparr> else st, rm)))))"

definition finish :: "bool \<Rightarrow> nat \<Rightarrow> raidz_state \<Rightarrow> raidz_map \<Rightarrow> vdev_next \<times> raidz_state" where
  \<comment> \<open>from the label \<^verbatim>\<open>done\<close>: repair damaged children, or free the map\<close>
  "finish writable unexpected_errors st rm =
     (let zio = (rs_zio st)\<lparr>io_vsd := Some rm\<rparr> in
      if io_error zio = 0 \<and> writable \<and> (unexpected_errors \<noteq> 0 \<or> has_flag (io_flags zio) ZIO_FLAG_RESILVER)
      then (Finished (map (\<lambda>c. col_io ZIO_TYPE_WRITE (ZIO_FLAG_IO_REPAIR OR ZIO_FLAG_DONT_PROPAGATE OR ZIO_FLAG_CANFAIL) None (rm_col rm ! c))
              (filter (\<lambda>c. rc_error (rm_col rm ! c) \<noteq> 0) [0..<rm_cols rm])), st\<lparr>rs_zio := zio\<rparr>)
      else (Finished [], st\<lparr>rs_zio := vdev_raidz_map_free zio\<rparr>))"

definition vdev_raidz_io_done :: "(nat \<Rightarrow> nat \<Rightarrow> u64 list) \<Rightarrow> (u64 list \<Rightarrow> int) \<Rightarrow> bool \<Rightarrow> raidz_state \<Rightarrow> raidz_map \<Rightarrow> vdev_next \<times> raidz_state" where
  "vdev_raidz_io_done zio_buf_alloc zio_checksum_error writable st rm =
     (let e = count_errors rm;
          st = st\<lparr>rs_zio := (rs_zio st)\<lparr>io_error := e_error e, io_numerrors := e_num e\<rparr>\<rparr> in
      if io_type (rs_zio st) = ZIO_TYPE_WRITE then
        let zio = (rs_zio st)\<lparr>io_error := (if e_num e \<le> rm_firstdatacol rm \<and> \<not> has_flag (io_flags (rs_zio st)) ZIO_FLAG_FAILFAST
              then 0 else e_error e), io_vsd := Some rm\<rparr>
        in (Finished [], st\<lparr>rs_zio := vdev_raidz_map_free zio\<rparr>)
      else
        let (r, st, rm) = (if e_num e \<le> rm_firstdatacol rm - e_untried e
              then correct_known zio_buf_alloc zio_checksum_error e st rm else (None, st, rm)) in
        case r of Some unexpected_errors \<Rightarrow> finish writable unexpected_errors st rm
        | None \<Rightarrow>
          (let rm = rm\<lparr>rm_missingdata := 0, rm_missingparity := 0\<rparr>;
               untried = filter (\<lambda>c. \<not> rc_tried (rm_col rm ! c)) [0..<rm_cols rm] in
           if untried \<noteq> [] then
             (Redo (map (\<lambda>c. col_io ZIO_TYPE_READ ZIO_FLAG_CANFAIL (Some c) (rm_col rm ! c)) untried),
              st\<lparr>rs_zio := (rs_zio st)\<lparr>io_error := 0, io_vsd := Some rm\<rparr>\<rparr>)
           else if e_num e \<ge> rm_firstdatacol rm then finish writable 1 st rm
           else let (st, rm) = combinatorial zio_buf_alloc zio_checksum_error st rm in finish writable 1 st rm))"

section \<open>Opening, closing and health\<close>

definition vdev_raidz_open :: "(nat \<Rightarrow> int) \<Rightarrow> (nat \<Rightarrow> u64) \<Rightarrow> (nat \<Rightarrow> u64) \<Rightarrow> nat \<Rightarrow> nat \<Rightarrow> u64 \<Rightarrow> u64 \<Rightarrow> int \<times> vdev_aux option \<times> u64 \<times> u64" where
  \<comment> \<open>\<^verbatim>\<open>vdev_open()\<close> of a child and the size and shift it then has are arguments\<close>
  "vdev_raidz_open vdev_open vdev_asize vdev_ashift nparity children asize ashift =
     (if nparity > VDEV_RAIDZ_MAXPARITY \<or> children < nparity + 1 then (EINVAL, Some VDEV_AUX_BAD_LABEL, asize, ashift)
      else
        let (lasterror, numerrors, asize, ashift) =
          fold (\<lambda>c (lasterror, numerrors, asize, ashift).
            if vdev_open c \<noteq> 0 then (vdev_open c, numerrors + 1, asize, ashift)
            else (lasterror, numerrors, min (asize - 1) (vdev_asize c - 1) + 1, max ashift (vdev_ashift c)))
          [0..<children] (0, 0 :: nat, asize, ashift);
          asize = asize * of_nat children
        in if numerrors > nparity then (lasterror, Some VDEV_AUX_NO_REPLICAS, asize, ashift) else (0, None, asize, ashift))"

definition vdev_raidz_state_change :: "nat \<Rightarrow> int \<Rightarrow> int \<Rightarrow> vdev_state \<times> vdev_aux" where
  \<comment> \<open>the state and the reason handed to \<^verbatim>\<open>vdev_set_state()\<close>\<close>
  "vdev_raidz_state_change nparity faulted degraded =
     (if faulted > int nparity then (VDEV_STATE_CANT_OPEN, VDEV_AUX_NO_REPLICAS)
      else if degraded + faulted \<noteq> 0 then (VDEV_STATE_DEGRADED, VDEV_AUX_NONE)
      else (VDEV_STATE_HEALTHY, VDEV_AUX_NONE))"

section \<open>Counting errors\<close>

lemma count_prefix:
  "n \<le> rm_cols rm \<Longrightarrow>
   (let e = fold (count_col rm) [0..<n] \<lparr>e_error = 0, e_num = 0, e_unexpected = 0, e_parity = 0, e_untried = 0, e_data = 0\<rparr> in
     e_num e = card {c. c < n \<and> rc_error (rm_col rm ! c) \<noteq> 0} \<and>
     e_parity e = card {c. c < n \<and> c < rm_firstdatacol rm \<and> rc_error (rm_col rm ! c) \<noteq> 0} \<and>
     e_data e = card {c. c < n \<and> rm_firstdatacol rm \<le> c \<and> rc_error (rm_col rm ! c) \<noteq> 0} \<and>
     e_untried e = card {c. c < n \<and> c < rm_firstdatacol rm \<and> rc_error (rm_col rm ! c) = 0 \<and> \<not> rc_tried (rm_col rm ! c)} \<and>
     (e_error e = 0 \<longleftrightarrow> e_num e = 0))"
proof (induction n)
  case (Suc n)
  have S: "{c. c < Suc n \<and> P c} = (if P n then insert n {c. c < n \<and> P c} else {c. c < n \<and> P c})" for P by (auto simp: less_Suc_eq)
  have "n \<notin> {c. c < n \<and> P c}" "finite {c. c < n \<and> P c}" for P by simp_all
  then have C: "card {c. c < Suc n \<and> P c} = card {c. c < n \<and> P c} + (if P n then 1 else 0)" for P unfolding S by simp
  let ?z = "\<lparr>e_error = 0, e_num = 0, e_unexpected = 0, e_parity = 0, e_untried = 0, e_data = 0\<rparr>"
  obtain e where e: "fold (count_col rm) [0..<n] ?z = e" by blast
  have F: "fold (count_col rm) [0..<Suc n] ?z = count_col rm n e" by (simp add: e)
  show ?case using Suc unfolding C F e Let_def
    by (cases "rc_error (rm_col rm ! n) = 0"; cases "n < rm_firstdatacol rm"; cases "rc_tried (rm_col rm ! n)")
      (auto simp: count_col_def EIO_def Let_def)
qed simp

lemma count_errors:
  "e_num (count_errors rm) = card {c. c < rm_cols rm \<and> rc_error (rm_col rm ! c) \<noteq> 0}"
  "e_parity (count_errors rm) = card {c. c < rm_cols rm \<and> c < rm_firstdatacol rm \<and> rc_error (rm_col rm ! c) \<noteq> 0}"
  "e_data (count_errors rm) = card {c. c < rm_cols rm \<and> rm_firstdatacol rm \<le> c \<and> rc_error (rm_col rm ! c) \<noteq> 0}"
  "e_untried (count_errors rm) = card {c. c < rm_cols rm \<and> c < rm_firstdatacol rm \<and> rc_error (rm_col rm ! c) = 0 \<and> \<not> rc_tried (rm_col rm ! c)}"
  "e_error (count_errors rm) = 0 \<longleftrightarrow> e_num (count_errors rm) = 0"
  using count_prefix [of "rm_cols rm" rm] by (simp_all add: count_errors_def Let_def)

section \<open>What an update leaves alone\<close>

lemma rm_data_set_data: "c < rm_firstdatacol rm \<Longrightarrow> rm_data (set_data c d rm) = rm_data rm"
  by (simp add: rm_data_def set_data_def)

lemma map_update_same: "f y = f (xs ! n) \<Longrightarrow> map f (xs[n := y]) = map f xs"
  by (metis list_update_id map_update)

lemma rm_data_set_col:
  assumes "\<And>rc. rc_data (f rc) = rc_data rc"
  shows "rm_data (set_col c f rm) = rm_data rm"
  unfolding rm_data_def set_col_def by (simp flip: drop_map) (simp add: map_update_same assms)

lemma set_col_sel [simp]:
  "rm_firstdatacol (set_col c f rm) = rm_firstdatacol rm" "rm_cols (set_col c f rm) = rm_cols rm"
  "length (rm_col (set_col c f rm)) = length (rm_col rm)"
  by (simp_all add: set_col_def)

lemma generate_parity_data:
  assumes "0 < rm_firstdatacol rm"
  shows "rm_data (generate_parity rm) = rm_data rm" "rm_firstdatacol (generate_parity rm) = rm_firstdatacol rm"
proof -
  have p: "rm_data (fold gen_p_col cs r) = rm_data r \<and> rm_firstdatacol (fold gen_p_col cs r) = rm_firstdatacol r"
    if "0 < rm_firstdatacol r" for cs r
    using that by (induction cs arbitrary: r) (simp_all add: gen_p_col_def rm_data_set_data set_data_sel PQ_defs)
  have q: "rm_data (fold gen_pq_col cs r) = rm_data r \<and> rm_firstdatacol (fold gen_pq_col cs r) = rm_firstdatacol r"
    if "1 < rm_firstdatacol r" for cs r
    using that by (induction cs arbitrary: r) (simp_all add: gen_pq_col_def rm_data_set_data set_data_sel PQ_defs Let_def)
  have fd: "rm_firstdatacol rm = 1 \<or> 1 < rm_firstdatacol rm" using assms by auto
  show "rm_data (generate_parity rm) = rm_data rm" "rm_firstdatacol (generate_parity rm) = rm_firstdatacol rm"
    using fd p [of rm] q [of rm] unfolding generate_parity_def vdev_raidz_generate_parity_p_def vdev_raidz_generate_parity_pq_def by auto
qed

lemma raidz_checksum_error_zio [simp]: "rs_zio (raidz_checksum_error d st) = rs_zio st"
  by (simp add: raidz_checksum_error_def)

lemma verify_col_frame:
  assumes "verify_col old c (n, st, rm) = (n', st', rm')"
  shows "rm_data rm' = rm_data rm" "rs_zio st' = rs_zio st"
  using assms by (auto simp: verify_col_def Let_def rm_data_set_col split: if_splits)

lemma verify_fold_frame:
  "fold (verify_col old) cs (n, st, rm) = (n', st', rm') \<Longrightarrow> rm_data rm' = rm_data rm \<and> rs_zio st' = rs_zio st"
proof (induction cs arbitrary: n st rm)
  case (Cons c cs)
  obtain n1 st1 rm1 where v: "verify_col old c (n, st, rm) = (n1, st1, rm1)" by (metis prod_cases3)
  from Cons.IH [of n1 st1 rm1] Cons.prems verify_col_frame [OF v] show ?case by (simp add: v)
qed simp

lemma raidz_parity_verify_frame:
  assumes "raidz_parity_verify st rm = (n, st', rm')" "0 < rm_firstdatacol rm"
  shows "rm_data rm' = rm_data rm" "rs_zio st' = rs_zio st"
  using verify_fold_frame [OF assms(1) [unfolded raidz_parity_verify_def]] generate_parity_data [OF assms(2)] by simp_all

lemma impute_frame:
  assumes "impute c (st, rm) = (st', rm')"
  shows "rm_data rm' = rm_data rm" "rs_zio st' = rs_zio st"
  using assms by (auto simp: impute_def Let_def rm_data_set_col split: if_splits)

definition final_data :: "raidz_state \<Rightarrow> u64 list" where
  \<comment> \<open>the I/O buffer after the I/O: still owned by the map while repairs are under way\<close>
  "final_data st = (case io_vsd (rs_zio st) of None \<Rightarrow> io_data (rs_zio st) | Some rm \<Rightarrow> rm_data rm)"

lemma finish_frame:
  assumes "finish writable u st rm = (nxt, st')"
  shows "final_data st' = rm_data rm" "io_error (rs_zio st') = io_error (rs_zio st)" "\<exists>ios. nxt = Finished ios"
  using assms by (auto simp: finish_def Let_def final_data_def vdev_raidz_map_free_def split: if_splits)

section \<open>Success means a valid checksum\<close>

lemma correct_known_sound:
  assumes "correct_known zb ck e st rm = (Some u, st', rm')" "0 < rm_firstdatacol rm"
    and fd: "\<And>c. rm_firstdatacol (vdev_raidz_reconstruct_p c rm) = rm_firstdatacol rm" "\<And>c. rm_firstdatacol (vdev_raidz_reconstruct_q c rm) = rm_firstdatacol rm"
  shows "ck (rm_data rm') = 0" "io_error (rs_zio st') = 0"
proof -
  consider "e_data e = 0" | "e_data e = 1" | "e_data e = 2" | "e_data e > 2" by linarith
  then have "ck (rm_data rm') = 0 \<and> io_error (rs_zio st') = 0"
  proof cases
    case 1
    then show ?thesis using assms(1,2)
      by (auto simp: correct_known_def Let_def split: if_splits prod.splits dest: raidz_parity_verify_frame)
  next
    case 2
    then show ?thesis using assms
      by (auto simp: correct_known_def Let_def split: if_splits prod.splits dest: raidz_parity_verify_frame)
  next
    case 3
    then show ?thesis using assms(1) by (auto simp: correct_known_def Let_def split: if_splits)
  next
    case 4
    then show ?thesis using assms(1) by (auto simp: correct_known_def Let_def)
  qed
  then show "ck (rm_data rm') = 0" "io_error (rs_zio st') = 0" by simp_all
qed

lemma reconstruct_firstdatacol:
  "rm_firstdatacol (vdev_raidz_reconstruct_p c rm) = rm_firstdatacol rm"
  "rm_firstdatacol (vdev_raidz_reconstruct_q c rm) = rm_firstdatacol rm"
proof -
  have p: "rm_firstdatacol (fold (rec_p_col c) cs r) = rm_firstdatacol r" for cs r
    by (induction cs arbitrary: r) (simp_all add: rec_p_col_def set_data_sel)
  have q: "rm_firstdatacol (fold (rec_q_col c) cs r) = rm_firstdatacol r" for cs r
    by (induction cs arbitrary: r) (simp_all add: rec_q_col_def set_data_sel Let_def)
  show "rm_firstdatacol (vdev_raidz_reconstruct_p c rm) = rm_firstdatacol rm"
    by (simp add: vdev_raidz_reconstruct_p_def p set_data_sel)
  show "rm_firstdatacol (vdev_raidz_reconstruct_q c rm) = rm_firstdatacol rm"
    by (simp add: vdev_raidz_reconstruct_q_def q set_data_sel Let_def)
qed

lemma set_size_firstdatacol: "rm_firstdatacol (set_size c z rm) = rm_firstdatacol rm"
  by (simp add: set_size_def)

lemma reconstruct_pq_firstdatacol:
  "rm_firstdatacol (vdev_raidz_reconstruct_pq zb x y rm) = rm_firstdatacol rm"
proof -
  have g: "rm_firstdatacol (fold gen_pq_col cs r) = rm_firstdatacol r" for cs r
    by (induction cs arbitrary: r) (simp_all add: gen_pq_col_def set_data_sel Let_def)
  show ?thesis
    unfolding vdev_raidz_reconstruct_pq_def Let_def vdev_raidz_generate_parity_pq_def
    by (simp only: set_data_sel(2) set_size_firstdatacol g)
qed

lemma combine_one_sound: "combine_one rec ck cs rm = (Some c, rm') \<Longrightarrow> ck (rm_data rm') = 0"
  by (induction cs arbitrary: rm) (auto simp: Let_def split: if_splits)

lemma combine_inner_sound: "combine_inner zb ck c cs rm = (Some c1, rm') \<Longrightarrow> ck (rm_data rm') = 0"
  by (induction cs arbitrary: rm) (auto simp: Let_def split: if_splits)

lemma combine_two_sound: "combine_two zb ck cs rm = (Some cc, rm') \<Longrightarrow> ck (rm_data rm') = 0"
proof (induction cs arbitrary: rm)
  case (Cons c cs)
  obtain r rm1 where r: "combine_inner zb ck c [Suc c..<rm_cols rm] rm = (r, rm1)" by fastforce
  show ?case using Cons combine_inner_sound [of zb ck c "[Suc c..<rm_cols rm]" rm] r
    by (cases r) (auto simp: Let_def)
qed simp

lemma combinatorial_sound:
  assumes "combinatorial zb ck st rm = (st', rm')" "io_error (rs_zio st') = 0"
  shows "ck (rm_data rm') = 0"
proof -
  let ?fd = "rm_firstdatacol rm" let ?p = "rc_error (rm_col rm ! VDEV_RAIDZ_P) = 0" and ?q = "?fd > 1 \<and> rc_error (rm_col rm ! VDEV_RAIDZ_Q) = 0"
  obtain r1 rm1 where 1: "(if ?p then combine_one vdev_raidz_reconstruct_p ck [?fd..<rm_cols rm] rm else (None, rm)) = (r1, rm1)" by fastforce
  obtain r2 rm2 where 2: "(if ?q then combine_one vdev_raidz_reconstruct_q ck [?fd..<rm_cols rm] rm1 else (None, rm1)) = (r2, rm2)" by fastforce
  obtain r3 rm3 where 3: "(if ?p \<and> ?q then combine_two zb ck [?fd..<rm_cols rm2 - 1] rm2 else (None, rm2)) = (r3, rm3)" by fastforce
  show ?thesis
  proof (cases r1)
    case (Some c)
    then have "ck (rm_data rm1) = 0" using 1 combine_one_sound by (auto split: if_splits)
    moreover have "impute c (st\<lparr>rs_zio := (rs_zio st)\<lparr>io_error := 0\<rparr>, raidz_corrected_p := raidz_corrected_p st + 1\<rparr>, rm1) = (st', rm')"
      using assms(1) 1 Some unfolding combinatorial_def Let_def by simp
    ultimately show ?thesis using impute_frame(1) by fastforce
  next
    case None1: None
    show ?thesis
    proof (cases r2)
      case (Some c)
      then have "ck (rm_data rm2) = 0" using 2 combine_one_sound by (auto split: if_splits)
      moreover have "impute c (st\<lparr>rs_zio := (rs_zio st)\<lparr>io_error := 0\<rparr>, raidz_corrected_q := raidz_corrected_q st + 1\<rparr>, rm2) = (st', rm')"
        using assms(1) 1 2 None1 Some unfolding combinatorial_def Let_def by simp
      ultimately show ?thesis using impute_frame(1) by fastforce
    next
      case None2: None
      show ?thesis
      proof (cases r3)
        case (Some cc)
        then have k: "ck (rm_data rm3) = 0" using 3 combine_two_sound by (auto split: if_splits)
        obtain a b where cc: "cc = (a, b)" by fastforce
        obtain st1 rm4 where i: "impute a (st\<lparr>rs_zio := (rs_zio st)\<lparr>io_error := 0\<rparr>, raidz_corrected_pq := raidz_corrected_pq st + 1\<rparr>, rm3) = (st1, rm4)" by fastforce
        have "impute b (st1, rm4) = (st', rm')"
          using assms(1) 1 2 3 None1 None2 Some cc i unfolding combinatorial_def Let_def by simp
        then show ?thesis using impute_frame(1) [OF i] impute_frame(1) k by fastforce
      next
        case None
        then have "io_error (rs_zio st') = ECKSUM"
          using assms(1) 1 2 3 None1 None2 unfolding combinatorial_def Let_def by (auto split: if_splits)
        then show ?thesis using assms(2) by (simp add: ECKSUM_def)
      qed
    qed
  qed
qed

lemma io_done_read:
  fixes rm :: raidz_map and st :: raidz_state
  assumes "io_type (rs_zio st) \<noteq> ZIO_TYPE_WRITE"
  defines "e \<equiv> count_errors rm"
  defines "st0 \<equiv> st\<lparr>rs_zio := (rs_zio st)\<lparr>io_error := e_error e, io_numerrors := e_num e\<rparr>\<rparr>"
  assumes k: "(if e_num e \<le> rm_firstdatacol rm - e_untried e then correct_known zb ck e st0 rm else (None, st0, rm)) = (r, st1, rm1)"
  shows "vdev_raidz_io_done zb ck writable st rm =
    (case r of Some u \<Rightarrow> finish writable u st1 rm1
     | None \<Rightarrow> let rm = rm1\<lparr>rm_missingdata := 0, rm_missingparity := 0\<rparr>;
         untried = filter (\<lambda>c. \<not> rc_tried (rm_col rm ! c)) [0..<rm_cols rm] in
       if untried \<noteq> [] then
         (Redo (map (\<lambda>c. col_io ZIO_TYPE_READ ZIO_FLAG_CANFAIL (Some c) (rm_col rm ! c)) untried),
          st1\<lparr>rs_zio := (rs_zio st1)\<lparr>io_error := 0, io_vsd := Some rm\<rparr>\<rparr>)
       else if e_num e \<ge> rm_firstdatacol rm then finish writable 1 st1 rm
       else let (st, rm) = combinatorial zb ck st1 rm in finish writable 1 st rm)"
  using assms(1) k unfolding vdev_raidz_io_done_def Let_def e_def [symmetric] st0_def [symmetric]
  by (simp add: st0_def split del: if_split)

lemma correct_known_None:
  assumes "correct_known zb ck e st rm = (None, st', rm')"
  shows "st' = st" "rm_firstdatacol rm' = rm_firstdatacol rm"
  using assms by (auto simp: correct_known_def Let_def reconstruct_firstdatacol reconstruct_pq_firstdatacol split: if_splits prod.splits)

lemma io_done_sound:
  assumes rd: "io_type (rs_zio st) \<noteq> ZIO_TYPE_WRITE" and fd: "0 < rm_firstdatacol rm"
    and res: "vdev_raidz_io_done zb ck writable st rm = (Finished ios, st')" "io_error (rs_zio st') = 0"
  shows "ck (final_data st') = 0"
proof -
  define e where "e = count_errors rm"
  define st0 where "st0 = st\<lparr>rs_zio := (rs_zio st)\<lparr>io_error := e_error e, io_numerrors := e_num e\<rparr>\<rparr>"
  obtain r st1 rm1 where k: "(if e_num e \<le> rm_firstdatacol rm - e_untried e then correct_known zb ck e st0 rm else (None, st0, rm)) = (r, st1, rm1)"
    by (metis prod_cases3)
  note D = io_done_read [OF rd k [unfolded e_def st0_def], of writable, folded e_def]
  show ?thesis
  proof (cases r)
    case (Some u)
    then have c: "correct_known zb ck e st0 rm = (Some u, st1, rm1)" using k by (auto split: if_splits)
    have "finish writable u st1 rm1 = (Finished ios, st')" using res(1) D Some by simp
    then show ?thesis using correct_known_sound(1) [OF c fd reconstruct_firstdatacol] finish_frame(1) by simp
  next
    case None
    have st1: "st1 = st0" "rm_firstdatacol rm1 = rm_firstdatacol rm" using k None correct_known_None by (auto split: if_splits)
    let ?rm = "rm1\<lparr>rm_missingdata := 0, rm_missingparity := 0\<rparr>"
    have D': "(if e_num e \<ge> rm_firstdatacol rm then finish writable 1 st1 ?rm
       else let (st, rm) = combinatorial zb ck st1 ?rm in finish writable 1 st rm) = (Finished ios, st')"
      using res(1) D None st1(2) by (auto simp: Let_def split: if_splits)
    show ?thesis
    proof (cases "e_num e \<ge> rm_firstdatacol rm")
      case True
      then have "io_error (rs_zio st') = e_error e" using D' finish_frame(2) [of writable 1 st1 ?rm] by (simp add: st1(1) st0_def)
      moreover have "e_error e \<noteq> 0" using True fd count_errors(5) [of rm] by (simp add: e_def)
      ultimately show ?thesis using res(2) by simp
    next
      case False
      obtain st2 rm2 where c: "combinatorial zb ck st1 ?rm = (st2, rm2)" by fastforce
      then have f: "finish writable 1 st2 rm2 = (Finished ios, st')" using D' False by simp
      then show ?thesis using combinatorial_sound [OF c] finish_frame(1,2) [OF f] res(2) by simp
    qed
  qed
qed

section \<open>Reconstruction from what was read\<close>

definition same_shape :: "raidz_map \<Rightarrow> raidz_map \<Rightarrow> bool" where
  "same_shape g rm \<longleftrightarrow> rm_cols rm = rm_cols g \<and> rm_firstdatacol rm = rm_firstdatacol g \<and> length (rm_col rm) = rm_cols g \<and>
     (\<forall>c < rm_cols g. rc_size (rm_col rm ! c) = rc_size (rm_col g ! c) \<and> length (col_data rm c) = length (col_data g c))"

definition fill :: "raidz_map \<Rightarrow> nat set \<Rightarrow> raidz_map \<Rightarrow> raidz_map" where
  \<comment> \<open>the map with the right data in every column but some\<close>
  "fill g K rm = rm\<lparr>rm_col := map (\<lambda>c. if c \<in> K then rm_col rm ! c else (rm_col rm ! c)\<lparr>rc_data := col_data g c\<rparr>) [0..<rm_cols rm]\<rparr>"

lemma same_shapeD:
  assumes "same_shape g rm"
  shows "rm_cols rm = rm_cols g" "rm_firstdatacol rm = rm_firstdatacol g" "length (rm_col rm) = rm_cols g"
    "c < rm_cols g \<Longrightarrow> rc_size (rm_col rm ! c) = rc_size (rm_col g ! c)"
    "c < rm_cols g \<Longrightarrow> length (col_data rm c) = length (col_data g c)"
  using assms unfolding same_shape_def by blast+

lemma fill_sel:
  assumes "same_shape g rm"
  shows "rm_cols (fill g K rm) = rm_cols g" "rm_firstdatacol (fill g K rm) = rm_firstdatacol g" "length (rm_col (fill g K rm)) = rm_cols g"
    "c < rm_cols g \<Longrightarrow> rm_col (fill g K rm) ! c = (if c \<in> K then rm_col rm ! c else (rm_col rm ! c)\<lparr>rc_data := col_data g c\<rparr>)"
    "c < rm_cols g \<Longrightarrow> rc_size (rm_col (fill g K rm) ! c) = rc_size (rm_col g ! c)"
    "c < rm_cols g \<Longrightarrow> c \<notin> K \<Longrightarrow> col_data (fill g K rm) c = col_data g c"
  using same_shapeD [OF assms] by (simp_all add: fill_def)

lemma rm_ok_transfer:
  assumes "rm_ok g" "length (rm_col rm) = rm_cols g" "rm_cols rm = rm_cols g" "rm_firstdatacol rm = rm_firstdatacol g"
    and s: "\<And>c. c < rm_cols g \<Longrightarrow> rc_size (rm_col rm ! c) = rc_size (rm_col g ! c)"
    and d: "\<And>c. c < rm_cols g \<Longrightarrow> length (col_data rm c) = length (col_data g c)"
  shows "rm_ok rm"
proof -
  note w = rm_wfD [OF rm_okD(1) [OF assms(1)]] and l = rm_okD(2) [OF assms(1)]
  have z: "0 < rm_cols g" using w(2,3) by simp
  show ?thesis unfolding rm_ok_def rm_wf_def assms(2-4)
  proof (intro conjI allI impI)
    fix c assume c: "c < rm_cols g"
    show "length (col_data rm c) = col_words rm c" "col_words rm c \<le> length (col_data rm c)" using l [OF c] s [OF c] d [OF c] by simp_all
    show "col_words rm c \<le> col_words rm 0" using w(5) [OF c] s [OF c] s [OF z] by simp
    assume "c < rm_firstdatacol g"
    with w(6) [OF this] s [OF c] s [OF z] d [OF c]
    show "length (col_data rm c) = col_words rm 0" "col_words rm c = col_words rm 0" by simp_all
  qed (use w(2,3) in simp_all)
qed

lemma same_shape_ok:
  assumes "same_shape g rm" "rm_ok g"
  shows "rm_ok rm"
  by (rule rm_ok_transfer [OF assms(2)]) (simp_all only: same_shapeD [OF assms(1)])

lemma fill_ok:
  assumes sh: "same_shape g rm" and ok: "rm_ok g"
  shows "rm_ok (fill g K rm)"
proof (rule rm_ok_transfer [OF ok])
  fix c assume c: "c < rm_cols g"
  show "rc_size (rm_col (fill g K rm) ! c) = rc_size (rm_col g ! c)" by (rule fill_sel(5) [OF sh c])
  show "length (col_data (fill g K rm) c) = length (col_data g c)"
    using fill_sel(4) [OF sh c, of K] same_shapeD(5) [OF sh c] by simp
qed (simp_all add: fill_sel [OF sh])

lemma fill_pad:
  assumes "same_shape g rm" "c < rm_cols g" "c \<notin> K"
  shows "pad (fill g K rm) i c = pad g i c"
  using fill_sel(5,6) [OF assms(1,2)] assms(3) by (simp add: pad_def)

lemma fill_parity:
  assumes sh: "same_shape g rm" and K: "\<And>c. c \<in> K \<Longrightarrow> c < rm_firstdatacol g" and ok: "rm_ok g"
  shows "0 \<notin> K \<Longrightarrow> parity_p_ok g \<Longrightarrow> parity_p_ok (fill g K rm)"
    "1 \<notin> K \<Longrightarrow> 1 < rm_firstdatacol g \<Longrightarrow> parity_q_ok g \<Longrightarrow> parity_q_ok (fill g K rm)"
proof -
  note w = rm_wfD [OF rm_okD(1) [OF ok]]
  have z: "0 < rm_cols g" using w(2,3) by simp
  have c: "xors (pad (fill g K rm) i) [rm_firstdatacol g..<rm_cols g] = xors (pad g i) [rm_firstdatacol g..<rm_cols g]"
    "horner (pad (fill g K rm) i) [rm_firstdatacol g..<rm_cols g] = horner (pad g i) [rm_firstdatacol g..<rm_cols g]" for i
    using K fill_pad [OF sh, where K = K] by (intro xors_cong horner_cong; force)+
  show "0 \<notin> K \<Longrightarrow> parity_p_ok g \<Longrightarrow> parity_p_ok (fill g K rm)"
    unfolding parity_p_ok_def fill_sel(1,2) [OF sh] fill_sel(5) [OF sh z] c using fill_sel(6) [OF sh z] by simp
  show "1 \<notin> K \<Longrightarrow> 1 < rm_firstdatacol g \<Longrightarrow> parity_q_ok g \<Longrightarrow> parity_q_ok (fill g K rm)"
    unfolding parity_q_ok_def fill_sel(1,2) [OF sh] fill_sel(5) [OF sh z] c using fill_sel(6) [OF sh, of 1] w(3) by simp
qed

lemma rm_data_eq:
  assumes "rm_firstdatacol a = rm_firstdatacol b" "length (rm_col a) = length (rm_col b)"
    "\<And>c. rm_firstdatacol b \<le> c \<Longrightarrow> c < length (rm_col b) \<Longrightarrow> col_data a c = col_data b c"
  shows "rm_data a = rm_data b"
proof -
  have "map rc_data (drop (rm_firstdatacol a) (rm_col a)) = map rc_data (drop (rm_firstdatacol b) (rm_col b))"
    by (rule nth_equalityI) (use assms in auto)
  then show ?thesis by (simp add: rm_data_def)
qed

lemma fill_data:
  assumes sh: "same_shape g rm" and K: "\<And>c. c \<in> K \<Longrightarrow> c < rm_firstdatacol g" and ok: "rm_ok g"
  shows "rm_data (fill g K rm) = rm_data g"
  by (rule rm_data_eq) (use fill_sel [OF sh] K rm_wfD(1) [OF rm_okD(1) [OF ok]] in force)+

lemma fill_only_data:
  assumes sh: "same_shape g rm" and good: "\<And>c. c < rm_cols g \<Longrightarrow> c \<notin> K \<Longrightarrow> c \<notin> S \<Longrightarrow> col_data rm c = col_data g c"
  shows "only_data S (fill g K rm) rm"
proof -
  have "rm\<lparr>rm_col := []\<rparr> = (fill g K rm)\<lparr>rm_col := []\<rparr>" by (simp add: fill_def)
  moreover have "(rm_col rm ! c)\<lparr>rc_data := []\<rparr> = (rm_col (fill g K rm) ! c)\<lparr>rc_data := []\<rparr> \<and>
      (c \<notin> S \<longrightarrow> col_data rm c = col_data (fill g K rm) c) \<and> length (col_data rm c) = length (col_data (fill g K rm) c)"
    if "c < rm_cols g" for c
    using fill_sel(4) [OF sh that] good [OF that] same_shapeD(5) [OF sh that] by auto
  ultimately show ?thesis unfolding only_data_def using fill_sel(3) [OF sh] same_shapeD(3) [OF sh] by simp
qed

text \<open>What each kind of reconstruction needs to have been read correctly.\<close>

lemma read_p:
  assumes sh: "same_shape g rm" and ok: "rm_ok g" and par: "parity_ok g"
    and x: "rm_firstdatacol g \<le> x" "x < rm_cols g"
    and good: "\<And>c. c = 0 \<or> (rm_firstdatacol g \<le> c \<and> c < rm_cols g \<and> c \<noteq> x) \<Longrightarrow> col_data rm c = col_data g c"
  shows "rm_data (vdev_raidz_reconstruct_p x rm) = rm_data g"
proof -
  let ?K = "{c. 0 < c \<and> c < rm_firstdatacol g}"
  have "only_data {x} (fill g ?K rm) rm" by (rule fill_only_data [OF sh]) (use good in auto)
  then have "vdev_raidz_reconstruct_p x rm = fill g ?K rm"
    using reconstruct_p_good [OF fill_ok [OF sh ok] fill_parity(1) [OF sh _ ok _ parity_okD(1) [OF par]], of ?K x rm] x fill_sel(1,2) [OF sh] by simp
  then show ?thesis using fill_data [OF sh _ ok, of ?K] by simp
qed

lemma read_q:
  assumes sh: "same_shape g rm" and ok: "rm_ok g" and par: "parity_ok g" and fd: "1 < rm_firstdatacol g" and n: "rm_cols g \<le> 256"
    and x: "rm_firstdatacol g \<le> x" "x < rm_cols g"
    and good: "\<And>c. c = 1 \<or> (rm_firstdatacol g \<le> c \<and> c < rm_cols g \<and> c \<noteq> x) \<Longrightarrow> col_data rm c = col_data g c"
    and two: "rm_firstdatacol g = 2"
  shows "rm_data (vdev_raidz_reconstruct_q x rm) = rm_data g"
proof -
  have "only_data {0, x} (fill g {0} rm) rm"
  proof (rule fill_only_data [OF sh])
    fix c assume "c < rm_cols g" "c \<notin> {0}" "c \<notin> {0, x}"
    then show "col_data rm c = col_data g c" using good [of c] two by (cases "c = 1") auto
  qed
  then have o: "only_data {0} (fill g {0} rm) (vdev_raidz_reconstruct_q x rm)"
    using reconstruct_q_good [OF fill_ok [OF sh ok] fill_parity(2) [OF sh _ ok _ fd parity_okD(2) [OF par fd]], of "{0}" x rm] x fd n fill_sel(1,2) [OF sh] by simp
  have "rm_data (vdev_raidz_reconstruct_q x rm) = rm_data (fill g {0} rm)"
    by (rule rm_data_eq) (use only_data_sel(2,3,5) [OF o] fd fill_sel(2,3) [OF sh] in auto)
  then show ?thesis using fill_data [OF sh _ ok, of "{0}"] fd by simp
qed

lemma read_pq:
  assumes sh: "same_shape g rm" and ok: "rm_ok g" and par: "parity_ok g" and fd: "1 < rm_firstdatacol g" and n: "rm_cols g \<le> 256"
    and x: "rm_firstdatacol g \<le> x" "x < y" "y < rm_cols g" and le: "rc_size (rm_col g ! y) \<le> rc_size (rm_col g ! x)"
    and buf: "\<And>c n. length (zb c n) = n"
    and good: "\<And>c. c < rm_cols g \<Longrightarrow> c \<noteq> x \<Longrightarrow> c \<noteq> y \<Longrightarrow> col_data rm c = col_data g c"
  shows "rm_data (vdev_raidz_reconstruct_pq zb x y rm) = rm_data g"
proof -
  have o: "only_data {x, y} (fill g {} rm) rm" by (rule fill_only_data [OF sh]) (use good in auto)
  have p: "parity_ok (fill g {} rm)"
    using fill_parity [OF sh _ ok, of "{}"] parity_okD [OF par] fill_sel(2) [OF sh] by (simp add: parity_ok_def)
  have xl: "x < rm_cols g" using x by simp
  have "vdev_raidz_reconstruct_pq zb x y rm = fill g {} rm"
    by (rule reconstruct_pq_good [OF fill_ok [OF sh ok] p _ _ _ _ _ o _ buf])
      (use x fd n le fill_sel(1,2) [OF sh] fill_sel(5) [OF sh xl] fill_sel(5) [OF sh x(3)] in simp_all)
  then show ?thesis using fill_data [OF sh _ ok, of "{}"] by simp
qed

end
