(* ===== verification/Raidz_Read.thy ===== *)
theory Raidz_Read
  imports Raidz_IO
begin

text \<open>
  A read of a RAID-Z vdev succeeds whenever no more columns are bad than there are parity columns,
  whether a bad column reports an error or silently returns wrong data, provided the checksum tells
  the right data apart.
\<close>

section \<open>Trying one column\<close>

lemma restore_data:
  assumes "only_data {c} rm rm'" "c < length (rm_col rm)"
  shows "set_data c (col_data rm c) rm' = rm"
proof -
  have l: "c < length (rm_col rm')" "length (col_data rm' c) = length (col_data rm c)" using only_data_sel(3,6) [OF assms(1)] assms(2) by simp_all
  have "only_data {c} rm (set_data c (col_data rm c) rm')"
    by (rule only_data_trans [OF assms(1)], rule only_data_set) (use l in simp_all)
  then show ?thesis by (rule only_data_eqI) (use l in \<open>simp add: set_data_sel\<close>)
qed

lemma combine_one_cases:
  assumes "\<And>c. c \<in> set cs \<Longrightarrow> c < length (rm_col rm) \<and> only_data {c} rm (rec c rm)"
  shows "(\<exists>c rm'. combine_one rec ck cs rm = (Some c, rm') \<and> ck (rm_data rm') = 0) \<or>
    (combine_one rec ck cs rm = (None, rm) \<and> (\<forall>c\<in>set cs. ck (rm_data (rec c rm)) \<noteq> 0))"
  using assms
proof (induction cs)
  case (Cons c cs)
  have "set_data c (col_data rm c) (rec c rm) = rm" by (rule restore_data) (use Cons.prems in auto)
  then show ?case using Cons by (cases "ck (rm_data (rec c rm)) = 0") (simp_all add: Let_def)
qed simp

section \<open>Trying two columns\<close>

lemma reconstruct_pq_only_data:
  assumes ok: "rm_ok rm" and fd: "1 < rm_firstdatacol rm" "rm_firstdatacol rm \<le> x" "x < y" "y < rm_cols rm"
    and buf: "\<And>c n. length (zb c n) = n" and le: "rc_size (rm_col rm ! y) \<le> rc_size (rm_col rm ! x)"
  shows "only_data {x, y} rm (vdev_raidz_reconstruct_pq zb x y rm)"
proof -
  define h where "h = vdev_raidz_generate_parity_pq (hide_two zb x y rm)"
  define pp where "pp = map2 (XOR) (col_data rm 0) (col_data h 0)"
  define qq where "qq = map2 (XOR) (col_data rm 1) (col_data h 1)"
  define xd where "xd = map2 (two_data (rm_cols rm) x y) pp qq"
  note F = reconstruct_pq_frame [where zio_buf_alloc = zb, OF ok fd buf le, folded h_def, folded pp_def qq_def, folded xd_def]
  note hs = hide_two_sel [where zio_buf_alloc = zb, OF ok fd] and w = rm_wfD [OF rm_okD(1) [OF ok]]
  have wf: "rm_wf (hide_two zb x y rm)" by (rule hide_two_wf [OF ok fd buf])
  have od: "only_data {0, 1} (hide_two zb x y rm) h" unfolding h_def by (rule generate_parity_pq(1) [OF wf]) (use hs(2) fd in simp)
  have hw: "rm_wf h" "rm_firstdatacol h = rm_firstdatacol rm" "col_words h 0 = col_words rm 0"
    using rm_wf_only_data [OF wf od] only_data_sel(2) [OF od] hs(2) only_data_sel(4) [OF od, of 0] hs(3) hs(4) [of 0] fd by auto
  have "length (col_data rm 0) = col_words rm 0" "length (col_data rm 1) = col_words rm 0"
      "length (col_data h 0) = col_words rm 0" "length (col_data h 1) = col_words rm 0"
    using w(6) [of 0] w(6) [of 1] rm_wfD(6) [OF hw(1), of 0] rm_wfD(6) [OF hw(1), of 1] hw(2,3) fd w(2) by simp_all
  then have ll: "length pp = col_words rm 0" "length xd = col_words rm 0" by (simp_all add: pp_def qq_def xd_def)
  have xl: "x < rm_cols rm" using fd by simp
  have c: "col_words rm x \<le> length (col_data rm x)" "col_words rm x \<le> length xd" "col_words rm y \<le> length (col_data rm y)"
      "col_words rm y \<le> length (map2 (XOR) pp xd)"
    using w(4,5) [OF xl] w(4,5) [OF fd(4)] ll by simp_all
  show ?thesis unfolding F
    by (rule only_data_trans; rule only_data_set) (use c xl fd w(1) in \<open>simp_all add: set_data_sel length_loop2\<close>)
qed

lemma combine_inner_cases:
  assumes step: "\<And>r c1. only_data {c} rm r \<Longrightarrow> c1 \<in> set cs \<Longrightarrow> only_data {c, c1} r (vdev_raidz_reconstruct_pq zb c c1 r)"
    and cs: "\<And>c1. c1 \<in> set cs \<Longrightarrow> c1 < length (rm_col rm) \<and> c1 \<noteq> c" and r: "only_data {c} rm r"
  shows "(\<exists>c1 r'. combine_inner zb ck c cs r = (Some c1, r') \<and> ck (rm_data r') = 0) \<or>
    (\<exists>r'. combine_inner zb ck c cs r = (None, r') \<and> only_data {c} rm r' \<and>
      (\<forall>y\<in>set cs. \<exists>r. only_data {c} rm r \<and> ck (rm_data (vdev_raidz_reconstruct_pq zb c y r)) \<noteq> 0))"
  using step cs r
proof (induction cs arbitrary: r)
  case (Cons c1 cs)
  let ?r = "vdev_raidz_reconstruct_pq zb c c1 r"
  show ?case
  proof (cases "ck (rm_data ?r) = 0")
    case False
    have l: "c1 < length (rm_col r)" "c1 \<noteq> c" using Cons.prems(2) only_data_sel(3) [OF Cons.prems(3)] by auto
    have o: "only_data {c, c1} r ?r" by (rule Cons.prems(1) [OF Cons.prems(3)]) simp
    have l': "c1 < length (rm_col ?r)" "length (col_data ?r c1) = length (col_data r c1)" using only_data_sel(3,6) [OF o] l by simp_all
    have "only_data {c, c1} r (set_data c1 (col_data r c1) ?r)"
      by (rule only_data_trans [OF o], rule only_data_set) (use l' in simp_all)
    moreover have "col_data (set_data c1 (col_data r c1) ?r) c1 = col_data r c1" using l' by (simp add: set_data_sel)
    ultimately have "only_data {c} r (set_data c1 (col_data r c1) ?r)" unfolding only_data_def by auto
    then have r': "only_data {c} rm (set_data c1 (col_data r c1) ?r)" by (rule only_data_trans [OF Cons.prems(3)])
    have "(\<exists>c2 r'. combine_inner zb ck c cs (set_data c1 (col_data r c1) ?r) = (Some c2, r') \<and> ck (rm_data r') = 0) \<or>
      (\<exists>r'. combine_inner zb ck c cs (set_data c1 (col_data r c1) ?r) = (None, r') \<and> only_data {c} rm r' \<and>
      (\<forall>y\<in>set cs. \<exists>r. only_data {c} rm r \<and> ck (rm_data (vdev_raidz_reconstruct_pq zb c y r)) \<noteq> 0))"
      by (rule Cons.IH [OF _ _ r']) (use Cons.prems(1,2) in auto)
    then show ?thesis using False Cons.prems(3) by (auto simp: Let_def)
  qed (simp add: Let_def)
qed auto

lemma combine_two_cases:
  assumes step: "\<And>r c c1. c \<in> set cs \<Longrightarrow> only_data {c} rm r \<Longrightarrow> c < c1 \<Longrightarrow> c1 < rm_cols rm \<Longrightarrow> only_data {c, c1} r (vdev_raidz_reconstruct_pq zb c c1 r)"
    and cs: "\<And>c. c \<in> set cs \<Longrightarrow> c < rm_cols rm" and l: "length (rm_col rm) = rm_cols rm"
  shows "(\<exists>cc r'. combine_two zb ck cs rm = (Some cc, r') \<and> ck (rm_data r') = 0) \<or>
    (combine_two zb ck cs rm = (None, rm) \<and>
      (\<forall>c\<in>set cs. \<forall>y. c < y \<and> y < rm_cols rm \<longrightarrow> (\<exists>r. only_data {c} rm r \<and> ck (rm_data (vdev_raidz_reconstruct_pq zb c y r)) \<noteq> 0)))"
  using step cs
proof (induction cs)
  case (Cons c cs)
  have c: "c < rm_cols rm" using Cons.prems(2) by simp
  have "(\<exists>c1 r'. combine_inner zb ck c [Suc c..<rm_cols rm] rm = (Some c1, r') \<and> ck (rm_data r') = 0) \<or>
    (\<exists>r'. combine_inner zb ck c [Suc c..<rm_cols rm] rm = (None, r') \<and> only_data {c} rm r' \<and>
      (\<forall>y\<in>set [Suc c..<rm_cols rm]. \<exists>r. only_data {c} rm r \<and> ck (rm_data (vdev_raidz_reconstruct_pq zb c y r)) \<noteq> 0))"
    by (rule combine_inner_cases) (use Cons.prems(1) l in auto)
  then show ?case
  proof (elim disjE exE conjE)
    fix r' assume i: "combine_inner zb ck c [Suc c..<rm_cols rm] rm = (None, r')" "only_data {c} rm r'"
      and y: "\<forall>y\<in>set [Suc c..<rm_cols rm]. \<exists>r. only_data {c} rm r \<and> ck (rm_data (vdev_raidz_reconstruct_pq zb c y r)) \<noteq> 0"
    have "set_data c (col_data rm c) r' = rm" by (rule restore_data [OF i(2)]) (use c l in simp)
    then have E: "combine_two zb ck (c # cs) rm = combine_two zb ck cs rm" using i(1) by (simp add: Let_def)
    have "(\<exists>cc r'. combine_two zb ck cs rm = (Some cc, r') \<and> ck (rm_data r') = 0) \<or>
      (combine_two zb ck cs rm = (None, rm) \<and>
      (\<forall>c\<in>set cs. \<forall>y. c < y \<and> y < rm_cols rm \<longrightarrow> (\<exists>r. only_data {c} rm r \<and> ck (rm_data (vdev_raidz_reconstruct_pq zb c y r)) \<noteq> 0)))"
      by (rule Cons.IH) (use Cons.prems in auto)
    then show ?thesis unfolding E using y by auto
  qed (auto simp: Let_def)
qed simp

section \<open>A stripe and what was read of it\<close>

definition good_stripe :: "raidz_map \<Rightarrow> bool" where
  \<comment> \<open>a stripe as it was written\<close>
  "good_stripe g \<longleftrightarrow> rm_ok g \<and> parity_ok g \<and> (rm_firstdatacol g = 1 \<or> rm_firstdatacol g = 2) \<and> rm_cols g \<le> 256 \<and>
     (\<forall>c c'. c \<le> c' \<and> c' < rm_cols g \<longrightarrow> rc_size (rm_col g ! c') \<le> rc_size (rm_col g ! c))"

definition read_state :: "raidz_map \<Rightarrow> nat set \<Rightarrow> raidz_map \<Rightarrow> bool" where
  \<comment> \<open>outside the bad columns there are no errors, and what was read is right\<close>
  "read_state g bad rm \<longleftrightarrow> same_shape g rm \<and>
     (\<forall>c < rm_cols g. c \<notin> bad \<longrightarrow> rc_error (rm_col rm ! c) = 0 \<and>
        (rm_firstdatacol g \<le> c \<or> rc_tried (rm_col rm ! c) \<longrightarrow> col_data rm c = col_data g c))"

lemma good_stripeD:
  assumes "good_stripe g"
  shows "rm_ok g" "parity_ok g" "rm_firstdatacol g = 1 \<or> rm_firstdatacol g = 2" "rm_cols g \<le> 256"
    "c \<le> c' \<Longrightarrow> c' < rm_cols g \<Longrightarrow> rc_size (rm_col g ! c') \<le> rc_size (rm_col g ! c)"
  using assms unfolding good_stripe_def by blast+

lemma read_stateD:
  assumes "read_state g bad rm"
  shows "same_shape g rm" "c < rm_cols g \<Longrightarrow> c \<notin> bad \<Longrightarrow> rc_error (rm_col rm ! c) = 0"
    "c < rm_cols g \<Longrightarrow> c \<notin> bad \<Longrightarrow> rm_firstdatacol g \<le> c \<or> rc_tried (rm_col rm ! c) \<Longrightarrow> col_data rm c = col_data g c"
  using assms unfolding read_state_def by blast+

lemma only_data_status:
  assumes "only_data S rm rm'" "c < length (rm_col rm)"
  shows "rc_error (rm_col rm' ! c) = rc_error (rm_col rm ! c)" "rc_tried (rm_col rm' ! c) = rc_tried (rm_col rm ! c)"
proof -
  have "(rm_col rm' ! c)\<lparr>rc_data := []\<rparr> = (rm_col rm ! c)\<lparr>rc_data := []\<rparr>" using assms by (simp add: only_data_def)
  then show "rc_error (rm_col rm' ! c) = rc_error (rm_col rm ! c)" "rc_tried (rm_col rm' ! c) = rc_tried (rm_col rm ! c)"
    by (cases "rm_col rm' ! c"; cases "rm_col rm ! c"; simp)+
qed

lemma same_shape_only_data:
  assumes "same_shape g rm" "only_data S rm rm'"
  shows "same_shape g rm'"
  using same_shapeD [OF assms(1)] only_data_sel(1-4,6) [OF assms(2)] unfolding same_shape_def by simp

lemma read_state_only_data:
  assumes rs: "read_state g bad rm" and od: "only_data S rm rm'" and S: "S \<subseteq> bad"
  shows "read_state g bad rm'"
proof -
  note sh = read_stateD(1) [OF rs]
  show ?thesis unfolding read_state_def
  proof (intro conjI allI impI)
    show "same_shape g rm'" by (rule same_shape_only_data [OF sh od])
    fix c assume c: "c < rm_cols g" "c \<notin> bad"
    have l: "c < length (rm_col rm)" using c same_shapeD(3) [OF sh] by simp
    have e: "rm_col rm' ! c = rm_col rm ! c" using only_data_sel(5) [OF od l] c S by auto
    show "rc_error (rm_col rm' ! c) = 0" unfolding e by (rule read_stateD(2) [OF rs c])
    assume "rm_firstdatacol g \<le> c \<or> rc_tried (rm_col rm' ! c)"
    then show "col_data rm' c = col_data g c" unfolding e by (rule read_stateD(3) [OF rs c])
  qed
qed

lemma next_error_filter:
  "next_error rm cs = (case filter (\<lambda>c. rc_error (rm_col rm ! c) \<noteq> 0) cs of [] \<Rightarrow> rm_cols rm | c # _ \<Rightarrow> c)"
  by (induction cs) auto

lemma next_error_least:
  assumes "a \<le> x" "x < n" "rc_error (rm_col rm ! x) \<noteq> 0" "\<And>c. a \<le> c \<Longrightarrow> c < x \<Longrightarrow> rc_error (rm_col rm ! c) = 0"
  shows "next_error rm [a..<n] = x"
proof -
  have "[a..<n] = [a..<x] @ x # [Suc x..<n]" using assms(1,2) by (metis le_add_diff_inverse less_imp_le upt_add_eq_append upt_conv_Cons)
  moreover have "filter (\<lambda>c. rc_error (rm_col rm ! c) \<noteq> 0) [a..<x] = []" using assms(4) by (auto simp: filter_empty_conv)
  ultimately show ?thesis using assms(3) by (simp add: next_error_filter)
qed

abbreviation data_errors :: "raidz_map \<Rightarrow> nat set" where
  "data_errors rm \<equiv> {c. c < rm_cols rm \<and> rm_firstdatacol rm \<le> c \<and> rc_error (rm_col rm ! c) \<noteq> 0}"

lemma data_errors_1:
  assumes "data_errors rm = {x}"
  shows "next_error rm [rm_firstdatacol rm..<rm_cols rm] = x" "rm_firstdatacol rm \<le> x" "x < rm_cols rm"
proof -
  have x: "x < rm_cols rm" "rm_firstdatacol rm \<le> x" "rc_error (rm_col rm ! x) \<noteq> 0" using assms by blast+
  show "next_error rm [rm_firstdatacol rm..<rm_cols rm] = x"
  proof (rule next_error_least [OF x(2,1,3)])
    fix c assume "rm_firstdatacol rm \<le> c" "c < x"
    then have "c \<notin> data_errors rm" unfolding assms by simp
    then show "rc_error (rm_col rm ! c) = 0" using \<open>rm_firstdatacol rm \<le> c\<close> \<open>c < x\<close> x(1) by simp
  qed
qed (use assms in blast)+

lemma data_errors_2:
  assumes "data_errors rm = {x, y}" "x < y"
  shows "next_error rm [rm_firstdatacol rm..<rm_cols rm] = x" "next_error rm [Suc x..<rm_cols rm] = y"
    "rm_firstdatacol rm \<le> x" "y < rm_cols rm"
proof -
  have x: "x < rm_cols rm" "rm_firstdatacol rm \<le> x" "rc_error (rm_col rm ! x) \<noteq> 0" using assms(1) by blast+
  have y: "y < rm_cols rm" "rm_firstdatacol rm \<le> y" "rc_error (rm_col rm ! y) \<noteq> 0" using assms(1) by blast+
  have n: "rc_error (rm_col rm ! c) = 0" if "rm_firstdatacol rm \<le> c" "c < rm_cols rm" "c \<noteq> x" "c \<noteq> y" for c
  proof -
    have "c \<notin> data_errors rm" unfolding assms(1) using that by simp
    then show ?thesis using that by simp
  qed
  show "next_error rm [rm_firstdatacol rm..<rm_cols rm] = x"
    by (rule next_error_least [OF x(2,1,3)]) (use n x assms(2) in auto)
  show "next_error rm [Suc x..<rm_cols rm] = y"
    by (rule next_error_least [OF _ y(1,3)]) (use n x y assms(2) in auto)
qed (use assms in blast)+

lemma rec_only_data:
  assumes g: "good_stripe g" and sh: "same_shape g rm" and x: "rm_firstdatacol g \<le> x" "x < rm_cols g"
  shows "only_data {x} rm (vdev_raidz_reconstruct_p x rm)"
    "rm_firstdatacol g = 2 \<Longrightarrow> only_data {x} rm (vdev_raidz_reconstruct_q x rm)"
proof -
  have ok: "rm_ok rm" by (rule same_shape_ok [OF sh good_stripeD(1) [OF g]])
  note s = same_shapeD [OF sh]
  show "only_data {x} rm (vdev_raidz_reconstruct_p x rm)"
    by (rule reconstruct_p(1) [OF rm_okD(1) [OF ok]]) (use x s(1,2) in simp_all)
  assume "rm_firstdatacol g = 2"
  then show "only_data {x} rm (vdev_raidz_reconstruct_q x rm)"
    using reconstruct_q(1) [OF rm_okD(1) [OF ok], of x] x s(1,2) good_stripeD(4) [OF g] by simp
qed

lemma rec_pq_only_data:
  assumes g: "good_stripe g" and sh: "same_shape g rm" and fd: "rm_firstdatacol g = 2" and x: "rm_firstdatacol g \<le> x" "x < y" "y < rm_cols g"
    and buf: "\<And>c n. length (zb c n) = n"
  shows "only_data {x, y} rm (vdev_raidz_reconstruct_pq zb x y rm)"
proof -
  have ok: "rm_ok rm" by (rule same_shape_ok [OF sh good_stripeD(1) [OF g]])
  note s = same_shapeD [OF sh]
  have "rc_size (rm_col rm ! y) \<le> rc_size (rm_col rm ! x)" using good_stripeD(5) [OF g, of x y] s(4) [of x] s(4) [of y] x by simp
  then show ?thesis using reconstruct_pq_only_data [where zb = zb, OF ok _ _ x(2) _ buf] x fd s(1,2) by simp
qed

lemma known_errors:
  assumes g: "good_stripe g" and sh: "same_shape g rm" and n: "e_num (count_errors rm) \<le> rm_firstdatacol rm"
  obtains "data_errors rm = {}"
  | x where "data_errors rm = {x}" "rc_error (rm_col rm ! 0) \<noteq> 0 \<Longrightarrow> rm_firstdatacol g = 2 \<and> rc_error (rm_col rm ! 1) = 0"
  | x y where "data_errors rm = {x, y}" "x < y" "rm_firstdatacol g = 2" "rc_error (rm_col rm ! 0) = 0" "rc_error (rm_col rm ! 1) = 0"
proof -
  note s = same_shapeD [OF sh] and fd = good_stripeD(3) [OF g]
  have z: "0 < rm_cols rm" "1 < rm_cols rm" using rm_wfD(2,3) [OF rm_okD(1) [OF good_stripeD(1) [OF g]]] s(1) by auto
  have le: "card S \<le> rm_firstdatacol g" if "S \<subseteq> {c. c < rm_cols rm \<and> rc_error (rm_col rm ! c) \<noteq> 0}" for S
    using card_mono [OF _ that] n s(2) by (simp add: count_errors(1))
  have fin: "finite (data_errors rm)" by simp
  have ge: "c \<in> data_errors rm \<Longrightarrow> rm_firstdatacol g \<le> c" for c using s(2) by simp
  have "data_errors rm \<subseteq> {c. c < rm_cols rm \<and> rc_error (rm_col rm ! c) \<noteq> 0}" by blast
  from le [OF this] have "card (data_errors rm) \<le> 2" using fd by auto
  then consider "card (data_errors rm) = 0" | "card (data_errors rm) = 1" | "card (data_errors rm) = 2" by linarith
  then show thesis
  proof cases
    case 1
    then show thesis using that(1) fin by simp
  next
    case 2
    then obtain x where x: "data_errors rm = {x}" by (auto simp: card_1_singleton_iff)
    then have x': "x \<in> data_errors rm" by simp
    have "rm_firstdatacol g = 2 \<and> rc_error (rm_col rm ! 1) = 0" if "rc_error (rm_col rm ! 0) \<noteq> 0"
    proof -
      have f2: "rm_firstdatacol g = 2" using le [of "{0, x}"] that x' ge [OF x'] fd z by auto
      moreover have "rc_error (rm_col rm ! 1) = 0"
        by (rule ccontr) (use le [of "{0, 1, x}"] that x' ge [OF x'] z f2 in auto)
      ultimately show ?thesis ..
    qed
    then show thesis using that(2) [OF x] by blast
  next
    case 3
    then obtain a b where ab: "data_errors rm = {a, b}" "a \<noteq> b" by (auto simp: card_2_iff)
    note pick = that(3)
    have *: thesis if "data_errors rm = {x, y}" "x < y" for x y
    proof -
      have xy: "x \<in> data_errors rm" "y \<in> data_errors rm" unfolding that(1) by simp_all
      have f2: "rm_firstdatacol g = 2" using le [of "{x, y}"] xy that(2) fd by auto
      have "rc_error (rm_col rm ! c) = 0" if "c < 2" for c
        using le [of "{c, x, y}"] xy \<open>x < y\<close> f2 z that ge [OF xy(1)] ge [OF xy(2)] by auto
      then show thesis using pick [OF \<open>data_errors rm = {x, y}\<close> \<open>x < y\<close> f2] by simp
    qed
    show thesis using ab * [of a b] * [of b a] by (cases "a < b") (auto simp: insert_commute)
  qed
qed

lemma known_fail:
  assumes g: "good_stripe g" and sh: "same_shape g rm" and buf: "\<And>c n. length (zb c n) = n"
    and n: "e_num (count_errors rm) \<le> rm_firstdatacol rm"
    and k: "correct_known zb ck (count_errors rm) st rm = (None, st1, rm1)"
  shows "only_data (data_errors rm) rm rm1" "data_errors rm = {} \<Longrightarrow> ck (rm_data rm) \<noteq> 0"
    "data_errors rm = {x} \<Longrightarrow> rc_error (rm_col rm ! 0) = 0 \<Longrightarrow> ck (rm_data (vdev_raidz_reconstruct_p x rm)) \<noteq> 0"
    "data_errors rm = {x} \<Longrightarrow> rc_error (rm_col rm ! 0) \<noteq> 0 \<Longrightarrow> ck (rm_data (vdev_raidz_reconstruct_q x rm)) \<noteq> 0"
    "data_errors rm = {x, y} \<Longrightarrow> x < y \<Longrightarrow> ck (rm_data (vdev_raidz_reconstruct_pq zb x y rm)) \<noteq> 0"
proof -
  note s = same_shapeD [OF sh] and E = count_errors [of rm]
  have fin: "finite {c. c < rm_cols rm \<and> P c}" for P by simp
  have de: "e_data (count_errors rm) = card (data_errors rm)" by (rule E(3))
  have d0: "st1 = st \<and> rm1 = rm \<and> ck (rm_data rm) \<noteq> 0" if "data_errors rm = {}"
    using k de unfolding that correct_known_def Let_def by (auto split: if_splits prod.splits)
  have d1: "rm1 = (if rc_error (rm_col rm ! 0) = 0 then vdev_raidz_reconstruct_p x rm else vdev_raidz_reconstruct_q x rm) \<and> ck (rm_data rm1) \<noteq> 0"
    if "data_errors rm = {x}" for x
    using k de data_errors_1(1) [OF that] unfolding that correct_known_def Let_def PQ_defs by (auto split: if_splits prod.splits)
  have d2: "rm1 = vdev_raidz_reconstruct_pq zb x y rm \<and> ck (rm_data rm1) \<noteq> 0" if "data_errors rm = {x, y}" "x < y" for x y
    using k de data_errors_2(1,2) [OF that] that(2) unfolding that(1) correct_known_def Let_def by (auto split: if_splits prod.splits)
  show "data_errors rm = {} \<Longrightarrow> ck (rm_data rm) \<noteq> 0" using d0 by blast
  show "data_errors rm = {x} \<Longrightarrow> rc_error (rm_col rm ! 0) = 0 \<Longrightarrow> ck (rm_data (vdev_raidz_reconstruct_p x rm)) \<noteq> 0"
    "data_errors rm = {x} \<Longrightarrow> rc_error (rm_col rm ! 0) \<noteq> 0 \<Longrightarrow> ck (rm_data (vdev_raidz_reconstruct_q x rm)) \<noteq> 0" using d1 [of x] by auto
  show "data_errors rm = {x, y} \<Longrightarrow> x < y \<Longrightarrow> ck (rm_data (vdev_raidz_reconstruct_pq zb x y rm)) \<noteq> 0" using d2 [of x y] by auto
  from known_errors [OF g sh n] show "only_data (data_errors rm) rm rm1"
  proof cases
    case 1
    then show ?thesis using d0 by simp
  next
    case (2 x)
    note x = data_errors_1(2,3) [OF 2(1), unfolded s(1,2)]
    show ?thesis using d1 [OF 2(1)] rec_only_data [OF g sh x] 2(2) unfolding 2(1) by (auto split: if_splits)
  next
    case (3 x y)
    note x = data_errors_2(3,4) [OF 3(1,2), unfolded s(1,2)]
    show ?thesis using d2 [OF 3(1,2)] rec_pq_only_data [where zb = zb, OF g sh 3(3) x(1) 3(2) x(2) buf] unfolding 3(1) by simp
  qed
qed

section \<open>Combinatorial reconstruction finds the bad columns\<close>

lemma combinatorial_ok:
  assumes "combinatorial zb ck st rm = (st', rm')"
  defines "fd \<equiv> rm_firstdatacol rm"
  defines "p_ok \<equiv> rc_error (rm_col rm ! 0) = 0" and "q_ok \<equiv> fd > 1 \<and> rc_error (rm_col rm ! 1) = 0"
  assumes 1: "(if p_ok then combine_one vdev_raidz_reconstruct_p ck [fd..<rm_cols rm] rm else (None, rm)) = (r1, rm1)"
    and 2: "(if q_ok then combine_one vdev_raidz_reconstruct_q ck [fd..<rm_cols rm] rm1 else (None, rm1)) = (r2, rm2)"
    and 3: "(if p_ok \<and> q_ok then combine_two zb ck [fd..<rm_cols rm2 - 1] rm2 else (None, rm2)) = (r3, rm3)"
    and some: "r1 \<noteq> None \<or> r2 \<noteq> None \<or> r3 \<noteq> None"
  shows "io_error (rs_zio st') = 0"
proof -
  note defs = fd_def p_ok_def q_ok_def
  show ?thesis
  proof (cases r1)
    case (Some c)
    have "impute c (st\<lparr>rs_zio := (rs_zio st)\<lparr>io_error := 0\<rparr>, raidz_corrected_p := raidz_corrected_p st + 1\<rparr>, rm1) = (st', rm')"
      using assms(1) 1 Some unfolding combinatorial_def Let_def defs PQ_defs by simp
    then show ?thesis using impute_frame(2) by fastforce
  next
    case None1: None
    show ?thesis
    proof (cases r2)
      case (Some c)
      have "impute c (st\<lparr>rs_zio := (rs_zio st)\<lparr>io_error := 0\<rparr>, raidz_corrected_q := raidz_corrected_q st + 1\<rparr>, rm2) = (st', rm')"
        using assms(1) 1 2 None1 Some unfolding combinatorial_def Let_def defs PQ_defs by simp
      then show ?thesis using impute_frame(2) by fastforce
    next
      case None2: None
      then obtain a b where r3: "r3 = Some (a, b)" using some None1 by auto
      obtain st1 rm4 where i: "impute a (st\<lparr>rs_zio := (rs_zio st)\<lparr>io_error := 0\<rparr>, raidz_corrected_pq := raidz_corrected_pq st + 1\<rparr>, rm3) = (st1, rm4)" by fastforce
      have j: "impute b (st1, rm4) = (st', rm')"
        using assms(1) 1 2 3 None1 None2 r3 i unfolding combinatorial_def Let_def defs PQ_defs by simp
      then show ?thesis using impute_frame(2) [OF i] impute_frame(2) [OF j] by simp
    qed
  qed
qed

lemma combinatorial_succeeds:
  assumes g: "good_stripe g" and rs: "read_state g bad rm" and tried: "\<And>c. c < rm_cols g \<Longrightarrow> rc_tried (rm_col rm ! c)"
    and fin: "finite bad" and bad: "card bad \<le> rm_firstdatacol g" and d: "d \<in> bad" "rm_firstdatacol g \<le> d" "d < rm_cols g"
    and ck: "ck (rm_data g) = 0" and buf: "\<And>c n. length (zb c n) = n"
    and res: "combinatorial zb ck st rm = (st', rm')"
  shows "io_error (rs_zio st') = 0"
proof (rule ccontr)
  note sh = read_stateD(1) [OF rs] and gd = good_stripeD [OF g]
  note s = same_shapeD [OF sh]
  let ?fd = "rm_firstdatacol g" and ?cs = "[rm_firstdatacol rm..<rm_cols rm]"
  define p_ok where "p_ok \<longleftrightarrow> rc_error (rm_col rm ! 0) = 0"
  define q_ok where "q_ok \<longleftrightarrow> rm_firstdatacol rm > 1 \<and> rc_error (rm_col rm ! 1) = 0"
  obtain r1 rm1 where 1: "(if p_ok then combine_one vdev_raidz_reconstruct_p ck ?cs rm else (None, rm)) = (r1, rm1)" by fastforce
  obtain r2 rm2 where 2: "(if q_ok then combine_one vdev_raidz_reconstruct_q ck ?cs rm1 else (None, rm1)) = (r2, rm2)" by fastforce
  obtain r3 rm3 where 3: "(if p_ok \<and> q_ok then combine_two zb ck [rm_firstdatacol rm..<rm_cols rm2 - 1] rm2 else (None, rm2)) = (r3, rm3)" by fastforce
  assume "io_error (rs_zio st') \<noteq> 0"
  with combinatorial_ok [OF res 1 [unfolded p_ok_def] 2 [unfolded q_ok_def] 3 [unfolded p_ok_def q_ok_def]]
  have none: "r1 = None" "r2 = None" "r3 = None" by metis+
  have p: "rm1 = rm" "p_ok \<Longrightarrow> c \<in> set ?cs \<Longrightarrow> ck (rm_data (vdev_raidz_reconstruct_p c rm)) \<noteq> 0" for c
    using combine_one_cases [of ?cs rm vdev_raidz_reconstruct_p ck] rec_only_data(1) [OF g sh] s(1-3) 1 none(1) by (auto split: if_splits)
  have q: "rm2 = rm" "q_ok \<Longrightarrow> c \<in> set ?cs \<Longrightarrow> ck (rm_data (vdev_raidz_reconstruct_q c rm)) \<noteq> 0" for c
  proof -
    have f2: "q_ok \<Longrightarrow> ?fd = 2" using gd(3) s(2) by (auto simp: q_ok_def)
    show "rm2 = rm" "q_ok \<Longrightarrow> c \<in> set ?cs \<Longrightarrow> ck (rm_data (vdev_raidz_reconstruct_q c rm)) \<noteq> 0"
      using combine_one_cases [of ?cs rm vdev_raidz_reconstruct_q ck] rec_only_data(2) [OF g sh] f2 s(1-3) 2 none(2) p(1) by (auto split: if_splits)
  qed
  have good: "col_data rm c = col_data g c" if "c < rm_cols g" "c \<notin> bad" for c using read_stateD(3) [OF rs that] tried that by simp
  have z: "0 < rm_cols g" "1 < rm_cols g" using rm_wfD(2,3) [OF rm_okD(1) [OF gd(1)]] by auto
  have zero: "0 \<noteq> d" "?fd = 2 \<Longrightarrow> 1 \<noteq> d" using d(2) gd(3) by auto
  have sub: "card S \<le> ?fd" if "S \<subseteq> bad" for S using card_mono [OF fin that] bad by simp
  have dl: "d \<in> set ?cs" using d s(1,2) by simp
  show False
  proof (cases "\<exists>d'. d' \<in> bad \<and> ?fd \<le> d' \<and> d' < rm_cols g \<and> d' \<noteq> d")
    case False
    then have one: "col_data rm c = col_data g c" if "?fd \<le> c" "c < rm_cols g" "c \<noteq> d" for c using good that by blast
    show False
    proof (cases "0 \<in> bad")
      case False
      then have "p_ok" using read_stateD(2) [OF rs z(1)] by (simp add: p_ok_def)
      moreover have "rm_data (vdev_raidz_reconstruct_p d rm) = rm_data g"
        by (rule read_p [OF sh gd(1,2) d(2,3)]) (use one good [OF z(1) False] in auto)
      ultimately show False using p(2) [OF _ dl] ck by simp
    next
      case True
      have f2: "?fd = 2" using sub [of "{0, d}"] True d zero gd(3) by auto
      then have "1 \<notin> bad" using sub [of "{0, 1, d}"] True d zero by auto
      then have "q_ok" "col_data rm 1 = col_data g 1" using read_stateD(2) [OF rs z(2)] good [OF z(2)] f2 s(2) by (simp_all add: q_ok_def)
      moreover from this have "rm_data (vdev_raidz_reconstruct_q d rm) = rm_data g"
        using f2 one gd(4) by (intro read_q [OF sh gd(1,2) _ _ d(2,3)]) auto
      ultimately show False using q(2) [OF _ dl] ck by simp
    qed
  next
    case True
    then obtain x y where xy: "x \<in> bad" "y \<in> bad" "?fd \<le> x" "x < y" "y < rm_cols g"
      using d by (metis linorder_neqE_nat)
    have f2: "?fd = 2" using sub [of "{x, y}"] xy gd(3) by auto
    have nb: "c \<notin> bad" if "c \<noteq> x" "c \<noteq> y" for c using sub [of "{c, x, y}"] xy that f2 by auto
    have pq: "p_ok" "q_ok" using read_stateD(2) [OF rs z(1)] read_stateD(2) [OF rs z(2)] nb [of 0] nb [of 1] xy f2 s(2)
      by (simp_all add: p_ok_def q_ok_def)
    have st: "only_data {c, c1} r (vdev_raidz_reconstruct_pq zb c c1 r)"
      if "c \<in> set [rm_firstdatacol rm..<rm_cols rm - 1]" "only_data {c} rm r" "c < c1" "c1 < rm_cols rm" for c c1 r
      using rec_pq_only_data [where zb = zb, OF g same_shape_only_data [OF sh that(2)] f2 _ that(3) _ buf] that s(1,2) by simp
    have l: "length (rm_col rm) = rm_cols rm" using s(1,3) by simp
    have t: "combine_two zb ck [rm_firstdatacol rm..<rm_cols rm - 1] rm = (None, rm3)" using 3 none(3) pq q(1) by simp
    have "\<forall>c\<in>set [rm_firstdatacol rm..<rm_cols rm - 1]. \<forall>y. c < y \<and> y < rm_cols rm \<longrightarrow>
        (\<exists>r. only_data {c} rm r \<and> ck (rm_data (vdev_raidz_reconstruct_pq zb c y r)) \<noteq> 0)"
      using combine_two_cases [where zb = zb and ck = ck and cs = "[rm_firstdatacol rm..<rm_cols rm - 1]", OF st _ l] t by (auto simp: less_diff_conv)
    moreover have "x \<in> set [rm_firstdatacol rm..<rm_cols rm - 1]" using xy s(1,2) by simp
    ultimately have "\<exists>r. only_data {x} rm r \<and> ck (rm_data (vdev_raidz_reconstruct_pq zb x y r)) \<noteq> 0" using xy(4,5) s(1) by metis
    then obtain r where r: "only_data {x} rm r" "ck (rm_data (vdev_raidz_reconstruct_pq zb x y r)) \<noteq> 0" by blast
    have gr: "col_data r c = col_data g c" if "c < rm_cols g" "c \<noteq> x" "c \<noteq> y" for c
      using only_data_sel(5) [OF r(1), of c] good [OF that(1) nb [OF that(2,3)]] that s(3) by simp
    have "rm_data (vdev_raidz_reconstruct_pq zb x y r) = rm_data g"
      by (rule read_pq [where zb = zb, OF same_shape_only_data [OF sh r(1)] gd(1,2) _ gd(4) xy(3-5) gd(5) buf]) (use f2 xy gr in auto)
    then show False using r(2) ck by simp
  qed
qed

section \<open>Reads that have to succeed\<close>

lemma known_succeeds:
  assumes g: "good_stripe g" and sh: "same_shape g rm" and buf: "\<And>c n. length (zb c n) = n" and ck: "ck (rm_data g) = 0"
    and n: "e_num (count_errors rm) \<le> rm_firstdatacol rm"
    and good: "\<And>c. c < rm_cols g \<Longrightarrow> rc_error (rm_col rm ! c) = 0 \<Longrightarrow> col_data rm c = col_data g c"
  shows "\<exists>u st' rm'. correct_known zb ck (count_errors rm) st rm = (Some u, st', rm')"
proof (rule ccontr)
  assume "\<not> ?thesis"
  then obtain st1 rm1 where k: "correct_known zb ck (count_errors rm) st rm = (None, st1, rm1)" by (metis not_Some_eq prod_cases3)
  note F = known_fail [where zb = zb and ck = ck, OF g sh buf n k] and s = same_shapeD [OF sh] and gd = good_stripeD [OF g]
  note S = known_errors [OF g sh n]
  have z: "0 < rm_cols g" "1 < rm_cols g" using rm_wfD(2,3) [OF rm_okD(1) [OF gd(1)]] by auto
  have ok: "col_data rm c = col_data g c" if "rm_firstdatacol g \<le> c" "c < rm_cols g" "c \<notin> data_errors rm" for c
    using good [OF that(2)] that s(1,2) by auto
  from S show False
  proof cases
    case 1
    then have "rm_data rm = rm_data g" using ok s(1-3) by (intro rm_data_eq) (auto simp: rm_wfD(1) [OF rm_okD(1) [OF gd(1)]])
    then show False using F(2) [OF 1] ck by simp
  next
    case (2 x)
    note x = data_errors_1(2,3) [OF 2(1), unfolded s(1,2)]
    show False
    proof (cases "rc_error (rm_col rm ! 0) = 0")
      case True
      have "rm_data (vdev_raidz_reconstruct_p x rm) = rm_data g"
        by (rule read_p [OF sh gd(1,2) x]) (use ok 2(1) good [OF z(1) True] in auto)
      then show False using F(3) [OF 2(1) True] ck by simp
    next
      case False
      have f2: "rm_firstdatacol g = 2" "rc_error (rm_col rm ! 1) = 0" using 2(2) [OF False] by auto
      have "rm_data (vdev_raidz_reconstruct_q x rm) = rm_data g"
        using f2 ok 2(1) gd(4) good [OF z(2)] by (intro read_q [OF sh gd(1,2) _ _ x]) auto
      then show False using F(4) [OF 2(1) False] ck by simp
    qed
  next
    case (3 x y)
    note x = data_errors_2(3,4) [OF 3(1,2), unfolded s(1,2)]
    have all: "col_data rm c = col_data g c" if "c < rm_cols g" "c \<noteq> x" "c \<noteq> y" for c
    proof (cases "rm_firstdatacol g \<le> c")
      case True
      then show ?thesis using ok that 3(1) by simp
    next
      case False
      then have "c = 0 \<or> c = 1" using 3(3) by auto
      then show ?thesis using good [OF that(1)] 3(4,5) by auto
    qed
    have "rm_data (vdev_raidz_reconstruct_pq zb x y rm) = rm_data g"
      by (rule read_pq [where zb = zb, OF sh gd(1,2) _ gd(4) x(1) 3(2) x(2) gd(5) buf all]) (use 3(2,3) x(2) in auto)
    then show False using F(5) [OF 3(1,2)] ck by simp
  qed
qed

lemma io_done_succeeds:
  assumes g: "good_stripe g" and rs: "read_state g bad rm" and tried: "\<And>c. c < rm_cols g \<Longrightarrow> rc_tried (rm_col rm ! c)"
    and sub: "bad \<subseteq> {..<rm_cols g}" and bad: "card bad \<le> rm_firstdatacol g"
    and ck: "ck (rm_data g) = 0" and buf: "\<And>c n. length (zb c n) = n" and rd: "io_type (rs_zio st) \<noteq> ZIO_TYPE_WRITE"
  shows "\<exists>ios st'. vdev_raidz_io_done zb ck writable st rm = (Finished ios, st') \<and> io_error (rs_zio st') = 0"
proof -
  note sh = read_stateD(1) [OF rs] and gd = good_stripeD [OF g]
  note s = same_shapeD [OF sh]
  define E where "E = {c. c < rm_cols rm \<and> rc_error (rm_col rm ! c) \<noteq> 0}"
  define e where "e = count_errors rm"
  define st0 where "st0 = st\<lparr>rs_zio := (rs_zio st)\<lparr>io_error := e_error e, io_numerrors := e_num e\<rparr>\<rparr>"
  have fd: "0 < rm_firstdatacol rm" using gd(3) s(2) by auto
  have fin: "finite bad" using finite_subset [OF sub] by simp
  have Eb: "E \<subseteq> bad" using read_stateD(2) [OF rs] s(1) by (auto simp: E_def)
  have num: "e_num e = card E" by (simp add: e_def E_def count_errors(1))
  then have le: "e_num e \<le> rm_firstdatacol rm" using card_mono [OF fin Eb] bad s(2) by simp
  have "{c. c < rm_cols rm \<and> c < rm_firstdatacol rm \<and> rc_error (rm_col rm ! c) = 0 \<and> \<not> rc_tried (rm_col rm ! c)} = {}"
    using tried s(1) by auto
  then have "e_untried e = 0" unfolding e_def count_errors(4) by (metis card.empty)
  obtain r st1 rm1 where c: "correct_known zb ck e st0 rm = (r, st1, rm1)" by (metis prod_cases3)
  then have k: "(if e_num e \<le> rm_firstdatacol rm - e_untried e then correct_known zb ck e st0 rm else (None, st0, rm)) = (r, st1, rm1)"
    using le \<open>e_untried e = 0\<close> by simp
  note D = io_done_read [OF rd k [unfolded e_def st0_def], of writable, folded e_def]
  show ?thesis
  proof (cases r)
    case (Some u)
    obtain nxt st2 where f: "finish writable u st1 rm1 = (nxt, st2)" by fastforce
    then show ?thesis using D Some finish_frame(2,3) [OF f] correct_known_sound(2) [OF c [unfolded Some] fd reconstruct_firstdatacol] by auto
  next
    case None
    note F = known_fail [where zb = zb and ck = ck, OF g sh buf le [unfolded e_def] c [unfolded None e_def]]
    let ?rm = "rm1\<lparr>rm_missingdata := 0, rm_missingparity := 0\<rparr>"
    have "data_errors rm \<subseteq> bad" using Eb by (auto simp: E_def)
    from read_state_only_data [OF rs F(1) this] have rs1: "read_state g bad ?rm" by (simp add: read_state_def same_shape_def)
    note s1 = same_shapeD [OF read_stateD(1) [OF rs1]]
    have tried1: "rc_tried (rm_col ?rm ! c)" if "c < rm_cols g" for c
      using only_data_status(2) [OF F(1), of c] tried [OF that] that s(3) by simp
    have "E \<noteq> bad"
    proof
      assume "E = bad"
      then have "col_data rm c = col_data g c" if "c < rm_cols g" "rc_error (rm_col rm ! c) = 0" for c
        using read_stateD(3) [OF rs that(1)] that tried by (auto simp: E_def)
      then show False using known_succeeds [where zb = zb and ck = ck and st = st0, OF g sh buf ck le [unfolded e_def]] c None by (simp add: e_def)
    qed
    then have ps: "E \<subset> bad" using Eb by blast
    have lt: "e_num e < rm_firstdatacol rm" using psubset_card_mono [OF fin ps] bad num s(2) by simp
    have "\<exists>d \<in> bad. rm_firstdatacol g \<le> d \<and> d < rm_cols g"
    proof (rule ccontr)
      assume no: "\<not> ?thesis"
      have "data_errors rm = {}" using no Eb s(1,2) by (auto simp: E_def)
      moreover have "rm_data rm = rm_data g"
        by (rule rm_data_eq) (use no read_stateD(3) [OF rs] s(1-3) rm_wfD(1) [OF rm_okD(1) [OF gd(1)]] in auto)
      ultimately show False using F(2) ck by simp
    qed
    then obtain d where d: "d \<in> bad" "rm_firstdatacol g \<le> d" "d < rm_cols g" by blast
    obtain st2 rm2 where cb: "combinatorial zb ck st1 ?rm = (st2, rm2)" by fastforce
    obtain nxt st3 where f: "finish writable 1 st2 rm2 = (nxt, st3)" by fastforce
    have "filter (\<lambda>c. \<not> rc_tried (rm_col ?rm ! c)) [0..<rm_cols ?rm] = []" using tried1 s1(1) by (simp add: filter_empty_conv)
    then have "vdev_raidz_io_done zb ck writable st rm = finish writable 1 st2 rm2" using D None lt s(2) s1(2) cb by (simp add: Let_def)
    then show ?thesis using f finish_frame(2,3) [OF f] combinatorial_succeeds [where zb = zb and ck = ck, OF g rs1 tried1 fin bad d ck buf cb] by auto
  qed
qed

section \<open>What a read reports and repairs\<close>

lemma unexpected_pos:
  assumes "c < rm_cols rm" "rc_error (rm_col rm ! c) \<noteq> 0" "\<not> rc_skipped (rm_col rm ! c)"
  shows "e_unexpected (count_errors rm) \<noteq> 0"
proof -
  have mono: "e_unexpected e \<le> e_unexpected (count_col rm k e)" for k e by (simp add: count_col_def Let_def)
  have up: "e_unexpected e \<le> e_unexpected (fold (count_col rm) cs e)" for cs e
    by (induction cs arbitrary: e) (auto intro: order_trans [OF mono])
  have hit: "0 < e_unexpected (count_col rm c e)" for e using assms(2,3) by (simp add: count_col_def Let_def)
  have "[0..<rm_cols rm] = [0..<c] @ c # [Suc c..<rm_cols rm]"
    using assms(1) by (metis append_Cons append_Nil le_add_same_cancel1 less_imp_le upt_add_eq_append upt_conv_Cons zero_le le_add_diff_inverse add_0)
  then have "\<exists>e cs. e_unexpected (count_errors rm) = e_unexpected (fold (count_col rm) cs (count_col rm c e))"
    by (auto simp: count_errors_def)
  then obtain e cs where "e_unexpected (count_errors rm) = e_unexpected (fold (count_col rm) cs (count_col rm c e))" by blast
  then show ?thesis using up [of "count_col rm c e" cs] hit [of e] by linarith
qed

text \<open>C21. A RAID-Z read that ends without an error has data that passes the checksum, whichever way it was
  put together: as read, reconstructed from the columns known to be bad, or found by trying.\<close>
theorem vdev_raidz_io_done_verified:
  assumes "io_type (rs_zio st) \<noteq> ZIO_TYPE_WRITE" "0 < rm_firstdatacol rm"
    and "vdev_raidz_io_done zb ck writable st rm = (Finished ios, st')" "io_error (rs_zio st') = 0"
  shows "ck (final_data st') = 0"
  by (rule io_done_sound [OF assms])

definition demo_map :: "int \<Rightarrow> raidz_map" where
  \<comment> \<open>one parity column and two data columns, all read, the parity column with an outcome\<close>
  "demo_map error = \<lparr>rm_cols = 3, rm_bigcols = 0, rm_asize = 32, rm_missingdata = 0, rm_missingparity = 0, rm_firstdatacol = 1,
     rm_col = map (\<lambda>(d, x, e). \<lparr>rc_devidx = d, rc_offset = 16, rc_size = 8, rc_data = [x], rc_error = e, rc_tried = True, rc_skipped = False\<rparr>)
       [(0, 2, error), (1, 5, 0), (2, 7, 0)]\<rparr>"

definition demo_scrub :: raidz_state where
  "demo_scrub = \<lparr>rs_zio = \<lparr>io_type = ZIO_TYPE_READ, io_flags = ZIO_FLAG_SCRUB, io_error = 0, io_size = 16, io_txg = 7, io_delegate = False,
       io_offset = 0x40, io_data = [0, 0], io_numerrors = 0, io_birth = 7, io_vsd = None\<rparr>, rs_child = replicate 3 demo_vdev, rs_ereports = [],
     raidz_corrected_p = 0, raidz_corrected_q = 0, raidz_corrected_pq = 0\<rparr>"

theorem vdev_raidz_io_done_verified_witness:
  "\<exists>ios st'. vdev_raidz_io_done (\<lambda>c n. replicate n 0) (\<lambda>d. if d = [5, 7] then 0 else ECKSUM) False demo_scrub (demo_map 0) = (Finished ios, st') \<and>
     (if final_data st' = [5, 7] then 0 else ECKSUM) = 0"
proof -
  let ?r = "vdev_raidz_io_done (\<lambda>c n. replicate n 0) (\<lambda>d. if d = [5, 7] then 0 else ECKSUM) False demo_scrub (demo_map 0)"
  have r: "(case ?r of (Finished ios, st') \<Rightarrow> io_error (rs_zio st') = 0 | (Redo _, _) \<Rightarrow> False)" by code_simp
  obtain nxt st' where n: "?r = (nxt, st')" by fastforce
  with r obtain ios where "nxt = Finished ios" "io_error (rs_zio st') = 0" by (cases nxt) simp_all
  with n vdev_raidz_io_done_verified [of demo_scrub "demo_map 0" "\<lambda>c n. replicate n 0" "\<lambda>d. if d = [5, 7] then 0 else ECKSUM" False ios st']
  show ?thesis by (simp add: demo_scrub_def demo_map_def)
qed



end
