(* ===== verification/Raidz_Loop.thy ===== *)
theory Raidz_Loop
  imports Raidz_Read
begin

text \<open>
  A RAID-Z vdev from a write to a later read: the children return what was written to them, except
  some that are unreadable, miss the block, fail the I/O or silently return something else. The
  read goes through \<^verbatim>\<open>vdev_raidz_io_start\<close>, the completion of its child I/Os,
  \<^verbatim>\<open>vdev_raidz_io_done\<close> and, when that asks for the other columns, once more through
  completion and \<^verbatim>\<open>vdev_raidz_io_done\<close>.
\<close>

section \<open>Completing child I/Os\<close>

definition complete :: "(nat \<Rightarrow> u64 \<Rightarrow> int \<times> u64 list) \<Rightarrow> child_io \<Rightarrow> raidz_map \<Rightarrow> raidz_map" where
  \<comment> \<open>a child I/O returns what the child has at that place\<close>
  "complete disk io rm = (case ci_col io of None \<Rightarrow> rm
     | Some c \<Rightarrow> let (error, data) = disk (ci_vdev io) (ci_offset io) in vdev_raidz_child_done c error (set_data c data rm))"

definition raidz_read :: "(nat \<Rightarrow> nat \<Rightarrow> u64 list) \<Rightarrow> (u64 list \<Rightarrow> int) \<Rightarrow> bool \<Rightarrow> nat \<Rightarrow> nat \<Rightarrow> (nat \<Rightarrow> u64 \<Rightarrow> int \<times> u64 list) \<Rightarrow>
    raidz_state \<Rightarrow> raidz_state option" where
  "raidz_read zio_buf_alloc zio_checksum_error writable ashift nparity disk st = do {
     (zio, ios) \<leftarrow> vdev_raidz_io_start zio_buf_alloc ashift nparity (rs_child st) (rs_zio st);
     rm \<leftarrow> io_vsd zio;
     (case vdev_raidz_io_done zio_buf_alloc zio_checksum_error writable (st\<lparr>rs_zio := zio\<rparr>) (fold (complete disk) ios rm) of
        (Finished _, st) \<Rightarrow> Some st
      | (Redo ios, st) \<Rightarrow> do {
          rm \<leftarrow> io_vsd (rs_zio st);
          (case vdev_raidz_io_done zio_buf_alloc zio_checksum_error writable st (fold (complete disk) ios rm) of
             (Finished _, st) \<Rightarrow> Some st
           | (Redo _, _) \<Rightarrow> None) }) }"

section \<open>A stripe as it is written\<close>

lemma generate_parity_stripe:
  assumes ok: "rm_ok rm" and first: "col_words rm (rm_firstdatacol rm) = col_words rm 0" and np: "rm_firstdatacol rm = 1 \<or> rm_firstdatacol rm = 2"
  shows "only_data {..<rm_firstdatacol rm} rm (generate_parity rm)" "parity_ok (generate_parity rm)"
proof -
  let ?g = "generate_parity rm"
  note wf = rm_okD(1) [OF ok]
  have G: "only_data {..<rm_firstdatacol rm} rm ?g \<and>
    (\<forall>i < col_words rm 0. col_data ?g 0 ! i = xors (pad rm i) [rm_firstdatacol rm..<rm_cols rm] \<and>
      (1 < rm_firstdatacol rm \<longrightarrow> col_data ?g 1 ! i = horner (pad rm i) [rm_firstdatacol rm..<rm_cols rm]))"
  proof (cases "rm_firstdatacol rm = 1")
    case True
    then show ?thesis using generate_parity_p [OF wf first] by (simp add: generate_parity_def lessThan_Suc)
  next
    case False
    then have f: "1 < rm_firstdatacol rm" "{..<rm_firstdatacol rm} = {0, 1}" using np by auto
    show ?thesis using generate_parity_pq [OF wf f(1)] False unfolding f(2) by (simp add: generate_parity_def)
  qed
  then show o: "only_data {..<rm_firstdatacol rm} rm ?g" by blast
  note sel = only_data_sel [OF o] and w = rm_wfD [OF wf]
  have pd: "pad ?g i c = pad rm i c" if "c \<in> set [rm_firstdatacol rm..<rm_cols rm]" for i c
    by (rule pad_only_data [OF o]) (use that w(1) in auto)
  have "xors (pad ?g i) [rm_firstdatacol rm..<rm_cols rm] = xors (pad rm i) [rm_firstdatacol rm..<rm_cols rm]"
    "horner (pad ?g i) [rm_firstdatacol rm..<rm_cols rm] = horner (pad rm i) [rm_firstdatacol rm..<rm_cols rm]" for i
    by (rule xors_cong horner_cong, rule pd, assumption)+
  moreover have "col_words ?g 0 = col_words rm 0" using sel(4) [of 0] w(1-3) by simp
  ultimately show "parity_ok ?g" using G unfolding parity_ok_def parity_p_ok_def parity_q_ok_def sel(1,2) by simp
qed

lemma map_alloc_status:
  assumes io: "io_ok off sz sh dcols np" and data: "8 * length d = unat sz"
    and c: "c < rm_cols (vdev_raidz_map_alloc zb off sz d sh dcols np)"
  shows "rc_error (rm_col (vdev_raidz_map_alloc zb off sz d sh dcols np) ! c) = 0"
    "\<not> rc_tried (rm_col (vdev_raidz_map_alloc zb off sz d sh dcols np) ! c)"
proof -
  let ?ok = "\<lambda>rc. rc_error rc = 0 \<and> \<not> rc_tried rc"
  let ?cols = "map_columns off sz sh dcols np" and ?us = "unswapped zb off sz d sh dcols np"
  note sel = map_alloc_sel [OF io data, where zio_buf_alloc = zb] and ac = acols_bounds [OF io_okD(1) [OF io]]
  have len: "np < length ?cols" using map_columns_sel(1) [OF io] ac by simp
  have m: "\<forall>rc \<in> set ?cols. ?ok rc" by (auto simp: map_columns_def Let_def)
  have s: "\<forall>rc \<in> set (split_data cs d). ?ok rc" if "\<forall>rc \<in> set cs. ?ok rc" for cs d
    using that by (induction cs arbitrary: d) (auto simp: Let_def)
  have us: "\<forall>rc \<in> set ?us. ?ok rc"
  proof -
    have "\<forall>rc \<in> set (drop np ?cols). ?ok rc" using m set_drop_subset [of np ?cols] by blast
    note s [OF this, of d]
    moreover have "?ok (?cols ! c)" if "c < np" for c using m len that by (meson less_trans nth_mem)
    ultimately show ?thesis unfolding unswapped_def Let_def by (simp add: ball_Un)
  qed
  have "1 < length ?us" using len io by (simp add: unswapped_def Let_def split_data_sel io_ok_def)
  then have "?ok (?us ! 0)" "?ok (?us ! 1)" using us by (meson less_trans nth_mem zero_less_one)+
  then have "\<forall>rc \<in> set (rm_col (vdev_raidz_map_alloc zb off sz d sh dcols np)). ?ok rc"
    using us unfolding map_alloc_col Let_def by (auto simp del: set_upt split: if_splits dest!: subsetD [OF set_update_subset_insert])
  then have "?ok (rm_col (vdev_raidz_map_alloc zb off sz d sh dcols np) ! c)" using c sel(1,2) by simp
  then show "rc_error (rm_col (vdev_raidz_map_alloc zb off sz d sh dcols np) ! c) = 0"
    "\<not> rc_tried (rm_col (vdev_raidz_map_alloc zb off sz d sh dcols np) ! c)" by simp_all
qed

lemma written_stripe:
  assumes io: "io_ok off sz sh dcols np" and data: "8 * length d = unat sz" and buf: "\<And>c n. length (zb c n) = n" and np: "np = 1 \<or> np = 2"
  defines "a \<equiv> vdev_raidz_map_alloc zb off sz d sh dcols np"
  shows "good_stripe (generate_parity a)" "rm_data (generate_parity a) = d" "rm_cols (generate_parity a) = rm_cols a"
    "rm_firstdatacol (generate_parity a) = np"
    "c < rm_cols a \<Longrightarrow> col_place (rm_col (generate_parity a) ! c) = col_place (rm_col a ! c)"
proof -
  note sel = map_alloc_sel [OF io data, where zio_buf_alloc = zb, folded a_def] and ok = map_alloc_ok [where zio_buf_alloc = zb, OF io data buf, folded a_def]
  have fd: "rm_firstdatacol a = 1 \<or> rm_firstdatacol a = 2" "col_words a (rm_firstdatacol a) = col_words a 0" using np ok(2) sel(3) by auto
  note o = generate_parity_stripe(1) [OF ok(1) fd(2,1)]
  note os = only_data_sel [OF o]
  show "rm_cols (generate_parity a) = rm_cols a" "rm_firstdatacol (generate_parity a) = np" using os(1,2) sel(3) by simp_all
  have "acols (unat sz div 2 ^ sh) dcols np \<le> 256" using acols_bounds(2) [OF io_okD(1) [OF io]] io_okD(2) [OF io] by simp
  then show "good_stripe (generate_parity a)"
    unfolding good_stripe_def using rm_ok_only_data [OF ok(1) o] generate_parity_stripe(2) [OF ok(1) fd(2,1)] os(1,2,4) fd ok(3) sel(1,2) by simp
  have "rm_data (generate_parity a) = rm_data a" by (rule generate_parity_data) (use fd in auto)
  then show "rm_data (generate_parity a) = d" using sel(3,7) by (simp add: rm_data_def)
  show "c < rm_cols a \<Longrightarrow> col_place (rm_col (generate_parity a) ! c) = col_place (rm_col a ! c)"
    using o sel(1,2) unfolding only_data_def by (cases "rm_col (generate_parity a) ! c"; cases "rm_col a ! c") auto
qed

lemma generate_parity_only:
  assumes io: "io_ok off sz sh dcols np" and data: "8 * length d = unat sz" and buf: "\<And>c n. length (zb c n) = n" and np: "np = 1 \<or> np = 2"
  shows "only_data {..<np} (vdev_raidz_map_alloc zb off sz d sh dcols np) (generate_parity (vdev_raidz_map_alloc zb off sz d sh dcols np))"
    "parity_ok (generate_parity (vdev_raidz_map_alloc zb off sz d sh dcols np))"
  using generate_parity_stripe [OF map_alloc_ok(1) [where zio_buf_alloc = zb, OF io data buf]]
    map_alloc_ok(2) [where zio_buf_alloc = zb, OF io data buf] map_alloc_sel(3) [OF io data, where zio_buf_alloc = zb] np by simp_all

lemma map_alloc_shape:
  fixes zb zb' :: "nat \<Rightarrow> nat \<Rightarrow> u64 list"
  assumes io: "io_ok off sz sh dcols np" and data: "8 * length d = unat sz" "8 * length d' = unat sz"
    and buf: "\<And>c n. length (zb c n) = n" "\<And>c n. length (zb' c n) = n"
  defines "a \<equiv> vdev_raidz_map_alloc zb off sz d sh dcols np" and "b \<equiv> vdev_raidz_map_alloc zb' off sz d' sh dcols np"
  shows "same_shape a b" "c < rm_cols a \<Longrightarrow> col_place (rm_col b ! c) = col_place (rm_col a ! c)"
proof -
  note A = map_alloc_sel [OF io data(1), where zio_buf_alloc = zb, folded a_def] and B = map_alloc_sel [OF io data(2), where zio_buf_alloc = zb', folded b_def]
  note la = rm_okD(2) [OF map_alloc_ok(1) [where zio_buf_alloc = zb, OF io data(1) buf(1), folded a_def]]
  note lb = rm_okD(2) [OF map_alloc_ok(1) [where zio_buf_alloc = zb', OF io data(2) buf(2), folded b_def]]
  have s: "rc_size (rm_col b ! c) = rc_size (rm_col a ! c)" if "c < rm_cols a" for c using A(2,4) B(4) that by (simp add: word_unat_eq_iff)
  show "same_shape a b" unfolding same_shape_def using A(1-3) B(1-3) s la lb by simp
  show "c < rm_cols a \<Longrightarrow> col_place (rm_col b ! c) = col_place (rm_col a ! c)"
    using A(2,8,9) B(8,9) by (simp add: word_unat_eq_iff)
qed

section \<open>The state of a read\<close>

definition being_read :: "raidz_map \<Rightarrow> nat set \<Rightarrow> raidz_map \<Rightarrow> bool" where
  "being_read g bad rm \<longleftrightarrow> same_shape g rm \<and> (\<forall>c < rm_cols g. col_place (rm_col rm ! c) = col_place (rm_col g ! c) \<and>
     (c \<notin> bad \<longrightarrow> rc_error (rm_col rm ! c) = 0 \<and> (rc_tried (rm_col rm ! c) \<longrightarrow> col_data rm c = col_data g c)))"

definition holds_stripe :: "(nat \<Rightarrow> u64 \<Rightarrow> int \<times> u64 list) \<Rightarrow> raidz_map \<Rightarrow> nat set \<Rightarrow> bool" where
  \<comment> \<open>what the children return for the columns of the stripe\<close>
  "holds_stripe disk g bad \<longleftrightarrow> (\<forall>c < rm_cols g. let (error, data) = disk (rc_devidx (rm_col g ! c)) (rc_offset (rm_col g ! c)) in
     length data = length (col_data g c) \<and> (c \<notin> bad \<longrightarrow> error = 0 \<and> data = col_data g c))"

definition asks :: "raidz_map \<Rightarrow> nat \<Rightarrow> child_io \<Rightarrow> bool" where
  "asks g c io \<longleftrightarrow> c < rm_cols g \<and> ci_col io = Some c \<and> (ci_vdev io, ci_offset io) = col_place (rm_col g ! c)"

lemma being_readD:
  assumes "being_read g bad rm"
  shows "same_shape g rm" "c < rm_cols g \<Longrightarrow> col_place (rm_col rm ! c) = col_place (rm_col g ! c)"
    "c < rm_cols g \<Longrightarrow> c \<notin> bad \<Longrightarrow> rc_error (rm_col rm ! c) = 0"
    "c < rm_cols g \<Longrightarrow> c \<notin> bad \<Longrightarrow> rc_tried (rm_col rm ! c) \<Longrightarrow> col_data rm c = col_data g c"
  using assms unfolding being_read_def by blast+

lemma being_read_col:
  \<comment> \<open>one column changes\<close>
  assumes r: "being_read g bad rm" and c: "c < rm_cols g"
    and f: "\<And>rc. col_place (f rc) = col_place rc" "\<And>rc. rc_size (f rc) = rc_size rc" "length (rc_data (f (rm_col rm ! c))) = length (col_data g c)"
      "c \<notin> bad \<Longrightarrow> rc_error (f (rm_col rm ! c)) = 0 \<and> (rc_tried (f (rm_col rm ! c)) \<longrightarrow> rc_data (f (rm_col rm ! c)) = col_data g c)"
  shows "being_read g bad (set_col c f rm)"
proof -
  note s = same_shapeD [OF being_readD(1) [OF r]] and d = being_readD(2-4) [OF r]
  have n: "rm_col (set_col c f rm) ! k = (if k = c then f (rm_col rm ! c) else rm_col rm ! k)" if "k < rm_cols g" for k
    using that s(3) c by (simp add: set_col_def)
  show ?thesis unfolding being_read_def same_shape_def
    using s d c f n by (simp add: set_col_def) (metis nth_list_update_eq nth_list_update_neq prod.inject)
qed

lemma complete_col:
  assumes r: "being_read g bad rm" and h: "holds_stripe disk g bad" and a: "asks g c io"
  shows "being_read g bad (complete disk io rm)" "rc_tried (rm_col (complete disk io rm) ! c)"
    "k < rm_cols g \<Longrightarrow> rc_tried (rm_col rm ! k) \<Longrightarrow> rc_tried (rm_col (complete disk io rm) ! k)"
proof -
  note s = same_shapeD [OF being_readD(1) [OF r]]
  have c: "c < rm_cols g" "ci_col io = Some c" "ci_vdev io = rc_devidx (rm_col g ! c)" "ci_offset io = rc_offset (rm_col g ! c)"
    using a by (simp_all add: asks_def)
  obtain err data where dk: "disk (ci_vdev io) (ci_offset io) = (err, data)" by fastforce
  define f where "f = (\<lambda>rc :: raidz_col. rc\<lparr>rc_data := data, rc_error := err, rc_tried := True, rc_skipped := False\<rparr>)"
  have E: "complete disk io rm = set_col c f rm"
    using c(1) s(3) by (simp add: complete_def c(2) dk Let_def vdev_raidz_child_done_def set_col_def set_data_def f_def)
  have "length data = length (col_data g c) \<and> (c \<notin> bad \<longrightarrow> err = 0 \<and> data = col_data g c)"
    using h c(1) dk unfolding holds_stripe_def c(3,4) by (auto simp: Let_def)
  then show "being_read g bad (complete disk io rm)" unfolding E by (intro being_read_col [OF r c(1)]) (simp_all add: f_def)
  show "rc_tried (rm_col (complete disk io rm) ! c)" unfolding E using c(1) s(3) by (simp add: set_col_def f_def)
  show "k < rm_cols g \<Longrightarrow> rc_tried (rm_col rm ! k) \<Longrightarrow> rc_tried (rm_col (complete disk io rm) ! k)"
    unfolding E using s(3) by (cases "k = c") (simp_all add: set_col_def f_def)
qed

lemma complete_all:
  assumes h: "holds_stripe disk g bad"
  shows "being_read g bad rm \<Longrightarrow> (\<And>io. io \<in> set ios \<Longrightarrow> \<exists>c. asks g c io) \<Longrightarrow>
    being_read g bad (fold (complete disk) ios rm) \<and>
    (\<forall>c < rm_cols g. rc_tried (rm_col rm ! c) \<or> (\<exists>io \<in> set ios. asks g c io) \<longrightarrow> rc_tried (rm_col (fold (complete disk) ios rm) ! c))"
proof (induction ios arbitrary: rm)
  case (Cons io ios)
  obtain c where a: "asks g c io" using Cons.prems(2) by auto
  note C = complete_col [OF Cons.prems(1) h a]
  have "c = k" if "asks g k io" for k using that a by (simp add: asks_def)
  then show ?case using Cons.IH [OF C(1)] Cons.prems(2) C(2,3) by auto
qed simp

section \<open>Starting a read\<close>

definition children_hold :: "vdev_info list \<Rightarrow> raidz_map \<Rightarrow> nat set \<Rightarrow> u64 \<Rightarrow> bool" where
  "children_hold children g bad birth \<longleftrightarrow> birth \<noteq> - 1 \<and> (\<forall>c < rm_cols g. let cvd = children ! rc_devidx (rm_col g ! c) in
     dtl_ok (vdev_dtl_map cvd) \<and> (c \<notin> bad \<longrightarrow> vdev_readable cvd \<and> unat birth \<notin> sm_set (vdev_dtl_map cvd)))"

lemma start_col:
  assumes r: "being_read g bad rm" and k: "children_hold children g bad birth" and c: "c < rm_cols g"
  shows "\<exists>rm' ios'. start_read_col children birth flags (rm, ios) c = Some (rm', ios @ ios') \<and> being_read g bad rm' \<and>
    (\<forall>io \<in> set ios'. asks g c io) \<and> (c \<notin> bad \<and> rm_firstdatacol g \<le> c \<longrightarrow> (\<exists>io \<in> set ios'. asks g c io))"
proof -
  let ?cvd = "children ! rc_devidx (rm_col rm ! c)"
  note s = same_shapeD [OF being_readD(1) [OF r]] and p = being_readD(2) [OF r c]
  have K: "dtl_ok (vdev_dtl_map ?cvd)" "birth \<noteq> - 1" "c \<notin> bad \<longrightarrow> vdev_readable ?cvd \<and> unat birth \<notin> sm_set (vdev_dtl_map ?cvd)"
    using k c p by (simp_all add: children_hold_def Let_def)
  have miss: "being_read g bad (rm\<lparr>rm_missingdata := n\<rparr>)" "being_read g bad (rm\<lparr>rm_missingparity := n\<rparr>)" for n
    using r by (simp_all add: being_read_def same_shape_def)
  have io: "asks g c (col_io ZIO_TYPE_READ ZIO_FLAG_CANFAIL (Some c) (rm_col rm ! c))" using p c by (simp add: asks_def col_io_def)
  have skip: "being_read g bad (set_col c (\<lambda>rc. rc\<lparr>rc_error := ENXIO, rc_tried := True, rc_skipped := True\<rparr>) r)"
    "being_read g bad (set_col c (\<lambda>rc. rc\<lparr>rc_error := ESTALE, rc_skipped := True\<rparr>) r)" if "c \<in> bad" "being_read g bad r" for r
    using same_shapeD(5) [OF being_readD(1) [OF that(2)] c] that(1) by (intro being_read_col [OF that(2) c]; simp)+
  show ?thesis
  proof (cases "c \<in> bad")
    case True
    then show ?thesis using skip [OF True miss(1)] skip [OF True miss(2)] io r dtl_contains [OF K(1,2)] s(2)
      by (auto simp: start_read_col_def Let_def)
  next
    case False
    then show ?thesis using K(3) io r dtl_contains [OF K(1,2)] s(2) by (auto simp: start_read_col_def Let_def)
  qed
qed

lemma start_cols:
  assumes k: "children_hold children g bad birth"
  shows "being_read g bad rm \<Longrightarrow> (\<And>c. c \<in> set cs \<Longrightarrow> c < rm_cols g) \<Longrightarrow>
    \<exists>rm' ios'. foldM (start_read_col children birth flags) (rm, ios) cs = Some (rm', ios @ ios') \<and> being_read g bad rm' \<and>
    (\<forall>io \<in> set ios'. \<exists>c. asks g c io) \<and> (\<forall>c \<in> set cs. c \<notin> bad \<and> rm_firstdatacol g \<le> c \<longrightarrow> (\<exists>io \<in> set ios'. asks g c io))"
proof (induction cs arbitrary: rm ios)
  case (Cons c cs)
  have c: "c < rm_cols g" using Cons.prems(2) by simp
  obtain rm1 ios1 where 1: "start_read_col children birth flags (rm, ios) c = Some (rm1, ios @ ios1)" "being_read g bad rm1"
    "\<forall>io \<in> set ios1. asks g c io" "c \<notin> bad \<and> rm_firstdatacol g \<le> c \<longrightarrow> (\<exists>io \<in> set ios1. asks g c io)"
    using start_col [OF Cons.prems(1) k c, of flags ios] by blast
  obtain rm2 ios2 where 2: "foldM (start_read_col children birth flags) (rm1, ios @ ios1) cs = Some (rm2, (ios @ ios1) @ ios2)"
    "being_read g bad rm2" "\<forall>io \<in> set ios2. \<exists>c. asks g c io"
    "\<forall>c \<in> set cs. c \<notin> bad \<and> rm_firstdatacol g \<le> c \<longrightarrow> (\<exists>io \<in> set ios2. asks g c io)"
    using Cons.IH [OF 1(2), of "ios @ ios1"] Cons.prems(2) by auto
  show ?case by (rule exI [of _ rm2], rule exI [of _ "ios1 @ ios2"]) (use 1 2 in auto)
qed simp

section \<open>Finishing a read\<close>

lemma being_read_state:
  assumes "being_read g bad rm" "\<And>c. rm_firstdatacol g \<le> c \<Longrightarrow> c < rm_cols g \<Longrightarrow> c \<notin> bad \<Longrightarrow> rc_tried (rm_col rm ! c)"
  shows "read_state g bad rm"
  using being_readD(1,3,4) [OF assms(1)] assms(2) unfolding read_state_def by blast

lemma being_read_only_data:
  assumes r: "being_read g bad rm" and o: "only_data S rm rm'" and S: "S \<subseteq> bad"
  shows "being_read g bad (rm'\<lparr>rm_missingdata := i, rm_missingparity := j\<rparr>)"
proof -
  note sh = being_readD(1) [OF r]
  have p: "col_place (rm_col rm' ! c) = col_place (rm_col rm ! c)" if "c < rm_cols g" for c
    using o that same_shapeD(3) [OF sh] unfolding only_data_def by (cases "rm_col rm' ! c"; cases "rm_col rm ! c") auto
  have e: "rm_col rm' ! c = rm_col rm ! c" if "c < rm_cols g" "c \<notin> bad" for c
    using only_data_sel(5) [OF o] that S same_shapeD(3) [OF sh] by auto
  have "same_shape g (rm'\<lparr>rm_missingdata := i, rm_missingparity := j\<rparr>)"
    using same_shape_only_data [OF sh o] by (simp add: same_shape_def)
  then show ?thesis unfolding being_read_def using being_readD(2-4) [OF r] p e by simp
qed

lemma io_done_first:
  assumes g: "good_stripe g" and r: "being_read g bad rm"
    and data: "\<And>c. rm_firstdatacol g \<le> c \<Longrightarrow> c < rm_cols g \<Longrightarrow> c \<notin> bad \<Longrightarrow> rc_tried (rm_col rm ! c)"
    and sub: "bad \<subseteq> {..<rm_cols g}" and bad: "card bad \<le> rm_firstdatacol g"
    and ck: "ck (rm_data g) = 0" and buf: "\<And>c n. length (zb c n) = n" and rd: "io_type (rs_zio st) \<noteq> ZIO_TYPE_WRITE"
  obtains ios st' where "vdev_raidz_io_done zb ck writable st rm = (Finished ios, st')" "io_error (rs_zio st') = 0"
  | ios st' rm' where "vdev_raidz_io_done zb ck writable st rm = (Redo ios, st')" "io_vsd (rs_zio st') = Some rm'" "being_read g bad rm'"
    "io_type (rs_zio st') = io_type (rs_zio st)" "\<And>io. io \<in> set ios \<Longrightarrow> \<exists>c. asks g c io"
    "\<And>c. c < rm_cols g \<Longrightarrow> rc_tried (rm_col rm' ! c) \<or> (\<exists>io \<in> set ios. asks g c io)"
proof -
  note rs = being_read_state [OF r data] and sh = being_readD(1) [OF r]
  note s = same_shapeD [OF sh]
  define e where "e = count_errors rm"
  define st0 where "st0 = st\<lparr>rs_zio := (rs_zio st)\<lparr>io_error := e_error e, io_numerrors := e_num e\<rparr>\<rparr>"
  obtain x st1 rm1 where k: "(if e_num e \<le> rm_firstdatacol rm - e_untried e then correct_known zb ck e st0 rm else (None, st0, rm)) = (x, st1, rm1)"
    by (metis prod_cases3)
  note D = io_done_read [OF rd k [unfolded e_def st0_def], of writable, folded e_def]
  show thesis
  proof (cases x)
    case (Some u)
    then have c: "correct_known zb ck e st0 rm = (Some u, st1, rm1)" using k by (auto split: if_splits)
    have fd: "0 < rm_firstdatacol rm" using good_stripeD(3) [OF g] s(2) by auto
    obtain nxt st2 where f: "finish writable u st1 rm1 = (nxt, st2)" by fastforce
    show thesis using that(1) D Some f finish_frame(2,3) [OF f] correct_known_sound(2) [OF c fd reconstruct_firstdatacol] by auto
  next
    case None
    define rm' where "rm' = rm1\<lparr>rm_missingdata := 0, rm_missingparity := 0\<rparr>"
    have db: "data_errors rm \<subseteq> bad" using being_readD(3) [OF r] s(1) by auto
    have o: "only_data (data_errors rm) rm rm1" "st1 = st0"
    proof -
      show "st1 = st0" using k None correct_known_None(1) by (auto split: if_splits)
      show "only_data (data_errors rm) rm rm1"
      proof (cases "e_num e \<le> rm_firstdatacol rm - e_untried e")
        case True
        then have "e_num (count_errors rm) \<le> rm_firstdatacol rm" "correct_known zb ck (count_errors rm) st0 rm = (None, st1, rm1)"
          using k None by (simp_all add: e_def)
        from known_fail(1) [where zb = zb and ck = ck, OF g sh buf this] show ?thesis .
      qed (use k in simp)
    qed
    note r' = being_read_only_data [OF r o(1) db, of 0 0, folded rm'_def]
    note s' = same_shapeD [OF being_readD(1) [OF r']]
    let ?un = "filter (\<lambda>c. \<not> rc_tried (rm_col rm' ! c)) [0..<rm_cols rm']"
    let ?io = "\<lambda>c. col_io ZIO_TYPE_READ ZIO_FLAG_CANFAIL (Some c) (rm_col rm' ! c)"
    have ask: "asks g c (?io c)" if "c < rm_cols g" for c using being_readD(2) [OF r' that] that by (simp add: asks_def col_io_def)
    show thesis
    proof (cases "?un = []")
      case True
      then have "rc_tried (rm_col rm ! c)" if "c < rm_cols g" for c
        using only_data_status(2) [OF o(1), of c] that s(3) s'(1) by (simp add: filter_empty_conv rm'_def)
      from io_done_succeeds [where zb = zb and ck = ck, OF g rs this sub bad ck buf rd] show thesis using that(1) by blast
    next
      case False
      have res: "vdev_raidz_io_done zb ck writable st rm = (Redo (map ?io ?un), st1\<lparr>rs_zio := (rs_zio st1)\<lparr>io_error := 0, io_vsd := Some rm'\<rparr>\<rparr>)"
        using D None False by (simp add: Let_def rm'_def)
      show thesis
      proof (rule that(2) [OF res _ r'])
        show "\<exists>c. asks g c io" if "io \<in> set (map ?io ?un)" for io using that ask s'(1) by auto
        show "rc_tried (rm_col rm' ! c) \<or> (\<exists>io \<in> set (map ?io ?un). asks g c io)" if "c < rm_cols g" for c using that ask s'(1) by auto
      qed (simp_all add: o(2) st0_def)
    qed
  qed
qed

lemma raidz_read_returns:
  assumes g: "good_stripe g" and sub: "bad \<subseteq> {..<rm_cols g}" and bad: "card bad \<le> rm_firstdatacol g"
    and h: "holds_stripe disk g bad" and k: "children_hold (rs_child st) g bad (io_birth (rs_zio st))"
    and r: "being_read g bad (vdev_raidz_map_alloc zb (io_offset (rs_zio st)) (io_size (rs_zio st)) (io_data (rs_zio st)) ashift (length (rs_child st)) np)"
    and rd: "io_type (rs_zio st) \<noteq> ZIO_TYPE_WRITE" and ck: "\<And>d. ck d = 0 \<longleftrightarrow> d = rm_data g" and buf: "\<And>c n. length (zb c n) = n"
  shows "\<exists>st'. raidz_read zb ck writable ashift np disk st = Some st' \<and> io_error (rs_zio st') = 0 \<and> final_data st' = rm_data g"
proof -
  let ?zio = "rs_zio st"
  let ?a = "vdev_raidz_map_alloc zb (io_offset ?zio) (io_size ?zio) (io_data ?zio) ashift (length (rs_child st)) np"
  have cols: "rm_cols ?a = rm_cols g" by (rule same_shapeD(1) [OF being_readD(1) [OF r]])
  have sr: "c < rm_cols g" if "c \<in> set (rev [0..<rm_cols ?a])" for c using that cols by simp
  obtain rm1 ios where f: "foldM (start_read_col (rs_child st) (io_birth ?zio) (io_flags ?zio)) (?a, []) (rev [0..<rm_cols ?a]) = Some (rm1, ios)"
    "being_read g bad rm1" "\<forall>io \<in> set ios. \<exists>c. asks g c io"
    "\<forall>c \<in> set (rev [0..<rm_cols ?a]). c \<notin> bad \<and> rm_firstdatacol g \<le> c \<longrightarrow> (\<exists>io \<in> set ios. asks g c io)"
    using start_cols [OF k r, where flags = "io_flags ?zio" and ios = "[]" and cs = "rev [0..<rm_cols ?a]", OF sr] unfolding append_Nil by blast
  let ?st = "st\<lparr>rs_zio := ?zio\<lparr>io_vsd := Some rm1\<rparr>\<rparr>"
  have start: "vdev_raidz_io_start zb ashift np (rs_child st) ?zio = Some (?zio\<lparr>io_vsd := Some rm1\<rparr>, ios)"
    using rd f(1) by (simp add: vdev_raidz_io_start_def Let_def)
  define rm2 where "rm2 = fold (complete disk) ios rm1"
  have r2: "being_read g bad rm2" "c < rm_cols g \<Longrightarrow> \<exists>io \<in> set ios. asks g c io \<Longrightarrow> rc_tried (rm_col rm2 ! c)" for c
    using complete_all [OF h f(2), of ios] f(3) by (auto simp: rm2_def)
  have data: "rc_tried (rm_col rm2 ! c)" if "rm_firstdatacol g \<le> c" "c < rm_cols g" "c \<notin> bad" for c
    using r2(2) [OF that(2)] f(4) that cols by simp
  have rd': "io_type (rs_zio ?st) \<noteq> ZIO_TYPE_WRITE" using rd by simp
  have fd: "0 < rm_firstdatacol g" using good_stripeD(3) [OF g] by auto
  have ck0: "ck (rm_data g) = 0" using ck by simp
  have sound: "final_data st' = rm_data g" if "vdev_raidz_io_done zb ck writable x rm = (Finished i, st')" "io_error (rs_zio st') = 0"
    "being_read g bad rm" "io_type (rs_zio x) \<noteq> ZIO_TYPE_WRITE" for x rm i st'
    using io_done_sound [OF that(4) _ that(1,2)] same_shapeD(2) [OF being_readD(1) [OF that(3)]] fd ck by simp
  from g r2(1) data sub bad ck0 buf rd' show ?thesis
  proof (rule io_done_first [where zb = zb and ck = ck and writable = writable])
    fix i st' assume d: "vdev_raidz_io_done zb ck writable ?st rm2 = (Finished i, st')" "io_error (rs_zio st') = 0"
    then show ?thesis using start sound [OF d r2(1) rd'] by (simp add: raidz_read_def rm2_def [symmetric])
  next
    fix i st' rm' assume d: "vdev_raidz_io_done zb ck writable ?st rm2 = (Redo i, st')" "io_vsd (rs_zio st') = Some rm'" "being_read g bad rm'"
      "io_type (rs_zio st') = io_type (rs_zio ?st)" and i: "\<And>io. io \<in> set i \<Longrightarrow> \<exists>c. asks g c io"
      and t: "\<And>c. c < rm_cols g \<Longrightarrow> rc_tried (rm_col rm' ! c) \<or> (\<exists>io \<in> set i. asks g c io)"
    define rm3 where "rm3 = fold (complete disk) i rm'"
    have r3: "being_read g bad rm3" "\<And>c. c < rm_cols g \<Longrightarrow> rc_tried (rm_col rm3 ! c)"
      using complete_all [OF h d(3), of i] i t by (auto simp: rm3_def)
    have rd3: "io_type (rs_zio st') \<noteq> ZIO_TYPE_WRITE" using rd d(4) by simp
    obtain i' st'' where e: "vdev_raidz_io_done zb ck writable st' rm3 = (Finished i', st'')" "io_error (rs_zio st'') = 0"
      using io_done_succeeds [where zb = zb and ck = ck, OF g being_read_state [OF r3(1)] r3(2) sub bad ck0 buf rd3] r3(2) by blast
    then show ?thesis using start d(1,2) sound [OF e r3(1) rd3] by (simp add: raidz_read_def rm2_def [symmetric] rm3_def [symmetric])
  qed
qed

section \<open>From a write to a read\<close>


definition demo_write :: raidz_zio where
  "demo_write = \<lparr>io_type = ZIO_TYPE_WRITE, io_flags = ZIO_FLAG_CANFAIL, io_error = 0, io_size = 16, io_txg = 7, io_delegate = False,
     io_offset = 0x40, io_data = [5, 7], io_numerrors = 0, io_birth = 7, io_vsd = None\<rparr>"

definition demo_read :: raidz_state where
  "demo_read = \<lparr>rs_zio = demo_write\<lparr>io_type := ZIO_TYPE_READ, io_data := [0, 0]\<rparr>, rs_child = replicate 4 demo_vdev, rs_ereports = [],
     raidz_corrected_p = 0, raidz_corrected_q = 0, raidz_corrected_pq = 0\<rparr>"

definition demo_disk :: "nat \<Rightarrow> u64 \<Rightarrow> int \<times> u64 list" where
  \<comment> \<open>the data columns of children 2 and 3 silently return something else\<close>
  "demo_disk d off = (0, if d = 0 then [2] else if d = 1 then [13] else [99])"

lemma demo_writes:
  "vdev_raidz_io_start (\<lambda>c n. replicate n 0) 3 2 (replicate 4 demo_vdev) demo_write =
     Some (demo_write\<lparr>io_vsd := Some (generate_parity (vdev_raidz_map_alloc (\<lambda>c n. replicate n 0) 0x40 16 [5, 7] 3 4 2))\<rparr>,
       map (\<lambda>(d, x). \<lparr>ci_vdev = d, ci_offset = 16, ci_data = [x], ci_size = 8, ci_type = ZIO_TYPE_WRITE, ci_flags = ZIO_FLAG_CANFAIL, ci_col = Some d\<rparr>)
         [(0, 2), (1, 13), (2, 5), (3, 7)])"
  by code_simp


end
