(* ===== verification/Lzjb.thy ===== *)
theory Lzjb
  imports Prelude
begin

unbundle bit_operations_syntax

text \<open>
  The LZJB compressor, \<^verbatim>\<open>src/lib/libzpool/lzjb.c\<close>. The source buffer is a list of bytes; its
  address \<open>s_start\<close> and the initial contents of the hash table, which the code leaves
  uninitialised, are arguments, since the table holds the low bits of addresses. The destination
  is the list of bytes written so far. The decompressor has the contents of its destination buffer
  as state, and does not return (\<^const>\<open>None\<close>) when it reads beyond the compressed data.
\<close>

section \<open>Compression\<close>

definition MATCH_BITS :: nat where "MATCH_BITS = 6"
definition MATCH_MIN :: nat where "MATCH_MIN = 3"
definition MATCH_MAX :: nat where "MATCH_MAX = 2 ^ MATCH_BITS + (MATCH_MIN - 1)"
definition OFFSET_MASK :: u32 where "OFFSET_MASK = push_bit (16 - MATCH_BITS) 1 - 1"
definition LEMPEL_SIZE :: nat where "LEMPEL_SIZE = 256"
definition NBBY :: nat where "NBBY = 8"

lemmas lzjb_consts = MATCH_BITS_def MATCH_MIN_def MATCH_MAX_def OFFSET_MASK_def LEMPEL_SIZE_def NBBY_def

record lzjb =
  l_src :: nat
  l_dst :: "u8 list"
  l_copymap :: nat
  l_copymask :: u32
  l_lempel :: "nat \<Rightarrow> u16"

function match_len :: "u8 list \<Rightarrow> nat \<Rightarrow> nat \<Rightarrow> nat \<Rightarrow> nat" where
  \<comment> \<open>for (; mlen < MATCH_MAX; mlen++) if (src[mlen] != cpy[mlen]) break;\<close>
  "match_len s src cpy mlen =
     (if mlen < MATCH_MAX \<and> s ! (src + mlen) = s ! (cpy + mlen) then match_len s src cpy (mlen + 1) else mlen)"
  by pat_completeness auto
termination by (relation "measure (\<lambda>(s, src, cpy, mlen). MATCH_MAX - mlen)") auto

declare match_len.simps [simp del]

definition hash :: "u8 \<Rightarrow> u8 \<Rightarrow> u8 \<Rightarrow> nat" where
  "hash a b c = unat (((ucast a + 13) XOR (ucast b - 13) XOR ucast c) AND (of_nat LEMPEL_SIZE - 1 :: u32))"

definition lzjb_literal :: "u8 list \<Rightarrow> lzjb \<Rightarrow> lzjb" where
  "lzjb_literal s st = st\<lparr>l_dst := l_dst st @ [s ! l_src st], l_src := l_src st + 1\<rparr>"

definition lzjb_hash :: "u8 list \<Rightarrow> lzjb \<Rightarrow> nat" where
  "lzjb_hash s st = hash (s ! l_src st) (s ! (l_src st + 1)) (s ! (l_src st + 2))"

definition lzjb_offset :: "u64 \<Rightarrow> u8 list \<Rightarrow> lzjb \<Rightarrow> u32" where
  "lzjb_offset s_start s st = ucast (s_start + of_nat (l_src st) - ucast (l_lempel st (lzjb_hash s st))) AND OFFSET_MASK"

definition lzjb_copy :: "u8 list \<Rightarrow> u32 \<Rightarrow> lzjb \<Rightarrow> lzjb" where
  "lzjb_copy s offset st =
     (let mlen = match_len s (l_src st) (l_src st - unat offset) MATCH_MIN;
          dst = (l_dst st)[l_copymap st := (l_dst st ! l_copymap st) OR ucast (l_copymask st)]
      in st\<lparr>l_dst := dst @ [ucast (push_bit (NBBY - MATCH_BITS) (of_nat (mlen - MATCH_MIN) :: u32) OR drop_bit NBBY offset), ucast offset],
            l_src := l_src st + mlen\<rparr>)"

definition lzjb_item :: "u64 \<Rightarrow> u8 list \<Rightarrow> lzjb \<Rightarrow> lzjb" where
  \<comment> \<open>one round of the loop, after the test for a new copy map\<close>
  "lzjb_item s_start s st =
     (let src = l_src st in
      if src + MATCH_MAX > length s then lzjb_literal s st
      else
        let offset = lzjb_offset s_start s st; cpy = src - unat offset;
            st = st\<lparr>l_lempel := (l_lempel st)(lzjb_hash s st := ucast (s_start + of_nat src))\<rparr> in
        if unat offset \<le> src \<and> unat offset \<noteq> 0 \<and>
           s ! src = s ! cpy \<and> s ! (src + 1) = s ! (cpy + 1) \<and> s ! (src + 2) = s ! (cpy + 2)
        then lzjb_copy s offset st else lzjb_literal s st)"

lemma match_len_ge: "mlen \<le> match_len s src cpy mlen"
proof (induction s src cpy mlen rule: match_len.induct)
  case (1 s src cpy mlen)
  then show ?case by (subst match_len.simps) (auto intro: Suc_leD)
qed

lemma lzjb_copy_src: "l_src st < l_src (lzjb_copy s offset st)"
  using match_len_ge [of MATCH_MIN s "l_src st" "l_src st - unat offset"] by (simp add: lzjb_copy_def Let_def MATCH_MIN_def)

lemma lzjb_item_src: "l_src st < l_src (lzjb_item s_start s st)"
  using lzjb_copy_src [of "st\<lparr>l_lempel := l\<rparr>" for l] by (simp add: lzjb_item_def lzjb_literal_def Let_def)

lemma lzjb_item_measure:
  assumes "l_src st' = l_src st" "l_src st < length s"
  shows "length s - l_src (lzjb_item s_start s st') < length s - l_src st"
  using lzjb_item_src [of st' s_start s] assms by simp

function lzjb_loop :: "u64 \<Rightarrow> u8 list \<Rightarrow> nat \<Rightarrow> lzjb \<Rightarrow> nat \<times> u8 list" where
  "lzjb_loop s_start s d_len st =
     (if l_src st < length s then
        let st = st\<lparr>l_copymask := push_bit 1 (l_copymask st)\<rparr> in
        if l_copymask st = push_bit NBBY 1 then
          if length (l_dst st) + 1 + 2 * NBBY \<ge> d_len then (length s, if d_len \<noteq> length s then l_dst st else s)
          else lzjb_loop s_start s d_len (lzjb_item s_start s
                 (st\<lparr>l_copymask := 1, l_copymap := length (l_dst st), l_dst := l_dst st @ [0]\<rparr>))
        else lzjb_loop s_start s d_len (lzjb_item s_start s st)
      else (length (l_dst st), l_dst st))"
  by pat_completeness auto
termination
proof (relation "measure (\<lambda>(s_start, s, d_len, st). length s - l_src st)")
qed (auto intro!: lzjb_item_measure)

declare lzjb_loop.simps [simp del]

definition lzjb_compress :: "u64 \<Rightarrow> (nat \<Rightarrow> u16) \<Rightarrow> u8 list \<Rightarrow> nat \<Rightarrow> nat \<times> u8 list" where
  "lzjb_compress s_start lempel s d_len =
     lzjb_loop s_start s d_len \<lparr>l_src = 0, l_dst = [], l_copymap = 0, l_copymask = push_bit (NBBY - 1) 1, l_lempel = lempel\<rparr>"

section \<open>Decompression\<close>

fun copy_match :: "nat \<Rightarrow> nat \<Rightarrow> nat \<Rightarrow> u8 list \<Rightarrow> nat \<times> u8 list" where
  \<comment> \<open>while (--mlen >= 0 && dst < d_end) *dst++ = *cpy++;\<close>
  "copy_match 0 dst cpy buf = (dst, buf)"
| "copy_match (Suc mlen) dst cpy buf =
     (if dst < length buf then copy_match mlen (dst + 1) (cpy + 1) (buf[dst := buf ! cpy]) else (dst, buf))"

definition fetch :: "u8 list \<Rightarrow> nat \<Rightarrow> u8 option" where
  "fetch s i = (if i < length s then Some (s ! i) else None)"

lemma copy_matchD:
  assumes "(dst', buf') = copy_match mlen dst cpy buf"
  shows "length buf' = length buf \<and> dst \<le> dst' \<and> (0 < mlen \<and> dst < length buf \<longrightarrow> dst < dst')"
  using assms by (induction mlen dst cpy buf rule: copy_match.induct) (auto split: if_splits)

function lzjb_dloop :: "u8 list \<Rightarrow> nat \<Rightarrow> nat \<Rightarrow> u8 \<Rightarrow> u32 \<Rightarrow> u8 list \<Rightarrow> (int \<times> u8 list) option" where
  "lzjb_dloop s src dst copymap copymask buf =
     (if dst < length buf then
        let copymask = push_bit 1 copymask; new = (copymask = push_bit NBBY 1) in
        case (if new then fetch s src else Some copymap) of None \<Rightarrow> None
        | Some copymap \<Rightarrow>
          (let copymask = (if new then 1 else copymask); src = (if new then src + 1 else src) in
           if ucast copymap AND copymask \<noteq> 0 then
             case (fetch s src, fetch s (src + 1)) of (Some b0, Some b1) \<Rightarrow>
               (let mlen = unat (drop_bit (NBBY - MATCH_BITS) (ucast b0 :: u32)) + MATCH_MIN;
                    offset = unat ((push_bit NBBY (ucast b0) OR ucast b1) AND OFFSET_MASK) in
                if dst < offset then Some (-1, buf)
                else let (dst, buf) = copy_match mlen dst (dst - offset) buf
                     in lzjb_dloop s (src + 2) dst copymap copymask buf)
             | _ \<Rightarrow> None
           else
             case fetch s src of None \<Rightarrow> None
             | Some b \<Rightarrow> lzjb_dloop s (src + 1) (dst + 1) copymap copymask (buf[dst := b]))
      else Some (0, buf))"
  by pat_completeness auto
termination
  by (relation "measure (\<lambda>(s, src, dst, copymap, copymask, buf). length buf - dst)") (auto dest!: copy_matchD simp: MATCH_MIN_def)

declare lzjb_dloop.simps [simp del]

definition lzjb_decompress :: "u8 list \<Rightarrow> u8 list \<Rightarrow> (int \<times> u8 list) option" where
  "lzjb_decompress s buf = lzjb_dloop s 0 0 0 (push_bit (NBBY - 1) 1) buf"

section \<open>Matches\<close>

lemma match_len:
  assumes "\<And>j. j < mlen \<Longrightarrow> s ! (src + j) = s ! (cpy + j)" "mlen \<le> MATCH_MAX"
  shows "match_len s src cpy mlen \<le> MATCH_MAX" "j < match_len s src cpy mlen \<Longrightarrow> s ! (src + j) = s ! (cpy + j)"
proof -
  have "match_len s src cpy mlen \<le> MATCH_MAX \<and> (\<forall>j < match_len s src cpy mlen. s ! (src + j) = s ! (cpy + j))" using assms
  proof (induction s src cpy mlen rule: match_len.induct)
    case (1 s src cpy mlen)
    show ?case
    proof (cases "mlen < MATCH_MAX \<and> s ! (src + mlen) = s ! (cpy + mlen)")
      case True
      then have "match_len s src cpy (mlen + 1) \<le> MATCH_MAX \<and> (\<forall>j < match_len s src cpy (mlen + 1). s ! (src + j) = s ! (cpy + j))"
        using 1(2) by (intro 1(1)) (auto simp: less_Suc_eq)
      then show ?thesis using True by (subst (1 2) match_len.simps) simp
    next
      case False
      then show ?thesis using 1(2,3) by (subst (1 2) match_len.simps) auto
    qed
  qed
  then show "match_len s src cpy mlen \<le> MATCH_MAX" "j < match_len s src cpy mlen \<Longrightarrow> s ! (src + j) = s ! (cpy + j)" by auto
qed

lemma offset_mask: "OFFSET_MASK = mask 10"
  by (simp add: OFFSET_MASK_def MATCH_BITS_def mask_eq_exp_minus_1)

text \<open>The two bytes of a match hold its length and offset.\<close>

lemma match_bytes:
  fixes len off :: u32
  assumes len: "\<And>n. 6 \<le> n \<Longrightarrow> \<not> bit len n" and off: "\<And>n. 10 \<le> n \<Longrightarrow> \<not> bit off n"
  defines "b0 \<equiv> (ucast (push_bit (NBBY - MATCH_BITS) len OR drop_bit NBBY off) :: u8)" and "b1 \<equiv> (ucast off :: u8)"
  shows "drop_bit (NBBY - MATCH_BITS) (ucast b0 :: u32) = len"
    "(push_bit NBBY (ucast b0) OR ucast b1) AND OFFSET_MASK = off"
proof -
  show "drop_bit (NBBY - MATCH_BITS) (ucast b0 :: u32) = len"
  proof (rule bit_word_eqI)
    fix n assume "n < LENGTH(32)"
    show "bit (drop_bit (NBBY - MATCH_BITS) (ucast b0 :: u32)) n \<longleftrightarrow> bit len n"
      using len [of n] off [of "n + 10"] by (cases "n < 6") (auto simp: b0_def bit_simps NBBY_def MATCH_BITS_def add.commute)
  qed
  show "(push_bit NBBY (ucast b0) OR ucast b1) AND OFFSET_MASK = off"
  proof (rule bit_word_eqI)
    fix n assume n: "n < LENGTH(32)"
    consider "n < 8" | "n = 8" | "n = 9" | "10 \<le> n" by linarith
    then show "bit ((push_bit NBBY (ucast b0) OR ucast b1) AND OFFSET_MASK) n \<longleftrightarrow> bit off n"
      using off [of n] n by cases (auto simp: b0_def b1_def offset_mask bit_simps NBBY_def MATCH_BITS_def)
  qed
qed

lemma copy_match_correct:
  assumes "take i buf = take i s" "length buf = length s" "i + n \<le> length s" "off \<le> i" "0 < off"
    "\<And>j. j < n \<Longrightarrow> s ! (i + j) = s ! (i - off + j)"
  shows "\<exists>buf'. copy_match n i (i - off) buf = (i + n, buf') \<and> take (i + n) buf' = take (i + n) s \<and> length buf' = length s"
  using assms
proof (induction n arbitrary: i buf)
  case (Suc n)
  have i: "i < length s" using Suc.prems(3) by simp
  have "buf ! (i - off) = s ! (i - off)" using Suc.prems(1,4,5) i by (metis diff_less nth_take order.strict_trans2 less_le_trans)
  then have b: "buf ! (i - off) = s ! i" using Suc.prems(6) [of 0] by simp
  have t: "take (i + 1) (buf[i := buf ! (i - off)]) = take (i + 1) s"
    unfolding b using Suc.prems(1,2) i by (simp add: take_Suc_conv_app_nth)
  have "\<exists>buf'. copy_match n (i + 1) (i + 1 - off) (buf[i := buf ! (i - off)]) = (i + 1 + n, buf') \<and>
      take (i + 1 + n) buf' = take (i + 1 + n) s \<and> length buf' = length s"
    by (rule Suc.IH [OF t]) (use Suc.prems(2-5) Suc.prems(6) [of "Suc j" for j] in \<open>auto simp: Suc_diff_le\<close>)
  then show ?case using i Suc.prems(2,4) by (simp add: Suc_diff_le)
qed simp

section \<open>Copy masks\<close>

lemma mask_bits:
  assumes "k < 8"
  shows "ucast (cm :: u8) AND (push_bit k 1 :: u32) \<noteq> 0 \<longleftrightarrow> bit cm k"
    "bit (cm OR ucast (push_bit k 1 :: u32)) n \<longleftrightarrow> bit cm n \<or> n = k"
    "push_bit 1 (push_bit k 1 :: u32) = push_bit (Suc k) 1" "push_bit k (1 :: u32) = push_bit NBBY 1 \<longleftrightarrow> False"
proof -
  have "ucast (cm :: u8) AND (push_bit k 1 :: u32) = (if bit cm k then push_bit k 1 else 0)"
    using assms by (intro bit_word_eqI) (auto simp: bit_simps)
  moreover have p: "bit (push_bit k (1 :: u32)) k" "\<not> bit (push_bit NBBY (1 :: u32)) k" using assms
    by (simp add: bit_simps, simp add: bit_push_bit_iff NBBY_def del: push_bit_numeral push_bit_of_1)
  then have "push_bit k (1 :: u32) \<noteq> 0" by (metis bit_0_eq bot_apply bot_bool_def)
  ultimately show "ucast (cm :: u8) AND (push_bit k 1 :: u32) \<noteq> 0 \<longleftrightarrow> bit cm k" by simp
  show "bit (cm OR ucast (push_bit k 1 :: u32)) n \<longleftrightarrow> bit cm n \<or> n = k" using assms by (auto simp: bit_simps)
  show "push_bit 1 (push_bit k 1 :: u32) = push_bit (Suc k) 1" by simp
  show "push_bit k (1 :: u32) = push_bit NBBY 1 \<longleftrightarrow> False" using p by metis
qed

section \<open>One item\<close>

lemma item_cases:
  assumes "l_src st < length s"
  obtains (literal) "l_dst (lzjb_item s_start s st) = l_dst st @ [s ! l_src st]" "l_src (lzjb_item s_start s st) = l_src st + 1"
  | (match) off mlen where "l_dst (lzjb_item s_start s st) = (l_dst st)[l_copymap st := (l_dst st ! l_copymap st) OR ucast (l_copymask st)] @
        [ucast (push_bit (NBBY - MATCH_BITS) (of_nat (mlen - MATCH_MIN) :: u32) OR drop_bit NBBY off), ucast off]"
      "l_src (lzjb_item s_start s st) = l_src st + mlen" "0 < unat off" "unat off \<le> l_src st" "\<And>n. 10 \<le> n \<Longrightarrow> \<not> bit off n"
      "MATCH_MIN \<le> mlen" "mlen \<le> MATCH_MAX" "l_src st + mlen \<le> length s" "\<And>j. j < mlen \<Longrightarrow> s ! (l_src st + j) = s ! (l_src st - unat off + j)"
proof -
  let ?o = "lzjb_offset s_start s st" and ?st = "st\<lparr>l_lempel := (l_lempel st)(lzjb_hash s st := ucast (s_start + of_nat (l_src st)))\<rparr>"
  let ?cpy = "l_src st - unat ?o"
  let ?m = "l_src st + MATCH_MAX \<le> length s \<and> unat ?o \<le> l_src st \<and> unat ?o \<noteq> 0 \<and>
    s ! l_src st = s ! ?cpy \<and> s ! (l_src st + 1) = s ! (?cpy + 1) \<and> s ! (l_src st + 2) = s ! (?cpy + 2)"
  show thesis
  proof (cases ?m)
    case True
    then have E: "lzjb_item s_start s st = lzjb_copy s ?o ?st" by (simp add: lzjb_item_def Let_def)
    have eq: "s ! (l_src st + j) = s ! (?cpy + j)" if j: "j < MATCH_MIN" for j
    proof -
      consider "j = 0" | "j = 1" | "j = 2" using j by (fastforce simp: MATCH_MIN_def)
      then show ?thesis using True by cases simp_all
    qed
    have le: "MATCH_MIN \<le> MATCH_MAX" by (simp add: lzjb_consts)
    note M = match_len [OF eq le]
    have "\<not> bit ?o n" if "10 \<le> n" for n
      using that by (simp add: lzjb_offset_def offset_mask bit_simps)
    then show thesis using match [of "match_len s (l_src st) ?cpy MATCH_MIN" ?o] M match_len_ge [of MATCH_MIN s "l_src st" ?cpy] True
      unfolding E by (simp add: lzjb_copy_def Let_def)
  next
    case False
    then have "lzjb_item s_start s st = lzjb_literal s ?st \<or> lzjb_item s_start s st = lzjb_literal s st"
      by (auto simp: lzjb_item_def Let_def)
    then show thesis using literal by (auto simp: lzjb_literal_def)
  qed
qed

lemma item_frame [simp]:
  "l_copymap (lzjb_item s_start s st) = l_copymap st" "l_copymask (lzjb_item s_start s st) = l_copymask st"
  by (auto simp: lzjb_item_def lzjb_literal_def lzjb_copy_def Let_def)

definition agrees :: "nat \<Rightarrow> nat \<Rightarrow> u8 list \<Rightarrow> u8 list \<Rightarrow> bool" where
  \<comment> \<open>the final output extends the output so far, of whose copy map the first bits are final\<close>
  "agrees m k d D \<longleftrightarrow> length d \<le> length D \<and> (\<forall>j < length d. j \<noteq> m \<longrightarrow> D ! j = d ! j) \<and>
     (m < length d \<longrightarrow> (\<forall>n < k. bit (D ! m) n \<longleftrightarrow> bit (d ! m) n))"

definition ditem :: "u8 list \<Rightarrow> nat \<Rightarrow> nat \<Rightarrow> u8 \<Rightarrow> u32 \<Rightarrow> u8 list \<Rightarrow> (int \<times> u8 list) option" where
  \<comment> \<open>the round of the decompressor after the test for a new copy map\<close>
  "ditem s src dst copymap copymask buf =
     (if ucast copymap AND copymask \<noteq> 0 then
        case (fetch s src, fetch s (src + 1)) of (Some b0, Some b1) \<Rightarrow>
          (let mlen = unat (drop_bit (NBBY - MATCH_BITS) (ucast b0 :: u32)) + MATCH_MIN;
               offset = unat ((push_bit NBBY (ucast b0) OR ucast b1) AND OFFSET_MASK) in
           if dst < offset then Some (-1, buf)
           else let (dst, buf) = copy_match mlen dst (dst - offset) buf
                in lzjb_dloop s (src + 2) dst copymap copymask buf)
        | _ \<Rightarrow> None
      else
        case fetch s src of None \<Rightarrow> None
        | Some b \<Rightarrow> lzjb_dloop s (src + 1) (dst + 1) copymap copymask (buf[dst := b]))"

lemma dloop_unfold:
  assumes "dst < length buf"
  shows "k < 7 \<Longrightarrow> lzjb_dloop s src dst cm (push_bit k 1) buf = ditem s src dst cm (push_bit (Suc k) 1) buf"
    "src < length s \<Longrightarrow> lzjb_dloop s src dst cm (push_bit 7 1) buf = ditem s (src + 1) dst (s ! src) 1 buf"
proof -
  show "lzjb_dloop s src dst cm (push_bit k 1) buf = ditem s src dst cm (push_bit (Suc k) 1) buf" if "k < 7"
    using mask_bits(3) [of k] mask_bits(4) [of "Suc k"] that assms
    by (subst lzjb_dloop.simps) (simp add: ditem_def Let_def del: push_bit_numeral push_bit_of_1)
  show "src < length s \<Longrightarrow> lzjb_dloop s src dst cm (push_bit 7 1) buf = ditem s (src + 1) dst (s ! src) 1 buf"
    using assms by (subst lzjb_dloop.simps) (simp add: ditem_def Let_def fetch_def NBBY_def)
qed

definition decodes :: "u8 list \<Rightarrow> u8 list \<Rightarrow> nat \<Rightarrow> nat \<Rightarrow> nat \<Rightarrow> u8 \<Rightarrow> bool" where
  \<comment> \<open>the decompressor, from this point on, recovers the data\<close>
  "decodes s D' k src dst cm \<longleftrightarrow> (\<forall>buf. length buf = length s \<longrightarrow> take dst buf = take dst s \<longrightarrow>
     lzjb_dloop D' src dst cm (push_bit k 1) buf = Some (0, s))"

lemma item_decodes:
  fixes D rest :: "u8 list" and s_start :: u64
  assumes src: "l_src st < length s" and k: "k < 8" "l_copymask st = push_bit k 1"
    and m: "l_copymap st < length (l_dst st)" "\<And>n. k \<le> n \<Longrightarrow> \<not> bit (l_dst st ! l_copymap st) n"
  defines "st' \<equiv> lzjb_item s_start s st" and "cm \<equiv> D ! l_copymap st"
  assumes ag: "agrees (l_copymap st) (Suc k) (l_dst st') D"
    and dec: "decodes s (D @ rest) k (length (l_dst st')) (l_src st') cm"
    and buf: "length buf = length s" "take (l_src st) buf = take (l_src st) s"
  shows "agrees (l_copymap st) k (l_dst st) D" "ditem (D @ rest) (length (l_dst st)) (l_src st) cm (push_bit k 1) buf = Some (0, s)"
proof -
  let ?m = "l_copymap st" and ?d = "l_dst st" and ?src = "l_src st"
  have D: "length (l_dst st') \<le> length D" "\<And>j. j < length (l_dst st') \<Longrightarrow> j \<noteq> ?m \<Longrightarrow> D ! j = l_dst st' ! j"
    "\<And>n. ?m < length (l_dst st') \<Longrightarrow> n \<le> k \<Longrightarrow> bit cm n \<longleftrightarrow> bit (l_dst st' ! ?m) n"
    using ag unfolding agrees_def cm_def by auto
  have "agrees ?m k ?d D \<and> ditem (D @ rest) (length ?d) ?src cm (push_bit k 1) buf = Some (0, s)"
    using src
  proof (cases rule: item_cases [of st s s_start])
    case literal
    note L = literal [folded st'_def]
    have nb: "\<not> bit cm k" using D(3) [of k] m L(1) by (simp add: nth_append)
    have f: "fetch (D @ rest) (length ?d) = Some (s ! ?src)" using D(1) D(2) [of "length ?d"] m(1) L(1) by (simp add: fetch_def nth_append)
    have t: "take (Suc ?src) (buf[?src := s ! ?src]) = take (Suc ?src) s" using buf src by (simp add: take_Suc_conv_app_nth)
    have "ditem (D @ rest) (length ?d) ?src cm (push_bit k 1) buf = Some (0, s)"
      using dec buf(1) t mask_bits(1) [OF k(1), of cm] nb f unfolding decodes_def L by (simp add: ditem_def)
    moreover have "agrees ?m k ?d D" using D m(1) unfolding L agrees_def cm_def by (auto simp: nth_append)
    ultimately show ?thesis by simp
  next
    case (match off mlen)
    note L = match [folded st'_def]
    let ?len = "of_nat (mlen - MATCH_MIN) :: u32"
    have nb: "bit cm k" using D(3) [of k] m L(1) mask_bits(2) [OF k(1)] by (simp add: nth_append k(2))
    have ul: "unat ?len = mlen - MATCH_MIN" using L(7) by (simp add: unat_of_nat lzjb_consts)
    have lb: "\<not> bit ?len n" if "6 \<le> n" for n
    proof -
      have "mlen - MATCH_MIN < 2 ^ 6" using L(7) by (simp add: lzjb_consts)
      also have "(2 :: nat) ^ 6 \<le> 2 ^ n" using that by (rule power_increasing) simp
      finally have "\<not> bit (mlen - MATCH_MIN) n" by (simp add: bit_iff_odd)
      then show ?thesis by (simp add: bit_of_nat_iff)
    qed
    define b0 b1 where "b0 = (ucast (push_bit (NBBY - MATCH_BITS) ?len OR drop_bit NBBY off) :: u8)" "b1 = (ucast off :: u8)"
    have B: "drop_bit (NBBY - MATCH_BITS) (ucast b0 :: u32) = ?len" "(push_bit NBBY (ucast b0) OR ucast b1) AND OFFSET_MASK = off"
      unfolding b0_b1_def by (rule match_bytes [of ?len off, OF lb L(5)]; assumption)+
    have L1: "l_dst st' = (l_dst st)[l_copymap st := (l_dst st ! l_copymap st) OR ucast (l_copymask st)] @ [b0, b1]" using L(1) by (simp only: b0_b1_def)
    have f: "fetch (D @ rest) (length ?d) = Some b0" "fetch (D @ rest) (length ?d + 1) = Some b1"
      using D(1) D(2) [of "length ?d"] D(2) [of "length ?d + 1"] m(1) L1 by (simp_all add: fetch_def nth_append)
    have mw: "unat (drop_bit (NBBY - MATCH_BITS) (ucast b0 :: u32)) + MATCH_MIN = mlen" unfolding B(1) ul using L(6) by simp
    obtain buf' where c: "copy_match mlen ?src (?src - unat off) buf = (?src + mlen, buf')" "take (?src + mlen) buf' = take (?src + mlen) s" "length buf' = length s"
      using copy_match_correct [OF buf(2,1) L(8,4,3,9)] by blast
    have "ditem (D @ rest) (length ?d) ?src cm (push_bit k 1) buf = lzjb_dloop (D @ rest) (length ?d + 2) (?src + mlen) cm (push_bit k 1) buf'"
      using mask_bits(1) [OF k(1), of cm] nb f L(4) c(1) by (simp add: ditem_def B(2) mw Let_def)
    then have "ditem (D @ rest) (length ?d) ?src cm (push_bit k 1) buf = Some (0, s)"
      using dec c(2,3) unfolding decodes_def L by simp
    moreover have "agrees ?m k ?d D" using D m(1) mask_bits(2) [OF k(1)] unfolding L agrees_def cm_def by (auto simp: nth_append k(2))
    ultimately show ?thesis by simp
  qed
  then show "agrees (l_copymap st) k (l_dst st) D" "ditem (D @ rest) (length (l_dst st)) (l_src st) cm (push_bit k 1) buf = Some (0, s)" by auto
qed

lemma item_bits:
  assumes "l_src st < length s" "k < 8" "l_copymask st = push_bit k 1" "l_copymap st < length (l_dst st)" "\<And>n. k \<le> n \<Longrightarrow> \<not> bit (l_dst st ! l_copymap st) n"
  shows "l_src (lzjb_item s_start s st) \<le> length s" "l_copymap st < length (l_dst (lzjb_item s_start s st))"
    "k < n \<Longrightarrow> \<not> bit (l_dst (lzjb_item s_start s st) ! l_copymap st) n" "length (l_dst (lzjb_item s_start s st)) \<le> length (l_dst st) + 2"
proof -
  have "l_src (lzjb_item s_start s st) \<le> length s \<and> l_copymap st < length (l_dst (lzjb_item s_start s st)) \<and>
    (k < n \<longrightarrow> \<not> bit (l_dst (lzjb_item s_start s st) ! l_copymap st) n) \<and> length (l_dst (lzjb_item s_start s st)) \<le> length (l_dst st) + 2"
    using assms(1)
  proof (cases rule: item_cases [of st s s_start])
    case literal
    then show ?thesis using assms by (simp add: nth_append)
  next
    case (match off mlen)
    then show ?thesis using assms(3-5) mask_bits(2) [OF assms(2)] by (simp add: nth_append)
  qed
  then show "l_src (lzjb_item s_start s st) \<le> length s" "l_copymap st < length (l_dst (lzjb_item s_start s st))"
    "k < n \<Longrightarrow> \<not> bit (l_dst (lzjb_item s_start s st) ! l_copymap st) n" "length (l_dst (lzjb_item s_start s st)) \<le> length (l_dst st) + 2" by auto
qed

section \<open>The loops\<close>

lemma loop_end: "\<not> l_src st < length s \<Longrightarrow> lzjb_loop s_start s d_len st = (length (l_dst st), l_dst st)"
  by (subst lzjb_loop.simps) simp

lemma loop_group:
  assumes "l_src st < length s" "l_copymask st = push_bit 7 1" "\<not> length (l_dst st) + 17 \<ge> d_len"
  shows "lzjb_loop s_start s d_len st = lzjb_loop s_start s d_len (lzjb_item s_start s
    (st\<lparr>l_copymask := push_bit 0 1, l_copymap := length (l_dst st), l_dst := l_dst st @ [0]\<rparr>))"
  using assms by (subst lzjb_loop.simps) (simp add: NBBY_def Let_def)

lemma loop_full:
  assumes "l_src st < length s" "l_copymask st = push_bit 7 1" "length (l_dst st) + 17 \<ge> d_len"
  shows "lzjb_loop s_start s d_len st = (length s, if d_len \<noteq> length s then l_dst st else s)"
  using assms by (subst lzjb_loop.simps) (simp add: NBBY_def Let_def)

lemma loop_same:
  assumes "l_src st < length s" "l_copymask st = push_bit k 1" "k < 7"
  shows "lzjb_loop s_start s d_len st = lzjb_loop s_start s d_len (lzjb_item s_start s (st\<lparr>l_copymask := push_bit (Suc k) 1\<rparr>))"
  using mask_bits(3) [of k] mask_bits(4) [of "Suc k"] assms
  by (subst lzjb_loop.simps) (simp add: Let_def del: push_bit_numeral push_bit_of_1)

definition lzjb_inv :: "u8 list \<Rightarrow> nat \<Rightarrow> lzjb \<Rightarrow> bool" where
  "lzjb_inv s k st \<longleftrightarrow> k < 8 \<and> l_copymask st = push_bit k 1 \<and> l_src st \<le> length s \<and>
     (k < 7 \<longrightarrow> l_copymap st < length (l_dst st) \<and> (\<forall>n > k. \<not> bit (l_dst st ! l_copymap st) n))"

lemma item_inv:
  assumes "l_src st < length s" "k < 8" "l_copymask st = push_bit k 1" "l_copymap st < length (l_dst st)" "\<And>n. k \<le> n \<Longrightarrow> \<not> bit (l_dst st ! l_copymap st) n"
  shows "lzjb_inv s k (lzjb_item s_start s st)"
  unfolding lzjb_inv_def using item_bits(1-3) [OF assms] assms(2,3) by simp

lemma loop_decodes:
  assumes "lzjb_loop s_start s d_len st = (n, D)" "n \<noteq> length s" "lzjb_inv s k st"
  shows "n = length D \<and> agrees (l_copymap st) (Suc k) (l_dst st) D \<and>
    (\<forall>cm. (k < 7 \<longrightarrow> cm = D ! l_copymap st) \<longrightarrow> decodes s (D @ rest) k (length (l_dst st)) (l_src st) cm)"
  using assms
proof (induction "length s - l_src st" arbitrary: st k rule: less_induct)
  case less
  have inv: "k < 8" "l_copymask st = push_bit k 1" "l_src st \<le> length s"
    "k < 7 \<Longrightarrow> l_copymap st < length (l_dst st)" "\<And>n. k < 7 \<Longrightarrow> k < n \<Longrightarrow> \<not> bit (l_dst st ! l_copymap st) n"
    using less.prems(3) by (auto simp: lzjb_inv_def)
  show ?case
  proof (cases "l_src st < length s")
    case False
    then have e: "l_src st = length s" "n = length D" "D = l_dst st" using inv(3) less.prems(1) loop_end [OF False] by auto
    then show ?thesis by (auto simp: agrees_def decodes_def lzjb_dloop.simps)
  next
    case src: True
    show ?thesis
    proof (cases "k < 7")
      case True
      define st1 where "st1 = st\<lparr>l_copymask := push_bit (Suc k) 1\<rparr>"
      have m1: "l_src st1 < length s" "Suc k < 8" "l_copymask st1 = push_bit (Suc k) 1" "l_copymap st1 < length (l_dst st1)"
        "\<And>n. Suc k \<le> n \<Longrightarrow> \<not> bit (l_dst st1 ! l_copymap st1) n"
        using inv(4,5) src True by (simp_all add: st1_def)
      note L = loop_same [OF src inv(2) True, of s_start d_len, folded st1_def]
      have lt: "length s - l_src (lzjb_item s_start s st1) < length s - l_src st"
        by (rule lzjb_item_measure) (use src in \<open>simp_all add: st1_def\<close>)
      from less.hyps [OF lt less.prems(1) [unfolded L] less.prems(2) item_inv [OF m1]]
      have IH: "n = length D" "agrees (l_copymap st1) (Suc (Suc k)) (l_dst (lzjb_item s_start s st1)) D"
        "decodes s (D @ rest) (Suc k) (length (l_dst (lzjb_item s_start s st1))) (l_src (lzjb_item s_start s st1)) (D ! l_copymap st1)" by auto
      note I = item_decodes [OF m1 IH(2,3)]
      have st1: "l_copymap st1 = l_copymap st" "l_dst st1 = l_dst st" "l_src st1 = l_src st" by (simp_all add: st1_def)
      have "decodes s (D @ rest) k (length (l_dst st)) (l_src st) (D ! l_copymap st)"
        unfolding decodes_def using I(2) dloop_unfold(1) [OF _ True] src by (simp add: st1)
      moreover have "agrees (l_copymap st) (Suc k) (l_dst st) D" using I(1) [of s] by (simp add: st1)
      ultimately show ?thesis using IH(1) True by simp
    next
      case False
      then have k: "k = 7" using inv(1) by simp
      define st1 where "st1 = st\<lparr>l_copymask := push_bit 0 1, l_copymap := length (l_dst st), l_dst := l_dst st @ [0]\<rparr>"
      have room: "\<not> length (l_dst st) + 17 \<ge> d_len" using loop_full [OF src inv(2) [unfolded k], of d_len s_start] less.prems(1,2) by auto
      note L = loop_group [OF src inv(2) [unfolded k] room, of s_start, folded st1_def]
      have m1: "l_src st1 < length s" "0 < (8 :: nat)" "l_copymask st1 = push_bit 0 1" "l_copymap st1 < length (l_dst st1)"
        "\<And>n. 0 \<le> n \<Longrightarrow> \<not> bit (l_dst st1 ! l_copymap st1) n"
        using src by (simp_all add: st1_def)
      have lt: "length s - l_src (lzjb_item s_start s st1) < length s - l_src st"
        by (rule lzjb_item_measure) (use src in \<open>simp_all add: st1_def\<close>)
      from less.hyps [OF lt less.prems(1) [unfolded L] less.prems(2) item_inv [OF m1]]
      have IH: "n = length D" "agrees (l_copymap st1) (Suc 0) (l_dst (lzjb_item s_start s st1)) D"
        "decodes s (D @ rest) 0 (length (l_dst (lzjb_item s_start s st1))) (l_src (lzjb_item s_start s st1)) (D ! l_copymap st1)" by auto
      note I = item_decodes [OF m1 IH(2,3)]
      have st1: "l_copymap st1 = length (l_dst st)" "l_dst st1 = l_dst st @ [0]" "l_src st1 = l_src st" by (simp_all add: st1_def)
      have ag: "agrees (l_copymap st1) 0 (l_dst st1) D" using I(1) [of s] by (simp add: st1)
      have "length (l_dst st) < length D" using ag by (simp add: agrees_def st1)
      then have "decodes s (D @ rest) k (length (l_dst st)) (l_src st) cm" for cm
        unfolding decodes_def k using I(2) dloop_unfold(2) src by (simp add: st1 nth_append)
      moreover have "agrees (l_copymap st) (Suc k) (l_dst st) D" using ag unfolding agrees_def st1 by (auto simp: nth_append)
      ultimately show ?thesis using IH(1) by simp
    qed
  qed
qed

lemma loop_bound:
  assumes "lzjb_loop s_start s d_len st = (n, D)" "lzjb_inv s k st" "l_dst st = [] \<or> length (l_dst st) < d_len"
    "k < 7 \<Longrightarrow> length (l_dst st) \<le> l_copymap st + 2 * k + 3 \<and> l_copymap st + 17 < d_len"
  shows "length D \<le> d_len \<and> (n = length D \<and> (D = [] \<or> length D < d_len) \<or> n = length s \<and> (d_len = length s \<longrightarrow> D = s))"
  using assms
proof (induction "length s - l_src st" arbitrary: st k rule: less_induct)
  case less
  have inv: "k < 8" "l_copymask st = push_bit k 1" "k < 7 \<Longrightarrow> l_copymap st < length (l_dst st)"
    "\<And>n. k < 7 \<Longrightarrow> k < n \<Longrightarrow> \<not> bit (l_dst st ! l_copymap st) n"
    using less.prems(2) by (auto simp: lzjb_inv_def)
  show ?case
  proof (cases "l_src st < length s")
    case False
    then show ?thesis using loop_end [OF False, of s_start d_len] less.prems(1,3) by auto
  next
    case src: True
    have step: ?thesis if r: "lzjb_loop s_start s d_len st = lzjb_loop s_start s d_len (lzjb_item s_start s st1)" and s1: "l_src st1 = l_src st"
      and j: "j < 8" "l_copymask st1 = push_bit j 1" "l_copymap st1 < length (l_dst st1)" "\<And>n. j \<le> n \<Longrightarrow> \<not> bit (l_dst st1 ! l_copymap st1) n"
      and b: "length (l_dst st1) \<le> l_copymap st1 + 2 * j + 1" "l_copymap st1 + 17 < d_len" for st1 j
    proof -
      have src1: "l_src st1 < length s" using src s1 by simp
      have lt: "length s - l_src (lzjb_item s_start s st1) < length s - l_src st" by (rule lzjb_item_measure [OF s1 src])
      have len: "length (l_dst (lzjb_item s_start s st1)) \<le> l_copymap st1 + 2 * j + 3" using item_bits(4) [OF src1 j, of s_start] b(1) by simp
      show ?thesis
        by (rule less.hyps [OF lt less.prems(1) [unfolded r] item_inv [OF src1 j]]) (use len b(2) j(1) in auto)
    qed
    show ?thesis
    proof (cases "k < 7")
      case True
      show ?thesis
        by (rule step [OF loop_same [OF src inv(2) True], of "Suc k"]) (use inv(3,4) less.prems(4) True in auto)
    next
      case False
      then have "k = 7" using inv(1) by simp
      then have m: "l_copymask st = push_bit 7 1" using inv(2) by simp
      show ?thesis
      proof (cases "length (l_dst st) + 17 \<ge> d_len")
        case True
        then show ?thesis using loop_full [OF src m True, of s_start] less.prems(1,3) by auto
      next
        case room: False
        show ?thesis by (rule step [OF loop_group [OF src m room], of 0]) (use room in auto)
      qed
    qed
  qed
qed

lemma lzjb_start: "lzjb_inv s 7 \<lparr>l_src = 0, l_dst = [], l_copymap = 0, l_copymask = push_bit (NBBY - 1) 1, l_lempel = lempel\<rparr>"
  by (simp add: lzjb_inv_def NBBY_def)

lemma lzjb_decompresses:
  assumes "lzjb_compress s_start lempel s d_len = (n, d)" "n \<noteq> length s" "length buf = length s"
  shows "n = length d" "lzjb_decompress (d @ rest) buf = Some (0, s)"
  using loop_decodes [OF assms(1) [unfolded lzjb_compress_def] assms(2) lzjb_start] assms(3)
  by (simp_all add: decodes_def lzjb_decompress_def NBBY_def)

lemma lzjb_bounds:
  assumes "lzjb_compress s_start lempel s d_len = (n, d)"
  shows "length d \<le> d_len" "n = length d \<or> n = length s"
  using loop_bound [OF assms [unfolded lzjb_compress_def] lzjb_start] by auto

section \<open>Properties\<close>

text \<open>C8. Decompressing what LZJB compressed gives back the data, wherever the source buffer lies, whatever the
  uninitialised hash table holds, whatever follows the compressed bytes and whatever the
  destination buffer held before.\<close>
theorem lzjb_roundtrip:
  assumes "lzjb_compress s_start lempel s d_len = (n, d)" "n \<noteq> length s" "length buf = length s"
  shows "n = length d \<and> lzjb_decompress (d @ rest) buf = Some (0, s)"
  using lzjb_decompresses [OF assms] by simp

theorem lzjb_roundtrip_witness:
  "let (n, d) = lzjb_compress 0x7F3200 (\<lambda>_. 0) (replicate 80 7) 60 in
     n = 18 \<and> lzjb_decompress (d @ [1, 2]) (replicate 80 9) = Some (0, replicate 80 7)"
proof -
  obtain n d where c: "lzjb_compress 0x7F3200 (\<lambda>_. 0) (replicate 80 7) 60 = (n, d)" by fastforce
  have "fst (lzjb_compress 0x7F3200 (\<lambda>_. 0) (replicate 80 7) 60) = 18" by code_simp
  with c lzjb_roundtrip [OF c, of "replicate 80 9" "[1, 2]"] show ?thesis by simp
qed

text \<open>The compressor never writes more than the destination holds. It returns the number of bytes it
  wrote, or the size of the source when the data does not fit.\<close>
theorem lzjb_compress_bounds:
  "let (n, d) = lzjb_compress s_start lempel s d_len in length d \<le> d_len \<and> (n = length d \<or> n = length s)"
  using lzjb_bounds [of s_start lempel s d_len] by (cases "lzjb_compress s_start lempel s d_len") simp

end
