(* ===== verification/Compress.thy ===== *)
theory Compress
  imports Lzjb
begin

unbundle bit_operations_syntax

text \<open>
  The copy of LZJB shared with the rest of the system, \<^verbatim>\<open>src/lib/libzfscommon/compress.c\<close>. The
  loop of \<open>compress\<close> is that of \<open>lzjb_compress\<close> with a destination as large as the source;
  \<open>decompress\<close> also stops at the end of the source and treats data that did not shrink as
  copied. Reading beyond the source is \<^const>\<open>None\<close>.
\<close>

definition compress :: "u64 \<Rightarrow> (nat \<Rightarrow> u16) \<Rightarrow> u8 list \<Rightarrow> nat \<times> u8 list" where
  "compress s_start lempel s =
     lzjb_loop s_start s (length s) \<lparr>l_src = 0, l_dst = [], l_copymap = 0, l_copymask = push_bit (NBBY - 1) 1, l_lempel = lempel\<rparr>"

function decompress_loop :: "u8 list \<Rightarrow> nat \<Rightarrow> nat \<Rightarrow> u8 \<Rightarrow> u32 \<Rightarrow> u8 list \<Rightarrow> (nat \<times> u8 list) option" where
  "decompress_loop s src dst copymap copymask buf =
     (if src < length s \<and> dst < length buf then
        let copymask = push_bit 1 copymask; new = (copymask = push_bit NBBY 1) in
        case (if new then fetch s src else Some copymap) of None \<Rightarrow> None
        | Some copymap \<Rightarrow>
          (let copymask = (if new then 1 else copymask); src = (if new then src + 1 else src) in
           if ucast copymap AND copymask \<noteq> 0 then
             case (fetch s src, fetch s (src + 1)) of (Some b0, Some b1) \<Rightarrow>
               (let mlen = unat (drop_bit (NBBY - MATCH_BITS) (ucast b0 :: u32)) + MATCH_MIN;
                    offset = unat ((push_bit NBBY (ucast b0) OR ucast b1) AND OFFSET_MASK) in
                if dst \<ge> offset
                then let (dst, buf) = copy_match mlen dst (dst - offset) buf
                     in decompress_loop s (src + 2) dst copymap copymask buf
                else Some (dst, buf))
             | _ \<Rightarrow> None
           else
             case fetch s src of None \<Rightarrow> None
             | Some b \<Rightarrow> decompress_loop s (src + 1) (dst + 1) copymap copymask (buf[dst := b]))
      else Some (dst, buf))"
  by pat_completeness auto
termination
  by (relation "measure (\<lambda>(s, src, dst, copymap, copymask, buf). length buf - dst)") (auto dest!: copy_matchD simp: MATCH_MIN_def)

declare decompress_loop.simps [simp del]

definition decompress :: "u8 list \<Rightarrow> u8 list \<Rightarrow> (nat \<times> u8 list) option" where
  "decompress s buf =
     (if length s \<ge> length buf then Some (length buf, take (length buf) s)
      else decompress_loop s 0 0 0 (push_bit (NBBY - 1) 1) buf)"

definition checksum32 :: "u8 list \<Rightarrow> u32" where
  "checksum32 cp = foldl (\<lambda>sum b. (drop_bit 1 sum OR push_bit 31 sum) + ucast b) 0 cp"

section \<open>Round trip\<close>

lemma copy_match_le: "dst \<le> length buf \<Longrightarrow> (d, b) = copy_match n dst cpy buf \<Longrightarrow> d \<le> length buf"
  by (induction n dst cpy buf rule: copy_match.induct) (auto split: if_splits)

lemma decompress_loop_eq:
  assumes "lzjb_dloop s src dst cm mk0 buf = Some (0, r)" "dst \<le> length buf"
  shows "decompress_loop s src dst cm mk0 buf = Some (length buf, r)"
  using assms
proof (induction "length buf - dst" arbitrary: src dst cm mk0 buf rule: less_induct)
  case less
  show ?case
  proof (cases "dst < length buf")
    case False
    then show ?thesis using less.prems by (simp add: lzjb_dloop.simps decompress_loop.simps)
  next
    case True
    define mk1 new where "mk1 = push_bit 1 mk0" "new = (mk1 = push_bit NBBY 1)"
    define mk sc where "mk = (if new then 1 else mk1)" "sc = (if new then src + 1 else src)"
    note defs = mk1_new_def mk_sc_def
    obtain m where m: "(if new then fetch s src else Some cm) = Some m"
      using less.prems(1) True unfolding defs by (subst (asm) lzjb_dloop.simps) (auto simp: Let_def split: option.splits if_splits)
    have L: "lzjb_dloop s src dst cm mk0 buf = ditem s sc dst m mk buf"
      using True m by (subst lzjb_dloop.simps, unfold Let_def ditem_def, fold mk1_new_def(1), fold mk1_new_def(2), fold mk_sc_def) simp
    have IH: "decompress_loop s src' dst' m mk buf' = Some (length buf, r)"
      if "lzjb_dloop s src' dst' m mk buf' = Some (0, r)" "dst < dst'" "dst' \<le> length buf" "length buf' = length buf" for src' dst' buf'
      using less.hyps [of buf' dst' src' m mk] that True by simp
    show ?thesis
    proof (cases "ucast m AND mk \<noteq> 0")
      case copy: True
      obtain b0 b1 where b: "fetch s sc = Some b0" "fetch s (sc + 1) = Some b1"
        using less.prems(1) copy unfolding L ditem_def by (auto split: option.splits)
      define mlen off where "mlen = unat (drop_bit (NBBY - MATCH_BITS) (ucast b0 :: u32)) + MATCH_MIN"
        "off = unat ((push_bit NBBY (ucast b0 :: u32) OR ucast b1) AND OFFSET_MASK)"
      obtain dst' buf' where c: "copy_match mlen dst (dst - off) buf = (dst', buf')" by fastforce
      have d: "off \<le> dst" "lzjb_dloop s (sc + 2) dst' m mk buf' = Some (0, r)"
        using less.prems(1) copy b c unfolding L ditem_def mlen_off_def by (auto simp: Let_def split: if_splits)
      have "0 < mlen" by (simp add: mlen_off_def MATCH_MIN_def)
      then have "decompress_loop s (sc + 2) dst' m mk buf' = Some (length buf, r)"
        using IH [OF d(2)] copy_matchD [OF c [symmetric]] copy_match_le [OF _ c [symmetric]] True by simp
      moreover have "src < length s" using b(1) by (auto simp: fetch_def defs split: if_splits)
      ultimately show ?thesis using True m b c d(1) copy
        by (subst decompress_loop.simps, unfold Let_def, fold mk1_new_def(1), fold mk1_new_def(2), fold mk_sc_def) (simp flip: mlen_off_def)
    next
      case literal: False
      obtain b where b: "fetch s sc = Some b" using less.prems(1) literal unfolding L ditem_def by (auto split: option.splits)
      have "lzjb_dloop s (sc + 1) (dst + 1) m mk (buf[dst := b]) = Some (0, r)" using less.prems(1) literal b unfolding L ditem_def by simp
      then have "decompress_loop s (sc + 1) (dst + 1) m mk (buf[dst := b]) = Some (length buf, r)" using IH True by simp
      moreover have "src < length s" using b(1) by (auto simp: fetch_def defs split: if_splits)
      ultimately show ?thesis using True m b literal
        by (subst decompress_loop.simps, unfold Let_def, fold mk1_new_def(1), fold mk1_new_def(2), fold mk_sc_def) simp
    qed
  qed
qed

text \<open>C23. Decompressing what \<open>compress\<close> produced gives back the data, for all data: data that shrinks goes
  through the decoder, data that does not is copied. The output is never longer than the input.\<close>
theorem compress_roundtrip:
  assumes "length buf = length s"
  shows "let (n, d) = compress s_start lempel s in n = length d \<and> n \<le> length s \<and> decompress d buf = Some (length s, s)"
proof -
  obtain n d where c: "compress s_start lempel s = (n, d)" by fastforce
  note B = loop_bound [OF c [unfolded compress_def] lzjb_start]
  show ?thesis
  proof (cases "n = length s")
    case True
    then have "d = s" using B by auto
    then show ?thesis using c True assms by (simp add: decompress_def)
  next
    case False
    have lz: "lzjb_compress s_start lempel s (length s) = (n, d)" using c by (simp add: compress_def lzjb_compress_def)
    have n: "n = length d" "length d \<le> length s" using lzjb_decompresses(1) [OF lz False assms] B by auto
    have "lzjb_decompress d buf = Some (0, s)" using lzjb_decompresses(2) [OF lz False assms, of "[]"] by simp
    then have "decompress_loop d 0 0 0 (push_bit (NBBY - 1) 1) buf = Some (length buf, s)"
      unfolding lzjb_decompress_def by (rule decompress_loop_eq) simp
    then show ?thesis using c n False assms by (simp add: decompress_def)
  qed
qed

theorem compress_roundtrip_witness:
  "let (n, d) = compress 0x1000 (\<lambda>_. 0xABC) [1, 2, 3] in n = length d \<and> decompress d [0, 0, 0] = Some (3, [1, 2, 3])"
  using compress_roundtrip [of "[0, 0, 0]" "[1, 2, 3]" "0x1000" "\<lambda>_. 0xABC"] by (auto simp: Let_def)



end
