(* ===== verification/Zio_Compress.thy ===== *)
theory Zio_Compress
  imports Lzjb Blkptr
begin

unbundle bit_operations_syntax

text \<open>
  Compression of blocks, \<^verbatim>\<open>src/lib/libzpool/zio_compress.c\<close> and \<^verbatim>\<open>src/lib/libzpool/gzip.c\<close>. The table of
  compression functions is an argument of the two routines that call through it. What a
  compressor has to do for them is the locale \<open>compressor\<close>; LZJB is one. The zlib calls behind
  gzip, the address of the source buffer, the uninitialised hash table of LZJB and the contents
  of a fresh buffer are arguments. Calling through a null pointer is \<^const>\<open>None\<close>.
\<close>

section \<open>The compression table\<close>

datatype zio_compress = ZIO_COMPRESS_INHERIT | ZIO_COMPRESS_ON | ZIO_COMPRESS_OFF | ZIO_COMPRESS_LZJB | ZIO_COMPRESS_EMPTY
  | ZIO_COMPRESS_GZIP_1 | ZIO_COMPRESS_GZIP_2 | ZIO_COMPRESS_GZIP_3 | ZIO_COMPRESS_GZIP_4 | ZIO_COMPRESS_GZIP_5
  | ZIO_COMPRESS_GZIP_6 | ZIO_COMPRESS_GZIP_7 | ZIO_COMPRESS_GZIP_8 | ZIO_COMPRESS_GZIP_9

definition ZIO_COMPRESS_ON_VALUE :: zio_compress where "ZIO_COMPRESS_ON_VALUE = ZIO_COMPRESS_LZJB"

record zio_compress_info =
  ci_compress :: "(u8 list \<Rightarrow> nat \<Rightarrow> nat \<Rightarrow> nat \<times> u8 list) option"
  ci_decompress :: "(u8 list \<Rightarrow> u8 list \<Rightarrow> nat \<Rightarrow> (int \<times> u8 list) option) option"
  ci_level :: nat
  ci_name :: string

definition gzip_compress :: "(u8 list \<Rightarrow> nat \<Rightarrow> nat \<Rightarrow> bool \<times> u8 list) \<Rightarrow> u8 list \<Rightarrow> nat \<Rightarrow> nat \<Rightarrow> nat \<times> u8 list" where
  \<comment> \<open>\<open>z_compress_level\<close> says whether it returned \<^verbatim>\<open>Z_OK\<close> and what it wrote\<close>
  "gzip_compress z_compress_level s d_len n =
     (case z_compress_level s d_len n of
        (False, d) \<Rightarrow> (length s, if d_len \<noteq> length s then d else s)
      | (True, d) \<Rightarrow> (length d, d))"

definition gzip_decompress :: "(u8 list \<Rightarrow> nat \<Rightarrow> bool \<times> u8 list) \<Rightarrow> u8 list \<Rightarrow> u8 list \<Rightarrow> nat \<Rightarrow> (int \<times> u8 list) option" where
  "gzip_decompress z_uncompress s buf n =
     (case z_uncompress s (length buf) of (ok, d) \<Rightarrow> Some (if ok then 0 else -1, d @ drop (length d) buf))"

definition zio_compress_table :: "(u8 list \<Rightarrow> nat \<Rightarrow> nat \<times> u8 list) \<Rightarrow> (u8 list \<Rightarrow> nat \<Rightarrow> nat \<Rightarrow> nat \<times> u8 list) \<Rightarrow>
    (u8 list \<Rightarrow> u8 list \<Rightarrow> nat \<Rightarrow> (int \<times> u8 list) option) \<Rightarrow> zio_compress \<Rightarrow> zio_compress_info" where
  "zio_compress_table lzjb gzip gunzip cpfunc =
     (let none = (\<lambda>name. \<lparr>ci_compress = None, ci_decompress = None, ci_level = 0, ci_name = name\<rparr>);
          gz = (\<lambda>level name. \<lparr>ci_compress = Some gzip, ci_decompress = Some gunzip, ci_level = level, ci_name = name\<rparr>)
      in case cpfunc of
        ZIO_COMPRESS_INHERIT \<Rightarrow> none ''inherit'' | ZIO_COMPRESS_ON \<Rightarrow> none ''on'' | ZIO_COMPRESS_OFF \<Rightarrow> none ''uncompressed''
      | ZIO_COMPRESS_LZJB \<Rightarrow> \<lparr>ci_compress = Some (\<lambda>s d_len n. lzjb s d_len), ci_decompress = Some (\<lambda>s buf n. lzjb_decompress s buf), ci_level = 0, ci_name = ''lzjb''\<rparr>
      | ZIO_COMPRESS_EMPTY \<Rightarrow> none ''empty''
      | ZIO_COMPRESS_GZIP_1 \<Rightarrow> gz 1 ''gzip-1'' | ZIO_COMPRESS_GZIP_2 \<Rightarrow> gz 2 ''gzip-2'' | ZIO_COMPRESS_GZIP_3 \<Rightarrow> gz 3 ''gzip-3''
      | ZIO_COMPRESS_GZIP_4 \<Rightarrow> gz 4 ''gzip-4'' | ZIO_COMPRESS_GZIP_5 \<Rightarrow> gz 5 ''gzip-5'' | ZIO_COMPRESS_GZIP_6 \<Rightarrow> gz 6 ''gzip-6''
      | ZIO_COMPRESS_GZIP_7 \<Rightarrow> gz 7 ''gzip-7'' | ZIO_COMPRESS_GZIP_8 \<Rightarrow> gz 8 ''gzip-8'' | ZIO_COMPRESS_GZIP_9 \<Rightarrow> gz 9 ''gzip-9'')"

definition zio_compress_select :: "zio_compress \<Rightarrow> zio_compress \<Rightarrow> zio_compress" where
  "zio_compress_select child parent =
     (if child = ZIO_COMPRESS_INHERIT then parent
      else if child = ZIO_COMPRESS_ON then ZIO_COMPRESS_ON_VALUE
      else child)"

section \<open>Compressing and decompressing a block\<close>

definition zio_compress_data :: "(zio_compress \<Rightarrow> zio_compress_info) \<Rightarrow> (nat \<Rightarrow> u8 list) \<Rightarrow> zio_compress \<Rightarrow> u8 list \<Rightarrow>
    (u8 list \<times> u64 \<times> u64) option option" where
  \<comment> \<open>the buffer, its used size and its size; inside, \<^const>\<open>None\<close> is the return value 0\<close>
  "zio_compress_data table zio_buf_alloc cpfunc src =
     (if list_all (\<lambda>b. b = 0) src then Some (Some ([], 0, 0))
      else if cpfunc = ZIO_COMPRESS_EMPTY then Some None
      else
        let srcsize = of_nat (length src); destbufsize = P2ALIGN (srcsize - drop_bit 3 srcsize) SPA_MINBLOCKSIZE in
        if destbufsize = 0 then Some None
        else
          case ci_compress (table cpfunc) of None \<Rightarrow> None
          | Some compress \<Rightarrow>
            (let (size, written) = compress src (unat destbufsize) (ci_level (table cpfunc));
                 dest = written @ drop (length written) (zio_buf_alloc (unat destbufsize));
                 ciosize = of_nat size in
             if ciosize > destbufsize then Some None
             else
               let gapsize = P2ROUNDUP ciosize SPA_MINBLOCKSIZE - ciosize;
                   dest = (if gapsize \<noteq> 0 then take (unat ciosize) dest @ replicate (unat gapsize) 0 @ drop (unat ciosize + unat gapsize) dest else dest)
               in Some (Some (dest, ciosize + gapsize, destbufsize))))"

definition zio_decompress_data :: "(zio_compress \<Rightarrow> zio_compress_info) \<Rightarrow> zio_compress \<Rightarrow> u8 list \<Rightarrow> u8 list \<Rightarrow> (int \<times> u8 list) option" where
  "zio_decompress_data table cpfunc src buf =
     (case ci_decompress (table cpfunc) of None \<Rightarrow> None
      | Some decompress \<Rightarrow> decompress src buf (ci_level (table cpfunc)))"

section \<open>What a compressor has to do\<close>

locale compressor =
  fixes comp :: "u8 list \<Rightarrow> nat \<Rightarrow> nat \<Rightarrow> nat \<times> u8 list"
    and decomp :: "u8 list \<Rightarrow> u8 list \<Rightarrow> nat \<Rightarrow> (int \<times> u8 list) option"
  assumes bounded: "comp s d_len level = (n, d) \<Longrightarrow> n \<le> max d_len (length s)"
    and fits: "comp s d_len level = (n, d) \<Longrightarrow> n \<le> d_len \<Longrightarrow> d_len < length s \<Longrightarrow> n = length d"
    and inverse: "comp s d_len level = (n, d) \<Longrightarrow> n \<le> d_len \<Longrightarrow> d_len < length s \<Longrightarrow> length buf = length s \<Longrightarrow> decomp (d @ rest) buf level = Some (0, s)"
begin

lemma block_roundtrip:
  fixes table :: "zio_compress \<Rightarrow> zio_compress_info"
  assumes t: "ci_compress (table cp) = Some comp" "ci_decompress (table cp) = Some decomp"
    and src: "length src < 2 ^ 63" "\<not> list_all (\<lambda>b. b = 0) src" and buf: "length buf = length src"
    and alloc: "\<And>n. length (zio_buf_alloc n) = n"
    and res: "zio_compress_data table zio_buf_alloc cp src = Some (Some (dest, destsize, destbufsize))"
  shows "length dest = unat destbufsize" "destsize \<le> destbufsize" "512 dvd unat destsize" "8 * unat destbufsize \<le> 7 * length src + 7"
    "zio_decompress_data table cp (take (unat destsize) dest) buf = Some (0, src)"
proof -
  define dbs where "dbs = unat destbufsize"
  define level where "level = ci_level (table cp)"
  let ?S = "length src" and ?x = "of_nat (length src) - drop_bit 3 (of_nat (length src)) :: u64"
  have S: "unat (of_nat ?S :: u64) = ?S" using src(1) by (simp add: unat_of_nat)
  have x: "unat ?x = ?S - ?S div 8"
  proof -
    have "drop_bit 3 (of_nat ?S :: u64) \<le> of_nat ?S" by (simp add: word_le_nat_alt unat_drop_bit)
    then show ?thesis by (simp add: unat_sub unat_drop_bit S)
  qed
  obtain n d where c: "comp src (unat (P2ALIGN ?x SPA_MINBLOCKSIZE)) level = (n, d)" by fastforce
  have ne: "cp \<noteq> ZIO_COMPRESS_EMPTY" "P2ALIGN ?x SPA_MINBLOCKSIZE \<noteq> 0" "\<not> of_nat n > P2ALIGN ?x SPA_MINBLOCKSIZE"
    and db: "destbufsize = P2ALIGN ?x SPA_MINBLOCKSIZE" and ds: "destsize = P2ROUNDUP (of_nat n) SPA_MINBLOCKSIZE"
    and de: "dest = (let gap = P2ROUNDUP (of_nat n) SPA_MINBLOCKSIZE - of_nat n; dest = d @ drop (length d) (zio_buf_alloc (unat destbufsize)) in
      if gap \<noteq> 0 then take (unat (of_nat n :: u64)) dest @ replicate (unat gap) 0 @ drop (unat (of_nat n :: u64) + unat gap) dest else dest)"
    using res src(2) t(1) c by (auto simp: zio_compress_data_def Let_def level_def split: if_splits)
  have al: "dbs = (?S - ?S div 8) div 512 * 512" using P2ALIGN_unat [of ?x 9] x by (simp add: dbs_def db SPA_MINBLOCKSIZE_def SPA_MINBLOCKSHIFT_def)
  have "0 < dbs" using ne(2) by (simp add: dbs_def db unat_gt_0 word_neq_0_conv)
  have le: "dbs \<le> ?S - ?S div 8" unfolding al by (rule div_times_less_eq_dividend)
  have lt: "dbs < ?S"
  proof (rule ccontr)
    assume "\<not> dbs < ?S"
    then have "?S div 8 = 0" using le \<open>0 < dbs\<close> by linarith
    then have "?S - ?S div 8 < 512" by simp
    then show False using al \<open>0 < dbs\<close> by simp
  qed
  show "8 * unat destbufsize \<le> 7 * length src + 7" using le unfolding dbs_def [symmetric] by linarith
  note c' = c [folded db, folded dbs_def]
  have n: "unat (of_nat n :: u64) = n" using bounded [OF c'] lt src(1) by (simp add: unat_of_nat)
  have nd: "n \<le> dbs" using ne(3) n by (simp add: word_le_nat_alt dbs_def db not_less)
  have len: "length d = n" using fits [OF c' nd lt] by simp
  note R = P2ROUNDUP_unat [of "of_nat n" 9, unfolded n]
  have room: "n + 2 ^ 9 \<le> 2 ^ 64" using nd lt src(1) by simp
  define r where "r = unat destsize"
  have r: "512 dvd r" "n \<le> r" "r \<le> dbs"
    using R(1,2) [OF room] R(4) [OF room, of dbs] nd al by (simp_all add: r_def ds SPA_MINBLOCKSIZE_def SPA_MINBLOCKSHIFT_def)
  have gap: "unat (P2ROUNDUP (of_nat n) SPA_MINBLOCKSIZE - of_nat n) = r - n"
    using r(2) n by (simp add: unat_sub word_le_nat_alt r_def ds)
  define dest0 where "dest0 = d @ drop n (zio_buf_alloc dbs)"
  have l0: "length dest0 = dbs" "take n dest0 = d" using len nd alloc by (simp_all add: dest0_def)
  have gz: "P2ROUNDUP (of_nat n) SPA_MINBLOCKSIZE - of_nat n = 0 \<longleftrightarrow> r = n"
    unfolding word_unat_eq_iff gap unat_0 using r(2) by linarith
  have de': "dest = (if r \<noteq> n then d @ replicate (r - n) 0 @ drop r dest0 else dest0)"
    unfolding de Let_def gz gap n len dbs_def [symmetric] dest0_def [symmetric] using l0(2) r(2) by simp
  show "length dest = unat destbufsize" unfolding de' using l0(1) len r by (simp add: dbs_def)
  show "destsize \<le> destbufsize" using r(3) by (simp add: word_le_nat_alt r_def dbs_def)
  show "512 dvd unat destsize" using r(1) by (simp add: r_def)
  have "take r dest = d @ replicate (r - n) 0" unfolding de' using l0(2) len r(2) by simp
  then show "zio_decompress_data table cp (take (unat destsize) dest) buf = Some (0, src)"
    using inverse [OF c' nd lt buf] t(2) by (simp add: zio_decompress_data_def level_def r_def)
qed

end

interpretation lz: compressor "\<lambda>s d_len n. lzjb_compress s_start lempel s d_len" "\<lambda>s buf n. lzjb_decompress s buf" for s_start lempel
proof
  fix s d_len n d assume c: "lzjb_compress s_start lempel s d_len = (n, d)"
  show "n \<le> max d_len (length s)" using lzjb_bounds [OF c] by auto
  { assume nd: "n \<le> d_len" "d_len < length s"
    show "n = length d" using lzjb_bounds [OF c] nd by auto
    show "lzjb_decompress (d @ rest) buf = Some (0, s)" if "length buf = length s" for rest buf
      using lzjb_decompresses(2) [OF c _ that] nd by simp }
qed

text \<open>Gzip is one if zlib compresses within the size it is given and undoes what it compressed, ignoring what follows.\<close>

lemma gzip_compressor:
  assumes "\<And>s d_len n d. z_compress_level s d_len n = (True, d) \<Longrightarrow> length d \<le> d_len"
    and "\<And>s d_len n d rest. z_compress_level s d_len n = (True, d) \<Longrightarrow> z_uncompress (d @ rest) (length s) = (True, s)"
  shows "compressor (gzip_compress z_compress_level) (gzip_decompress z_uncompress)"
proof
  fix s d_len level n d assume c: "gzip_compress z_compress_level s d_len level = (n, d)"
  show "n \<le> max d_len (length s)" using c assms(1) [of s d_len level d] by (auto simp: gzip_compress_def split: prod.splits bool.splits)
  { assume nd: "n \<le> d_len" "d_len < length s"
    then have z: "z_compress_level s d_len level = (True, d)" "n = length d" using c by (auto simp: gzip_compress_def split: prod.splits bool.splits)
    show "n = length d" by (rule z(2))
    show "gzip_decompress z_uncompress (d @ rest) buf level = Some (0, s)" if "length buf = length s" for rest buf
      using assms(2) [OF z(1), of rest] that by (simp add: gzip_decompress_def) }
qed


lemma match_len_replicate:
  assumes "src + MATCH_MAX \<le> n" "cpy \<le> src" "mlen \<le> MATCH_MAX"
  shows "match_len (replicate n b) src cpy mlen = MATCH_MAX"
  using assms
proof (induction "MATCH_MAX - mlen" arbitrary: mlen)
  case 0
  then show ?case by (subst match_len.simps) simp
next
  case (Suc k)
  then show ?case by (subst match_len.simps) simp
qed

lemma demo_fits: "fst (lzjb_compress 0x1000 (\<lambda>_. 0) (replicate 585 7) 512) = 82"
  by (simp add: lzjb_compress_def lzjb_loop.simps lzjb_item_def lzjb_literal_def lzjb_copy_def lzjb_hash_def lzjb_offset_def hash_def
    match_len_replicate lzjb_consts Let_def)


end
