(* ===== verification/Vdev_Mirror.thy ===== *)
theory Vdev_Mirror
  imports Vdev Blkptr
begin

unbundle bit_operations_syntax

text \<open>
  Mirrors, replacing vdevs and spares, \<^verbatim>\<open>src/lib/libzpool/vdev_mirror.c\<close>. An I/O without a vdev is
  spread over the DVAs of its block pointer. Child I/Os are asynchronous: \<open>vdev_mirror_io_start\<close> and
  \<open>vdev_mirror_io_done\<close> return the ones they issue, and the \<open>done\<close> routines record the outcome of
  each in the map. A child I/O names the mirror child by its position. \<^verbatim>\<open>spa_get_random\<close> and
  \<^verbatim>\<open>vdev_lookup_top\<close> are arguments.
\<close>

section \<open>The map of an I/O\<close>

record mirror_child =
  mc_vd :: vdev_info
  mc_offset :: u64
  mc_error :: int
  mc_tried :: bool
  mc_skipped :: bool

record mirror_map =
  mm_children :: nat
  mm_replacing :: bool
  mm_preferred :: nat
  mm_root :: bool
  mm_child :: "mirror_child list"

datatype vdev_ops = vdev_mirror_ops | vdev_replacing_ops | vdev_spare_ops

definition vdev_mirror_shift :: nat where "vdev_mirror_shift = 21"

definition new_child :: "vdev_info \<Rightarrow> u64 \<Rightarrow> mirror_child" where
  "new_child vd offset = \<lparr>mc_vd = vd, mc_offset = offset, mc_error = 0, mc_tried = False, mc_skipped = False\<rparr>"

definition bp_dvas :: "blkptr \<Rightarrow> dva list" where
  "bp_dvas bp = take (BP_GET_NDVAS bp) [blk_dva0 bp, blk_dva1 bp, blk_dva2 bp]"

definition lowest_same_vdev :: "dva list \<Rightarrow> nat \<Rightarrow> nat" where
  \<comment> \<open>for (c = mm_preferred, d = c - 1; d >= 0; d--) ...\<close>
  "lowest_same_vdev dva c = fold (\<lambda>d preferred. if DVA_GET_VDEV (dva ! d) = DVA_GET_VDEV (dva ! c) then d else preferred) (rev [0..<c]) c"

definition vdev_mirror_map_alloc :: "(nat \<Rightarrow> nat) \<Rightarrow> (u64 \<Rightarrow> vdev_info) \<Rightarrow> blkptr \<Rightarrow> (vdev_ops \<times> vdev_info list) option \<Rightarrow> u64 \<Rightarrow> mirror_map" where
  "vdev_mirror_map_alloc spa_get_random vdev_lookup_top bp vd offset =
     (case vd of
        None \<Rightarrow>
          let dva = bp_dvas bp; c = length dva in
          \<lparr>mm_children = c, mm_replacing = False, mm_preferred = lowest_same_vdev dva (spa_get_random c), mm_root = True,
           mm_child = map (\<lambda>d. new_child (vdev_lookup_top (DVA_GET_VDEV d)) (DVA_GET_OFFSET d)) dva\<rparr>
      | Some (ops, children) \<Rightarrow>
          let c = length children; replacing = (ops = vdev_replacing_ops \<or> ops = vdev_spare_ops) in
          \<lparr>mm_children = c, mm_replacing = replacing,
           mm_preferred = (if replacing then 0 else unat (drop_bit vdev_mirror_shift offset) mod c), mm_root = False,
           mm_child = map (\<lambda>cvd. new_child cvd offset) children\<rparr>)"

section \<open>Completion of a child I/O\<close>

definition set_child :: "nat \<Rightarrow> (mirror_child \<Rightarrow> mirror_child) \<Rightarrow> mirror_map \<Rightarrow> mirror_map" where
  "set_child c f mm = mm\<lparr>mm_child := (mm_child mm)[c := f (mm_child mm ! c)]\<rparr>"

definition vdev_mirror_child_done :: "nat \<Rightarrow> int \<Rightarrow> mirror_map \<Rightarrow> mirror_map" where
  "vdev_mirror_child_done c error mm = set_child c (\<lambda>mc. mc\<lparr>mc_error := error, mc_tried := True, mc_skipped := False\<rparr>) mm"

definition vdev_mirror_scrub_done :: "nat \<Rightarrow> int \<Rightarrow> u64 list \<Rightarrow> vdev_zio \<times> mirror_map \<Rightarrow> vdev_zio \<times> mirror_map" where
  "vdev_mirror_scrub_done c error data = (\<lambda>(pio, mm).
     (if error = 0 then pio\<lparr>io_data := take (length (io_data pio)) data\<rparr> else pio,
      set_child c (\<lambda>mc. mc\<lparr>mc_error := error, mc_tried := True, mc_skipped := False\<rparr>) mm))"

section \<open>Choosing a child to read\<close>

fun select_fresh :: "u64 \<Rightarrow> nat \<Rightarrow> nat \<Rightarrow> mirror_map \<Rightarrow> (nat option \<times> mirror_map) option" where
  \<comment> \<open>the first loop, over the children from the preferred one on\<close>
  "select_fresh txg 0 c mm = Some (None, mm)"
| "select_fresh txg (Suc i) c mm =
     (let c = (if c \<ge> mm_children mm then 0 else c); mc = mm_child mm ! c in
      if mc_tried mc \<or> mc_skipped mc then select_fresh txg i (c + 1) mm
      else if vdev_is_dead (mc_vd mc) \<and> \<not> vdev_readable (mc_vd mc) then
        select_fresh txg i (c + 1) (set_child c (\<lambda>mc. mc\<lparr>mc_error := ENXIO, mc_tried := True, mc_skipped := True\<rparr>) mm)
      else do {
        stale \<leftarrow> vdev_dtl_contains (vdev_dtl_map (mc_vd mc)) txg 1;
        if \<not> stale then Some (Some c, mm)
        else select_fresh txg i (c + 1) (set_child c (\<lambda>mc. mc\<lparr>mc_error := ESTALE, mc_skipped := True\<rparr>) mm) })"

definition vdev_mirror_child_select :: "u64 \<Rightarrow> mirror_map \<Rightarrow> (nat option \<times> mirror_map) option" where
  \<comment> \<open>\<^const>\<open>None\<close> inside is the result -1\<close>
  "vdev_mirror_child_select txg mm = do {
     (c, mm) \<leftarrow> select_fresh txg (mm_children mm) (mm_preferred mm) mm;
     Some (case c of Some c \<Rightarrow> Some c | None \<Rightarrow> find (\<lambda>c. \<not> mc_tried (mm_child mm ! c)) [0..<mm_children mm], mm) }"

section \<open>Starting an I/O\<close>

definition mc_io :: "vdev_zio \<Rightarrow> mirror_map \<Rightarrow> zio_type \<Rightarrow> u32 \<Rightarrow> nat option \<Rightarrow> nat \<Rightarrow> child_io" where
  "mc_io zio mm type flags col c =
     \<lparr>ci_vdev = c, ci_offset = mc_offset (mm_child mm ! c), ci_data = io_data zio, ci_size = io_size zio,
      ci_type = type, ci_flags = flags, ci_col = col\<rparr>"

definition vdev_mirror_io_start :: "vdev_zio \<Rightarrow> mirror_map \<Rightarrow> (bool \<times> child_io list \<times> mirror_map) option" where
  \<comment> \<open>the first result says whether the children have buffers of their own, for a scrub\<close>
  "vdev_mirror_io_start zio mm =
     (let issue = (\<lambda>mm cs. map (\<lambda>c. mc_io zio mm (io_type zio) ZIO_FLAG_CANFAIL (Some c) c) cs); all = [0..<mm_children mm] in
      if io_type zio = ZIO_TYPE_READ then
        if has_flag (io_flags zio) ZIO_FLAG_SCRUB \<and> \<not> mm_replacing mm then Some (True, issue mm all, mm)
        else do {
          (c, mm) \<leftarrow> vdev_mirror_child_select (io_txg zio) mm;
          Some (False, issue mm (case c of Some c \<Rightarrow> [c] | None \<Rightarrow> []), mm) }
      else do {
        last \<leftarrow> (if has_flag (io_flags zio) ZIO_FLAG_RESILVER \<and> mm_replacing mm then do {
                  d \<leftarrow> vdev_dtl_contains (vdev_dtl_map (mc_vd (mm_child mm ! 0))) (io_txg zio) 1; Some (\<not> d) }
                else Some False);
        Some (False, issue mm (if last then [mm_children mm - 1] else all), mm) })"

section \<open>Finishing an I/O\<close>

record mirror_errs =
  me_error :: int
  me_numerrors :: nat
  me_good :: nat
  me_unexpected :: nat

definition count_child :: "mirror_child \<Rightarrow> mirror_errs \<Rightarrow> mirror_errs" where
  "count_child mc e =
     (if mc_tried mc \<and> mc_error mc = 0 then e\<lparr>me_good := me_good e + 1\<rparr>
      else if mc_error mc \<noteq> 0 then
        e\<lparr>me_error := (if me_error e \<noteq> EIO then
             (if mc_error mc \<noteq> ENXIO then mc_error mc else if me_error e = 0 then ENXIO else me_error e) else me_error e),
          me_unexpected := (if \<not> mc_skipped mc then me_unexpected e + 1 else me_unexpected e),
          me_numerrors := me_numerrors e + 1\<rparr>
      else e)"

definition count_children :: "mirror_map \<Rightarrow> mirror_errs" where
  "count_children mm = fold count_child (mm_child mm) \<lparr>me_error = 0, me_numerrors = 0, me_good = 0, me_unexpected = 0\<rparr>"

definition repair_child :: "vdev_zio \<Rightarrow> mirror_map \<times> child_io list \<Rightarrow> nat \<Rightarrow> (mirror_map \<times> child_io list) option" where
  "repair_child zio = (\<lambda>(mm, ios) c.
     let mc = mm_child mm ! c;
         rewrite = (\<lambda>mm. (mm, ios @ [mc_io zio mm ZIO_TYPE_WRITE (ZIO_FLAG_IO_REPAIR OR ZIO_FLAG_CANFAIL OR ZIO_FLAG_DONT_PROPAGATE) None c])) in
     if mc_error mc = 0 then
       if mc_tried mc then Some (mm, ios)
       else do {
         skip \<leftarrow> (if has_flag (io_flags zio) ZIO_FLAG_SCRUB then Some False
                 else do { d \<leftarrow> vdev_dtl_contains (vdev_dtl_map (mc_vd mc)) (io_txg zio) 1; Some (\<not> d) });
         if skip then Some (mm, ios)
         else Some (rewrite (set_child c (\<lambda>mc. mc\<lparr>mc_error := ESTALE\<rparr>) mm)) }
     else Some (rewrite mm))"

definition vdev_mirror_io_done :: "bool \<Rightarrow> vdev_zio \<Rightarrow> mirror_map \<Rightarrow> (vdev_next \<times> vdev_zio \<times> mirror_map) option" where
  "vdev_mirror_io_done writable zio mm =
     (let e = count_children mm; zio = zio\<lparr>io_error := me_error e, io_numerrors := me_numerrors e\<rparr> in
      if io_type zio = ZIO_TYPE_WRITE then
        Some (Finished [], if me_good e \<noteq> 0 then zio\<lparr>io_error := 0\<rparr> else zio, mm)
      else do {
        (c, mm) \<leftarrow> (if me_good e = 0 then vdev_mirror_child_select (io_txg zio) mm else Some (None, mm));
        (case c of
           Some c \<Rightarrow> Some (Redo [mc_io zio mm ZIO_TYPE_READ ZIO_FLAG_CANFAIL (Some c) c], zio\<lparr>io_error := 0\<rparr>, mm)
         | None \<Rightarrow>
             let zio = (if me_good e \<noteq> 0 then zio\<lparr>io_error := 0\<rparr> else zio) in
             if me_good e \<noteq> 0 \<and> writable \<and> (me_unexpected e \<noteq> 0 \<or> has_flag (io_flags zio) ZIO_FLAG_RESILVER \<or>
                 (has_flag (io_flags zio) ZIO_FLAG_SCRUB \<and> mm_replacing mm)) then do {
               (mm, ios) \<leftarrow> foldM (repair_child zio) (mm, []) [0..<mm_children mm];
               Some (Finished ios, zio, mm) }
             else Some (Finished [], zio, mm)) })"

section \<open>Opening and health\<close>

definition vdev_mirror_open :: "(nat \<Rightarrow> int) \<Rightarrow> (nat \<Rightarrow> u64) \<Rightarrow> (nat \<Rightarrow> u64) \<Rightarrow> nat \<Rightarrow> u64 \<Rightarrow> u64 \<Rightarrow> int \<times> vdev_aux option \<times> u64 \<times> u64" where
  \<comment> \<open>\<^verbatim>\<open>vdev_open()\<close> of a child and the size and shift it then has are arguments\<close>
  "vdev_mirror_open vdev_open vdev_asize vdev_ashift children asize ashift =
     (if children = 0 then (EINVAL, Some VDEV_AUX_BAD_LABEL, asize, ashift)
      else
        let (lasterror, numerrors, asize, ashift) =
          fold (\<lambda>c (lasterror, numerrors, asize, ashift).
            if vdev_open c \<noteq> 0 then (vdev_open c, numerrors + 1, asize, ashift)
            else (lasterror, numerrors, min (asize - 1) (vdev_asize c - 1) + 1, max ashift (vdev_ashift c)))
          [0..<children] (0, 0 :: nat, asize, ashift)
        in if numerrors = children then (lasterror, Some VDEV_AUX_NO_REPLICAS, asize, ashift) else (0, None, asize, ashift))"

definition vdev_mirror_state_change :: "nat \<Rightarrow> int \<Rightarrow> int \<Rightarrow> vdev_state \<times> vdev_aux" where
  \<comment> \<open>the state and the reason handed to \<^verbatim>\<open>vdev_set_state()\<close>\<close>
  "vdev_mirror_state_change children faulted degraded =
     (if faulted = int children then (VDEV_STATE_CANT_OPEN, VDEV_AUX_NO_REPLICAS)
      else if degraded + faulted \<noteq> 0 then (VDEV_STATE_DEGRADED, VDEV_AUX_NONE)
      else (VDEV_STATE_HEALTHY, VDEV_AUX_NONE))"

section \<open>The state of a read\<close>

definition mm_ok :: "vdev_info list \<Rightarrow> (nat \<Rightarrow> int) \<Rightarrow> mirror_map \<Rightarrow> bool" where
  \<comment> \<open>every child is untouched, skipped as dead or stale, or was read with its outcome\<close>
  "mm_ok kids err mm \<longleftrightarrow> mm_children mm = length kids \<and> length (mm_child mm) = length kids \<and> mm_preferred mm < length kids \<and>
     (\<forall>c < length kids. let mc = mm_child mm ! c in mc_vd mc = kids ! c \<and>
       (if mc_tried mc then (if mc_skipped mc then mc_error mc = ENXIO \<and> vdev_is_dead (kids ! c) else mc_error mc = err c \<and> \<not> vdev_is_dead (kids ! c))
        else if mc_skipped mc then mc_error mc = ESTALE \<and> \<not> vdev_is_dead (kids ! c) else mc_error mc = 0))"

lemma mm_okD:
  assumes "mm_ok kids err mm"
  shows "mm_children mm = length kids" "length (mm_child mm) = length kids" "mm_preferred mm < length kids"
    "c < length kids \<Longrightarrow> mc_vd (mm_child mm ! c) = kids ! c"
    "c < length kids \<Longrightarrow> mc_tried (mm_child mm ! c) \<Longrightarrow> mc_skipped (mm_child mm ! c) \<Longrightarrow> mc_error (mm_child mm ! c) = ENXIO \<and> vdev_is_dead (kids ! c)"
    "c < length kids \<Longrightarrow> mc_tried (mm_child mm ! c) \<Longrightarrow> \<not> mc_skipped (mm_child mm ! c) \<Longrightarrow> mc_error (mm_child mm ! c) = err c \<and> \<not> vdev_is_dead (kids ! c)"
    "c < length kids \<Longrightarrow> \<not> mc_tried (mm_child mm ! c) \<Longrightarrow> mc_skipped (mm_child mm ! c) \<Longrightarrow> mc_error (mm_child mm ! c) = ESTALE \<and> \<not> vdev_is_dead (kids ! c)"
    "c < length kids \<Longrightarrow> \<not> mc_tried (mm_child mm ! c) \<Longrightarrow> \<not> mc_skipped (mm_child mm ! c) \<Longrightarrow> mc_error (mm_child mm ! c) = 0"
  using assms unfolding mm_ok_def Let_def by auto

lemma set_child_sel [simp]:
  "mm_children (set_child c f mm) = mm_children mm" "mm_preferred (set_child c f mm) = mm_preferred mm"
  "mm_replacing (set_child c f mm) = mm_replacing mm" "length (mm_child (set_child c f mm)) = length (mm_child mm)"
  by (simp_all add: set_child_def)

lemma set_child_nth: "c < length (mm_child mm) \<Longrightarrow> mm_child (set_child c f mm) ! k = (if k = c then f (mm_child mm ! c) else mm_child mm ! k)"
  by (simp add: set_child_def)

lemma mm_ok_set:
  assumes ok: "mm_ok kids err mm" and c: "c < length kids" and vd: "\<And>mc. mc_vd (f mc) = mc_vd mc"
    and st: "let mc = f (mm_child mm ! c) in
       (if mc_tried mc then (if mc_skipped mc then mc_error mc = ENXIO \<and> vdev_is_dead (kids ! c) else mc_error mc = err c \<and> \<not> vdev_is_dead (kids ! c))
        else if mc_skipped mc then mc_error mc = ESTALE \<and> \<not> vdev_is_dead (kids ! c) else mc_error mc = 0)"
  shows "mm_ok kids err (set_child c f mm)"
  using assms unfolding mm_ok_def Let_def by (auto simp: set_child_nth)

definition good :: "mirror_child \<Rightarrow> bool" where
  "good mc \<longleftrightarrow> mc_tried mc \<and> mc_error mc = 0"

definition untried :: "mirror_map \<Rightarrow> nat" where
  "untried mm = length (filter (\<lambda>mc. \<not> mc_tried mc) (mm_child mm))"

section \<open>Choosing a child\<close>

text \<open>A step of the first loop keeps what was read and tries no more children.\<close>

definition selects :: "vdev_info list \<Rightarrow> (nat \<Rightarrow> int) \<Rightarrow> mirror_map \<Rightarrow> mirror_map \<Rightarrow> bool" where
  "selects kids err mm mm' \<longleftrightarrow> mm_ok kids err mm' \<and> untried mm' \<le> untried mm \<and> mm_replacing mm' = mm_replacing mm \<and>
     (\<forall>c < length kids. good (mm_child mm' ! c) = good (mm_child mm ! c) \<and>
       (mc_tried (mm_child mm ! c) \<or> mc_skipped (mm_child mm ! c) \<longrightarrow> mm_child mm' ! c = mm_child mm ! c))"

lemma selects_trans: "selects kids err a b \<Longrightarrow> selects kids err b c \<Longrightarrow> selects kids err a c"
  unfolding selects_def by (metis order_trans)

lemma untried_set:
  assumes "c < length (mm_child mm)" "\<not> mc_tried (mm_child mm ! c)"
  shows "untried (set_child c f mm) \<le> untried mm" "mc_tried (f (mm_child mm ! c)) \<Longrightarrow> untried (set_child c f mm) < untried mm"
proof -
  have u: "untried mm = length (filter (\<lambda>mc. \<not> mc_tried mc) (take c (mm_child mm))) + 1 + length (filter (\<lambda>mc. \<not> mc_tried mc) (drop (Suc c) (mm_child mm)))"
    unfolding untried_def using assms(2) by (subst id_take_nth_drop [OF assms(1)]) (simp del: append_take_drop_id)
  show "untried (set_child c f mm) \<le> untried mm" "mc_tried (f (mm_child mm ! c)) \<Longrightarrow> untried (set_child c f mm) < untried mm"
    unfolding u using assms(1) by (simp_all add: untried_def set_child_def upd_conv_take_nth_drop)
qed

lemma select_step:
  assumes ok: "mm_ok kids err mm" and c: "c < length kids" "\<not> mc_tried (mm_child mm ! c)" "\<not> mc_skipped (mm_child mm ! c)"
  shows "vdev_is_dead (kids ! c) \<Longrightarrow> selects kids err mm (set_child c (\<lambda>mc. mc\<lparr>mc_error := ENXIO, mc_tried := True, mc_skipped := True\<rparr>) mm)"
    "\<not> vdev_is_dead (kids ! c) \<Longrightarrow> selects kids err mm (set_child c (\<lambda>mc. mc\<lparr>mc_error := ESTALE, mc_skipped := True\<rparr>) mm)"
proof -
  have l: "c < length (mm_child mm)" using c(1) mm_okD(2) [OF ok] by simp
  have ne: "ENXIO \<noteq> 0" by (simp add: errno_defs)
  show "selects kids err mm (set_child c (\<lambda>mc. mc\<lparr>mc_error := ENXIO, mc_tried := True, mc_skipped := True\<rparr>) mm)" if "vdev_is_dead (kids ! c)"
    unfolding selects_def using c l that ne untried_set(1) [OF l c(2)]
    by (auto intro!: mm_ok_set [OF ok c(1)] simp: set_child_nth good_def Let_def)
  show "selects kids err mm (set_child c (\<lambda>mc. mc\<lparr>mc_error := ESTALE, mc_skipped := True\<rparr>) mm)" if "\<not> vdev_is_dead (kids ! c)"
    unfolding selects_def using c l that untried_set(1) [OF l c(2)]
    by (auto intro!: mm_ok_set [OF ok c(1)] simp: set_child_nth good_def Let_def)
qed

lemma wrap: "c \<le> n \<Longrightarrow> 0 < n \<Longrightarrow> (if c \<ge> n then 0 else c) = c mod (n :: nat)"
  by auto

lemma select_fresh:
  assumes kids: "kids \<noteq> []" "\<And>k. k \<in> set kids \<Longrightarrow> dtl_ok (vdev_dtl_map k)" "txg \<noteq> - 1"
  shows "mm_ok kids err mm \<Longrightarrow> c \<le> length kids \<Longrightarrow>
    \<exists>r mm'. select_fresh txg i c mm = Some (r, mm') \<and> selects kids err mm mm' \<and>
      (case r of Some x \<Rightarrow> x < length kids \<and> \<not> mc_tried (mm_child mm' ! x) \<and> \<not> vdev_is_dead (kids ! x)
       | None \<Rightarrow> \<forall>j < i. mc_tried (mm_child mm' ! ((c + j) mod length kids)) \<or> mc_skipped (mm_child mm' ! ((c + j) mod length kids)))"
proof (induction i arbitrary: c mm)
  case 0
  then show ?case by (simp add: selects_def)
next
  case (Suc i)
  define n where "n = length kids"
  define x where "x = c mod n"
  have n: "0 < n" using kids(1) by (simp add: n_def)
  have x: "x < length kids" "Suc x \<le> length kids" using n by (simp_all add: x_def n_def Suc_leI)
  have xe: "(if mm_children mm \<le> c then 0 else c) = x" using mm_okD(1) [OF Suc.prems(1)] wrap [OF Suc.prems(2)] n by (simp add: x_def n_def)
  have sh: "(c + Suc j) mod length kids = (Suc x + j) mod length kids" for j
    unfolding x_def n_def by (metis add_Suc add_Suc_shift mod_add_left_eq mod_Suc_eq)
  let ?mc = "mm_child mm ! x"
  have rd: "vdev_is_dead (mc_vd ?mc) \<and> \<not> vdev_readable (mc_vd ?mc) \<longleftrightarrow> vdev_is_dead (kids ! x)"
    using mm_okD(4) [OF Suc.prems(1) x(1)] by (auto simp: vdev_readable_def)
  have dtl: "vdev_dtl_contains (vdev_dtl_map (mc_vd ?mc)) txg 1 = Some (unat txg \<in> sm_set (vdev_dtl_map (kids ! x)))"
    using dtl_contains [OF kids(2) kids(3)] x(1) mm_okD(4) [OF Suc.prems(1) x(1)] by simp
  have go: ?case if m1: "selects kids err mm mm1" "mc_tried (mm_child mm1 ! x) \<or> mc_skipped (mm_child mm1 ! x)"
    and e: "select_fresh txg (Suc i) c mm = select_fresh txg i (x + 1) mm1" for mm1
  proof -
    obtain r mm' where r: "select_fresh txg i (Suc x) mm1 = Some (r, mm')" "selects kids err mm1 mm'"
      "case r of Some x \<Rightarrow> x < length kids \<and> \<not> mc_tried (mm_child mm' ! x) \<and> \<not> vdev_is_dead (kids ! x)
       | None \<Rightarrow> \<forall>j < i. mc_tried (mm_child mm' ! ((Suc x + j) mod length kids)) \<or> mc_skipped (mm_child mm' ! ((Suc x + j) mod length kids))"
      using Suc.IH [of mm1 "Suc x"] m1(1) x(2) unfolding selects_def by blast
    have "mm_child mm' ! x = mm_child mm1 ! x" using r(2) m1(2) x(1) unfolding selects_def by blast
    then have "\<forall>j < Suc i. mc_tried (mm_child mm' ! ((c + j) mod length kids)) \<or> mc_skipped (mm_child mm' ! ((c + j) mod length kids))" if "r = None"
      using r(3) m1(2) that sh by (simp add: All_less_Suc2 x_def n_def)
    then show ?thesis using e r selects_trans [OF m1(1) r(2)] by (auto split: option.splits)
  qed
  consider "mc_tried ?mc \<or> mc_skipped ?mc" | "\<not> mc_tried ?mc" "\<not> mc_skipped ?mc" "vdev_is_dead (kids ! x)"
    | "\<not> mc_tried ?mc" "\<not> mc_skipped ?mc" "\<not> vdev_is_dead (kids ! x)" "unat txg \<in> sm_set (vdev_dtl_map (kids ! x))"
    | "\<not> mc_tried ?mc" "\<not> mc_skipped ?mc" "\<not> vdev_is_dead (kids ! x)" "unat txg \<notin> sm_set (vdev_dtl_map (kids ! x))" by blast
  then show ?case
  proof cases
    case 1
    show ?thesis by (rule go [of mm]) (use 1 xe Suc.prems(1) in \<open>auto simp: selects_def\<close>)
  next
    case 2
    note st = select_step(1) [OF Suc.prems(1) x(1) 2]
    show ?thesis by (rule go [OF st]) (use 2 xe rd x(1) mm_okD(2) [OF Suc.prems(1)] in \<open>auto simp: set_child_nth Let_def\<close>)
  next
    case 3
    note st = select_step(2) [OF Suc.prems(1) x(1) 3(1-3)]
    show ?thesis by (rule go [OF st]) (use 3 xe rd dtl x(1) mm_okD(2) [OF Suc.prems(1)] in \<open>auto simp: set_child_nth Let_def\<close>)
  next
    case 4
    then have "select_fresh txg (Suc i) c mm = Some (Some x, mm)" using xe rd dtl by (auto simp: Let_def)
    then show ?thesis using 4 x(1) Suc.prems(1) by (simp add: selects_def)
  qed
qed

lemma child_select:
  assumes kids: "kids \<noteq> []" "\<And>k. k \<in> set kids \<Longrightarrow> dtl_ok (vdev_dtl_map k)" "txg \<noteq> - 1" and ok: "mm_ok kids err mm"
  shows "\<exists>r mm'. vdev_mirror_child_select txg mm = Some (r, mm') \<and> selects kids err mm mm' \<and>
      (case r of Some x \<Rightarrow> x < length kids \<and> \<not> mc_tried (mm_child mm' ! x) \<and> \<not> vdev_is_dead (kids ! x)
       | None \<Rightarrow> \<forall>c < length kids. mc_tried (mm_child mm' ! c))"
proof -
  let ?n = "length kids"
  have p: "mm_preferred mm \<le> ?n" "mm_children mm = ?n" using mm_okD(1,3) [OF ok] by auto
  obtain r mm' where r: "select_fresh txg ?n (mm_preferred mm) mm = Some (r, mm')" "selects kids err mm mm'"
    "case r of Some x \<Rightarrow> x < ?n \<and> \<not> mc_tried (mm_child mm' ! x) \<and> \<not> vdev_is_dead (kids ! x)
     | None \<Rightarrow> \<forall>j < ?n. mc_tried (mm_child mm' ! ((mm_preferred mm + j) mod ?n)) \<or> mc_skipped (mm_child mm' ! ((mm_preferred mm + j) mod ?n))"
    using select_fresh [OF kids ok p(1), of ?n] by blast
  have ok': "mm_ok kids err mm'" using r(2) by (simp add: selects_def)
  show ?thesis
  proof (cases r)
    case (Some x)
    then show ?thesis using r p(2) by (simp add: vdev_mirror_child_select_def)
  next
    case None
    have all: "mc_tried (mm_child mm' ! c) \<or> mc_skipped (mm_child mm' ! c)" if "c < ?n" for c
    proof -
      let ?j = "(c + ?n - mm_preferred mm) mod ?n"
      have "(mm_preferred mm + ?j) mod ?n = (mm_preferred mm + (c + ?n - mm_preferred mm)) mod ?n" by (rule mod_add_right_eq)
      also have "\<dots> = c" using p(1) that by simp
      finally have "(mm_preferred mm + ?j) mod ?n = c" .
      moreover have "?j < ?n" by (rule mod_less_divisor) (use that in linarith)
      ultimately show ?thesis using r(3) None by force
    qed
    let ?f = "find (\<lambda>c. \<not> mc_tried (mm_child mm' ! c)) [0..<mm_children mm']"
    have e: "vdev_mirror_child_select txg mm = Some (?f, mm')" using r(1) None p(2) by (simp add: vdev_mirror_child_select_def)
    have "case ?f of Some x \<Rightarrow> x < ?n \<and> \<not> mc_tried (mm_child mm' ! x) \<and> \<not> vdev_is_dead (kids ! x) | None \<Rightarrow> \<forall>c < ?n. mc_tried (mm_child mm' ! c)"
    proof (cases ?f)
      case None
      have "\<forall>c < ?n. mc_tried (mm_child mm' ! c)" using None mm_okD(1) [OF ok'] by (auto simp: find_None_iff)
      then show ?thesis using None by simp
    next
      case (Some x)
      then have x: "x < ?n" "\<not> mc_tried (mm_child mm' ! x)" using mm_okD(1) [OF ok'] by (auto simp: find_Some_iff)
      then show ?thesis using Some all [OF x(1)] mm_okD(7) [OF ok' x] by simp
    qed
    then show ?thesis using e r(2) by blast
  qed
qed

section \<open>Counting the outcomes\<close>

lemma count_good: "me_good (fold count_child mcs e) = me_good e + length (filter good mcs)"
  by (induction mcs arbitrary: e) (auto simp: count_child_def good_def)

lemma count_error: "me_error e \<noteq> 0 \<or> (\<exists>mc \<in> set mcs. mc_error mc \<noteq> 0) \<Longrightarrow> me_error (fold count_child mcs e) \<noteq> 0"
proof (induction mcs arbitrary: e)
  case (Cons mc mcs)
  have "me_error (count_child mc e) \<noteq> 0 \<or> (\<exists>mc \<in> set mcs. mc_error mc \<noteq> 0)"
    using Cons.prems by (auto simp: count_child_def errno_defs)
  then show ?case using Cons.IH by simp
qed simp

lemma good_iff: "me_good (count_children mm) \<noteq> 0 \<longleftrightarrow> (\<exists>c < length (mm_child mm). good (mm_child mm ! c))"
  unfolding count_children_def count_good by (auto simp: filter_empty_conv) (metis in_set_conv_nth)+

section \<open>Repairs\<close>

definition repairs_ok :: "vdev_zio \<Rightarrow> mirror_map \<Rightarrow> child_io list \<Rightarrow> bool" where
  \<comment> \<open>only children without a good copy are written, with the data of the I/O\<close>
  "repairs_ok zio mm ios \<longleftrightarrow> (\<forall>io \<in> set ios. ci_type io = ZIO_TYPE_WRITE \<and> ci_vdev io < mm_children mm \<and>
     \<not> good (mm_child mm ! ci_vdev io) \<and> ci_data io = io_data zio \<and> ci_offset io = mc_offset (mm_child mm ! ci_vdev io))"

lemma repair_child:
  assumes "c < length (mm_child mm)" "repair_child zio (mm, ios) c = Some (mm', ios')"
  shows "(mm' = mm \<or> (\<not> mc_tried (mm_child mm ! c) \<and> mm' = set_child c (\<lambda>mc. mc\<lparr>mc_error := ESTALE\<rparr>) mm)) \<and>
    (ios' = ios \<or> \<not> good (mm_child mm ! c) \<and> (\<exists>io. ios' = ios @ [io] \<and> ci_type io = ZIO_TYPE_WRITE \<and> ci_vdev io = c \<and> ci_data io = io_data zio \<and>
      ci_offset io = mc_offset (mm_child mm ! c)))"
  using assms by (auto simp: repair_child_def Let_def mc_io_def good_def set_child_nth split: if_splits bind_splits)

lemma repair_children:
  assumes kids: "\<And>mc. mc \<in> set (mm_child mm0) \<Longrightarrow> dtl_ok (vdev_dtl_map (mc_vd mc))" "io_txg zio \<noteq> - 1"
    and l: "length (mm_child mm0) = mm_children mm0"
  shows "n \<le> mm_children mm0 \<Longrightarrow> \<exists>mm ios. foldM (repair_child zio) (mm0, []) [0..<n] = Some (mm, ios) \<and> repairs_ok zio mm0 ios \<and>
    length (mm_child mm) = length (mm_child mm0) \<and> (\<forall>c < mm_children mm0. n \<le> c \<longrightarrow> mm_child mm ! c = mm_child mm0 ! c)"
proof (induction n)
  case 0
  then show ?case by (simp add: repairs_ok_def)
next
  case (Suc n)
  then obtain mm ios where f: "foldM (repair_child zio) (mm0, []) [0..<n] = Some (mm, ios)" "repairs_ok zio mm0 ios"
    "length (mm_child mm) = length (mm_child mm0)" "\<forall>c < mm_children mm0. n \<le> c \<longrightarrow> mm_child mm ! c = mm_child mm0 ! c" by auto
  have n: "n < length (mm_child mm)" "mm_child mm ! n = mm_child mm0 ! n" using f(3,4) l Suc.prems by simp_all
  have "dtl_ok (vdev_dtl_map (mc_vd (mm_child mm ! n)))" using kids(1) n f(3) by simp
  then have "\<exists>r. repair_child zio (mm, ios) n = Some r" using dtl_contains [OF _ kids(2)] by (simp add: repair_child_def Let_def)
  then obtain mm' ios' where r: "repair_child zio (mm, ios) n = Some (mm', ios')" by auto
  note R = repair_child [OF n(1) r]
  have "length (mm_child mm') = length (mm_child mm0)" "\<forall>c < mm_children mm0. Suc n \<le> c \<longrightarrow> mm_child mm' ! c = mm_child mm0 ! c"
    using R n(1) f(3,4) by (auto simp: set_child_nth)
  moreover have "repairs_ok zio mm0 ios'" using R f(2) n(2) Suc.prems by (auto simp: repairs_ok_def)
  ultimately show ?case using f(1) r by (simp add: foldM_append)
qed

section \<open>Reading\<close>

definition mirror_complete :: "(nat \<Rightarrow> int \<times> u64 list) \<Rightarrow> bool \<Rightarrow> child_io \<Rightarrow> vdev_zio \<times> mirror_map \<Rightarrow> vdev_zio \<times> mirror_map" where
  \<comment> \<open>a child I/O returns what the child has; a scrub reads into buffers of its own\<close>
  "mirror_complete disk scrub io = (\<lambda>(zio, mm). case ci_col io of None \<Rightarrow> (zio, mm)
     | Some c \<Rightarrow> let (error, data) = disk c in
         if scrub then vdev_mirror_scrub_done c error data (zio, mm)
         else (zio\<lparr>io_data := data\<rparr>, vdev_mirror_child_done c error mm))"

fun mirror_rounds :: "nat \<Rightarrow> (nat \<Rightarrow> int \<times> u64 list) \<Rightarrow> bool \<Rightarrow> vdev_zio \<times> mirror_map \<Rightarrow> (vdev_zio \<times> child_io list) option" where
  "mirror_rounds 0 disk writable st = None"
| "mirror_rounds (Suc n) disk writable (zio, mm) = do {
     (nxt, zio, mm) \<leftarrow> vdev_mirror_io_done writable zio mm;
     (case nxt of Finished ios \<Rightarrow> Some (zio, ios)
      | Redo ios \<Rightarrow> mirror_rounds n disk writable (fold (mirror_complete disk False) ios (zio, mm))) }"

definition mirror_read :: "(nat \<Rightarrow> int \<times> u64 list) \<Rightarrow> bool \<Rightarrow> vdev_zio \<Rightarrow> mirror_map \<Rightarrow> (vdev_zio \<times> child_io list) option" where
  "mirror_read disk writable zio mm = do {
     (scrub, ios, mm) \<leftarrow> vdev_mirror_io_start zio mm;
     mirror_rounds (mm_children mm + 1) disk writable (fold (mirror_complete disk scrub) ios (zio, mm)) }"

lemma complete_read:
  assumes ok: "mm_ok kids (fst \<circ> disk) mm" and c: "c < length kids" "\<not> mc_tried (mm_child mm ! c)" "\<not> vdev_is_dead (kids ! c)"
    and io: "ci_col io = Some c"
  shows "\<exists>mm'. mirror_complete disk False io (zio, mm) = (zio\<lparr>io_data := snd (disk c)\<rparr>, mm') \<and> mm_ok kids (fst \<circ> disk) mm' \<and> untried mm' < untried mm \<and>
    mc_tried (mm_child mm' ! c) \<and> (\<forall>k < length kids. good (mm_child mm' ! k) = (if k = c then fst (disk c) = 0 else good (mm_child mm ! k)))"
proof -
  have l: "c < length (mm_child mm)" using c(1) mm_okD(2) [OF ok] by simp
  let ?f = "\<lambda>mc. mc\<lparr>mc_error := fst (disk c), mc_tried := True, mc_skipped := False\<rparr>"
  have "mirror_complete disk False io (zio, mm) = (zio\<lparr>io_data := snd (disk c)\<rparr>, set_child c ?f mm)"
    by (simp add: mirror_complete_def io vdev_mirror_child_done_def split: prod.split)
  moreover have "mm_ok kids (fst \<circ> disk) (set_child c ?f mm)" by (rule mm_ok_set [OF ok c(1)]) (use c(3) in simp_all)
  ultimately show ?thesis using untried_set(2) [OF l c(2), of ?f] l by (auto simp: set_child_nth good_def)
qed

lemma rounds:
  assumes kids: "kids \<noteq> []" "\<And>k. k \<in> set kids \<Longrightarrow> dtl_ok (vdev_dtl_map k)" and rd: "io_type zio \<noteq> ZIO_TYPE_WRITE" "io_txg zio \<noteq> - 1"
    and ok: "mm_ok kids (fst \<circ> disk) mm" and fuel: "untried mm < n" and some: "\<exists>c < length kids. mc_tried (mm_child mm ! c)"
    and data: "\<And>c. c < length kids \<Longrightarrow> good (mm_child mm ! c) \<Longrightarrow> io_data zio = snd (disk c)"
  shows "\<exists>zio' ios. mirror_rounds n disk writable (zio, mm) = Some (zio', ios) \<and>
    (if \<exists>c < length kids. \<not> vdev_is_dead (kids ! c) \<and> fst (disk c) = 0
     then io_error zio' = 0 \<and> (\<exists>c < length kids. \<not> vdev_is_dead (kids ! c) \<and> fst (disk c) = 0 \<and> io_data zio' = snd (disk c))
     else io_error zio' \<noteq> 0)"
  using rd ok fuel data some
proof (induction n arbitrary: zio mm)
  case (Suc n)
  define e where "e = count_children mm"
  define zio1 where "zio1 = zio\<lparr>io_error := me_error e, io_numerrors := me_numerrors e\<rparr>"
  note ok = Suc.prems(3)
  have l: "length (mm_child mm) = length kids" "mm_children mm = length kids" using mm_okD(1,2) [OF ok] by auto
  have ge: "good (mm_child mm ! c) \<Longrightarrow> \<not> vdev_is_dead (kids ! c) \<and> fst (disk c) = 0" if "c < length kids" for c
    using mm_okD(5,6) [OF ok that] by (auto simp: good_def errno_defs)
  have gd: "mc_tried (mm_child mm' ! c) \<Longrightarrow> \<not> vdev_is_dead (kids ! c) \<Longrightarrow> fst (disk c) = 0 \<Longrightarrow> good (mm_child mm' ! c)"
    if "c < length kids" "mm_ok kids (fst \<circ> disk) mm'" for c mm' using mm_okD(5,6) [OF that(2,1)] by (auto simp: good_def)
  show ?case
  proof (cases "me_good e = 0")
    case False
    then obtain c where c: "c < length kids" "good (mm_child mm ! c)" using good_iff [of mm] l(1) by (auto simp: e_def)
    define zio2 where "zio2 = zio1\<lparr>io_error := 0\<rparr>"
    have dtl: "dtl_ok (vdev_dtl_map (mc_vd mc))" if mem: "mc \<in> set (mm_child mm)" for mc
    proof -
      obtain c where "c < length kids" "mc = mm_child mm ! c" using mem l(1) by (metis in_set_conv_nth)
      then show ?thesis using mm_okD(4) [OF ok] kids(2) by simp
    qed
    have t2: "io_txg zio2 \<noteq> - 1" using Suc.prems(2) by (simp add: zio2_def zio1_def)
    obtain mm' ios where "foldM (repair_child zio2) (mm, []) [0..<mm_children mm] = Some (mm', ios)"
      using repair_children [where ?mm0.0 = mm and n = "mm_children mm", OF dtl t2] l by auto
    then have "\<exists>ios mm'. vdev_mirror_io_done writable zio mm = Some (Finished ios, zio2, mm')"
      using False Suc.prems(1) by (simp add: vdev_mirror_io_done_def Let_def e_def [symmetric] zio1_def [symmetric] zio2_def [symmetric] split: if_splits)
    then obtain ios mm' where "vdev_mirror_io_done writable zio mm = Some (Finished ios, zio2, mm')" by blast
    then have "mirror_rounds (Suc n) disk writable (zio, mm) = Some (zio2, ios)" by simp
    moreover have "io_error zio2 = 0" "io_data zio2 = snd (disk c)" using Suc.prems(5) [OF c] by (simp_all add: zio2_def zio1_def)
    moreover have "\<exists>c < length kids. \<not> vdev_is_dead (kids ! c) \<and> fst (disk c) = 0" using c(1) ge [OF c] by blast
    ultimately show ?thesis using c(1) ge [OF c] by metis
  next
    case True
    then have ng: "\<not> good (mm_child mm ! c)" if "c < length kids" for c using good_iff [of mm] l(1) that by (auto simp: e_def)
    have tx: "io_txg zio1 = io_txg zio" by (simp add: zio1_def)
    obtain r mm1 where s: "vdev_mirror_child_select (io_txg zio) mm = Some (r, mm1)" "selects kids (fst \<circ> disk) mm mm1"
      "case r of Some x \<Rightarrow> x < length kids \<and> \<not> mc_tried (mm_child mm1 ! x) \<and> \<not> vdev_is_dead (kids ! x) | None \<Rightarrow> \<forall>c < length kids. mc_tried (mm_child mm1 ! c)"
      using child_select [OF kids Suc.prems(2) ok] by blast
    have ok1: "mm_ok kids (fst \<circ> disk) mm1" "untried mm1 \<le> untried mm" "\<And>c. c < length kids \<Longrightarrow> \<not> good (mm_child mm1 ! c)"
      using s(2) ng by (auto simp: selects_def)
    show ?thesis
    proof (cases r)
      case None
      then have all: "mc_tried (mm_child mm1 ! c)" if "c < length kids" for c using s(3) that by simp
      have no: "\<not> (\<exists>c < length kids. \<not> vdev_is_dead (kids ! c) \<and> fst (disk c) = 0)" using gd [OF _ ok1(1)] all ok1(3) by blast
      have "vdev_mirror_io_done writable zio mm = Some (Finished [], zio1, mm1)"
        using True None Suc.prems(1) s(1) by (simp add: vdev_mirror_io_done_def Let_def e_def [symmetric] zio1_def)
      moreover have "io_error zio1 \<noteq> 0"
      proof -
        obtain c where c: "c < length kids" "mc_tried (mm_child mm ! c)" using Suc.prems(6) by blast
        then have "mc_error (mm_child mm ! c) \<noteq> 0" using ng [OF c(1)] by (simp add: good_def)
        moreover have "mm_child mm ! c \<in> set (mm_child mm)" using c(1) l(1) by simp
        ultimately show ?thesis using count_error [of _ "mm_child mm"] unfolding zio1_def e_def count_children_def by auto
      qed
      ultimately show ?thesis using no by simp
    next
      case (Some x)
      then have x: "x < length kids" "\<not> mc_tried (mm_child mm1 ! x)" "\<not> vdev_is_dead (kids ! x)" using s(3) by auto
      define zio2 where "zio2 = zio1\<lparr>io_error := 0\<rparr>"
      define io where "io = mc_io zio1 mm1 ZIO_TYPE_READ ZIO_FLAG_CANFAIL (Some x) x"
      have d: "vdev_mirror_io_done writable zio mm = Some (Redo [io], zio2, mm1)"
        using True Some Suc.prems(1) s(1) by (simp add: vdev_mirror_io_done_def Let_def e_def [symmetric] zio1_def zio2_def io_def)
      have "ci_col io = Some x" by (simp add: io_def mc_io_def)
      then obtain mm2 where c: "mirror_complete disk False io (zio2, mm1) = (zio2\<lparr>io_data := snd (disk x)\<rparr>, mm2)" "mm_ok kids (fst \<circ> disk) mm2"
        "untried mm2 < untried mm1" "mc_tried (mm_child mm2 ! x)" "\<forall>k < length kids. good (mm_child mm2 ! k) = (if k = x then fst (disk x) = 0 else good (mm_child mm1 ! k))"
        using complete_read [OF ok1(1) x] by blast
      let ?zio = "zio2\<lparr>io_data := snd (disk x)\<rparr>"
      have z: "io_type ?zio = io_type zio" "io_txg ?zio = io_txg zio" "io_data ?zio = snd (disk x)" by (simp_all add: zio2_def zio1_def)
      have "io_data ?zio = snd (disk k)" if "k < length kids" "good (mm_child mm2 ! k)" for k
        using c(5) ok1(3) [OF that(1)] that z(3) by (cases "k = x") simp_all
      moreover have "untried mm2 < n" using c(3) ok1(2) Suc.prems(4) by simp
      moreover have "\<exists>k < length kids. mc_tried (mm_child mm2 ! k)" using x(1) c(4) by blast
      moreover have "mirror_rounds (Suc n) disk writable (zio, mm) = mirror_rounds n disk writable (?zio, mm2)" using d c(1) by simp
      ultimately show ?thesis using Suc.IH [of ?zio mm2] Suc.prems(1,2) c(2) z(1,2) by metis
    qed
  qed
qed simp

lemma fold_lowest: "fold (\<lambda>d p. if P d then d else p) ds (c :: nat) \<in> insert c (set ds)"
proof (induction ds arbitrary: c)
  case (Cons d ds)
  then show ?case using Cons.IH [of d] Cons.IH [of c] by auto
qed simp

lemma mirror_map_alloc_ok:
  assumes "0 < mm_children (vdev_mirror_map_alloc rnd lookup bp vd off)" "\<And>n. 0 < n \<Longrightarrow> rnd n < n"
  defines "mm \<equiv> vdev_mirror_map_alloc rnd lookup bp vd off"
  shows "mm_ok (map mc_vd (mm_child mm)) err mm" "untried mm = mm_children mm" "mm_children mm = length (mm_child mm)"
proof -
  have "mm_children mm = length (mm_child mm) \<and> mm_preferred mm < length (mm_child mm) \<and>
    (\<forall>mc \<in> set (mm_child mm). \<not> mc_tried mc \<and> \<not> mc_skipped mc \<and> mc_error mc = 0)"
  proof (cases vd)
    case None
    let ?n = "length (bp_dvas bp)"
    have n: "0 < ?n" using assms(1) None by (simp add: vdev_mirror_map_alloc_def Let_def)
    have "lowest_same_vdev (bp_dvas bp) (rnd ?n) \<le> rnd ?n"
      using fold_lowest [of "\<lambda>d. DVA_GET_VDEV (bp_dvas bp ! d) = DVA_GET_VDEV (bp_dvas bp ! rnd ?n)" "rev [0..<rnd ?n]" "rnd ?n"]
      by (auto simp: lowest_same_vdev_def)
    then show ?thesis using None assms(2) [OF n] by (auto simp: mm_def vdev_mirror_map_alloc_def Let_def new_child_def)
  next
    case (Some v)
    obtain ops kids where v: "v = (ops, kids)" by fastforce
    have "0 < length kids" using assms(1) Some by (simp add: v vdev_mirror_map_alloc_def Let_def)
    then show ?thesis using Some by (auto simp: v mm_def vdev_mirror_map_alloc_def Let_def new_child_def)
  qed
  then have s: "mm_children mm = length (mm_child mm)" "mm_preferred mm < length (mm_child mm)"
    "\<And>mc. mc \<in> set (mm_child mm) \<Longrightarrow> \<not> mc_tried mc \<and> \<not> mc_skipped mc \<and> mc_error mc = 0" by auto
  show "mm_children mm = length (mm_child mm)" by (rule s(1))
  show "mm_ok (map mc_vd (mm_child mm)) err mm" unfolding mm_ok_def Let_def using s by simp
  have "filter (\<lambda>mc. \<not> mc_tried mc) (mm_child mm) = mm_child mm" using s(3) by simp
  then show "untried mm = mm_children mm" using s(1) by (simp add: untried_def)
qed


text \<open>C22. A mirror repairs with good data only and never rewrites a good copy: when the I/O is done, every repair
  goes to a child that did not return the block, at the offset of that child, with the data of the
  I/O.\<close>
theorem vdev_mirror_repairs_safe:
  assumes "vdev_mirror_io_done writable zio mm = Some (Finished ios, zio', mm')" "length (mm_child mm) = mm_children mm"
    and "\<And>mc. mc \<in> set (mm_child mm) \<Longrightarrow> dtl_ok (vdev_dtl_map (mc_vd mc))" "io_txg zio \<noteq> - 1"
  shows "(\<forall>io \<in> set ios. ci_type io = ZIO_TYPE_WRITE \<and> ci_vdev io < mm_children mm \<and> ci_data io = io_data zio \<and>
      ci_offset io = mc_offset (mm_child mm ! ci_vdev io) \<and> \<not> (mc_tried (mm_child mm ! ci_vdev io) \<and> mc_error (mm_child mm ! ci_vdev io) = 0)) \<and>
    (ios \<noteq> [] \<longrightarrow> writable \<and> io_error zio' = 0 \<and> (\<exists>c < mm_children mm. mc_tried (mm_child mm ! c) \<and> mc_error (mm_child mm ! c) = 0))"
proof (cases "ios = []")
  case False
  define e where "e = count_children mm"
  define zio2 where "zio2 = zio\<lparr>io_numerrors := me_numerrors e, io_error := 0\<rparr>"
  have "me_good e \<noteq> 0 \<and> writable \<and> zio' = zio2 \<and> foldM (repair_child zio2) (mm, []) [0..<mm_children mm] = Some (mm', ios)"
    using assms(1) False by (auto simp: vdev_mirror_io_done_def Let_def e_def [symmetric] zio2_def split: if_splits bind_splits option.splits)
  then have g: "me_good e \<noteq> 0" "writable" "zio' = zio2" "foldM (repair_child zio2) (mm, []) [0..<mm_children mm] = Some (mm', ios)" by auto
  have "io_txg zio2 \<noteq> - 1" using assms(4) by (simp add: zio2_def)
  then have "repairs_ok zio2 mm ios" using repair_children [where ?mm0.0 = mm and n = "mm_children mm" and zio = zio2, OF assms(3) _ assms(2)] g(4) by auto
  then show ?thesis using g good_iff [of mm] assms(2) by (auto simp: repairs_ok_def good_def zio2_def e_def)
qed simp

definition demo_zio :: vdev_zio where
  "demo_zio = \<lparr>io_type = ZIO_TYPE_READ, io_flags = 0, io_error = 0, io_size = 16, io_txg = 7, io_delegate = False,
     io_offset = 0x200000, io_data = [0, 0], io_numerrors = 0\<rparr>"

definition demo_mirror :: mirror_map where
  "demo_mirror = vdev_mirror_map_alloc (\<lambda>n. 0) (\<lambda>_. demo_vdev) (BP_ZERO undefined) (Some (vdev_mirror_ops, [demo_vdev, demo_vdev, demo_vdev])) 0x200000"

lemma demo_mirror_eq:
  "demo_mirror = \<lparr>mm_children = 3, mm_replacing = False, mm_preferred = 1, mm_root = False, mm_child = replicate 3 (new_child demo_vdev 0x200000)\<rparr>"
  by (simp add: demo_mirror_def vdev_mirror_map_alloc_def vdev_mirror_shift_def numeral_3_eq_3 Let_def)

definition demo_copies :: "nat \<Rightarrow> int \<times> u64 list" where
  \<comment> \<open>two of three children fail, the preferred one among them\<close>
  "demo_copies c = (if c = 0 then (0, [5, 7]) else (EIO, [9, 9]))"


theorem vdev_mirror_repairs_safe_witness:
  "\<exists>ios zio' mm'. vdev_mirror_io_done True demo_zio (vdev_mirror_child_done 0 0 (vdev_mirror_child_done 1 EIO demo_mirror)) = Some (Finished ios, zio', mm') \<and>
     ios \<noteq> [] \<and> (\<forall>io \<in> set ios. ci_data io = [0, 0] \<and> ci_vdev io \<noteq> 0)"
proof -
  let ?mm = "vdev_mirror_child_done 0 0 (vdev_mirror_child_done 1 EIO demo_mirror)"
  have "case vdev_mirror_io_done True demo_zio ?mm of Some (Finished ios, _) \<Rightarrow> ios \<noteq> [] | _ \<Rightarrow> False"
    unfolding demo_mirror_eq by code_simp
  then obtain ios zio' mm' where r: "vdev_mirror_io_done True demo_zio ?mm = Some (Finished ios, zio', mm')" "ios \<noteq> []"
    by (auto split: option.splits prod.splits vdev_next.splits)
  have m: "length (mm_child ?mm) = mm_children ?mm" "mc_vd mc = demo_vdev" if "mc \<in> set (mm_child ?mm)" for mc
    using that by (auto simp: demo_mirror_eq vdev_mirror_child_done_def set_child_def new_child_def numeral_3_eq_3)
  have g: "mc_tried (mm_child ?mm ! 0)" "mc_error (mm_child ?mm ! 0) = 0" by (simp_all add: demo_mirror_eq vdev_mirror_child_done_def set_child_def numeral_3_eq_3)
  have d: "dtl_ok (vdev_dtl_map demo_vdev)" by (simp add: demo_vdev_def dtl_create)
  have l: "length (mm_child ?mm) = mm_children ?mm" by (simp add: demo_mirror_eq vdev_mirror_child_done_def set_child_def)
  have "\<forall>io \<in> set ios. ci_data io = [0, 0] \<and> ci_vdev io \<noteq> 0"
  proof
    fix io assume io: "io \<in> set ios"
    have "dtl_ok (vdev_dtl_map (mc_vd mc))" if "mc \<in> set (mm_child ?mm)" for mc using m(2) [OF that] d by simp
    moreover have "io_txg demo_zio \<noteq> - 1" "io_data demo_zio = [0, 0]" by (simp_all add: demo_zio_def)
    ultimately have "ci_data io = [0, 0]" "\<not> (mc_tried (mm_child ?mm ! ci_vdev io) \<and> mc_error (mm_child ?mm ! ci_vdev io) = 0)"
      using vdev_mirror_repairs_safe [OF r(1) l] io by auto
    moreover from this(2) have "ci_vdev io \<noteq> 0" using g by (cases "ci_vdev io = 0") simp_all
    ultimately show "ci_data io = [0, 0] \<and> ci_vdev io \<noteq> 0" by blast
  qed
  then show ?thesis using r by blast
qed

end
