(* ===== verification/Sys_List.thy ===== *)
theory Sys_List
  imports Prelude
begin

text \<open>
  The doubly linked lists of \<^verbatim>\<open>src/lib/libzfscommon/list.c\<close>. A list is a ring of link nodes: the head,
  which lies in the \<^verbatim>\<open>list_t\<close>, and one node inside every object on the list, at a fixed offset. Objects
  and nodes are addresses, and the store maps the address of a node to its two pointers, so that the
  operations are the sequences of pointer assignments of the code. The main results: every operation
  does on the ring what the corresponding operation does on a sequence of objects, it leaves
  other lists alone, and therefore every sequence of calls on a family of lists refines the same sequence on
  sequences of objects. A locale collects the laws that code walking over a list relies on.
\<close>

section \<open>Nodes, lists and the store\<close>

type_synonym addr = u64

abbreviation NULL :: addr where "NULL \<equiv> 0"

record list_node =
  ln_next :: addr
  ln_prev :: addr

type_synonym store = "addr \<Rightarrow> list_node"

record list_t =
  list_size :: u64
  list_offset :: u64
  list_head_at :: addr  \<comment> \<open>the address of the member \<^verbatim>\<open>list_head\<close>\<close>

definition set_next :: "addr \<Rightarrow> addr \<Rightarrow> store \<Rightarrow> store" where
  "set_next a v h = h(a := (h a)\<lparr>ln_next := v\<rparr>)"

definition set_prev :: "addr \<Rightarrow> addr \<Rightarrow> store \<Rightarrow> store" where
  "set_prev a v h = h(a := (h a)\<lparr>ln_prev := v\<rparr>)"

definition list_d2l :: "list_t \<Rightarrow> addr \<Rightarrow> addr" where
  "list_d2l l obj = obj + list_offset l"

definition list_object :: "list_t \<Rightarrow> addr \<Rightarrow> addr" where
  "list_object l node = node - list_offset l"

definition list_empty :: "list_t \<Rightarrow> store \<Rightarrow> bool" where
  "list_empty l h = (ln_next (h (list_head_at l)) = list_head_at l)"

section \<open>Operations\<close>

definition list_insert_after_node :: "list_t \<Rightarrow> addr \<Rightarrow> addr \<Rightarrow> store \<Rightarrow> store" where
  "list_insert_after_node l node object h =
     (let lnew = list_d2l l object;
          h = set_prev lnew node h;
          h = set_next lnew (ln_next (h node)) h;
          h = set_prev (ln_next (h node)) lnew h
      in set_next node lnew h)"

definition list_insert_before_node :: "list_t \<Rightarrow> addr \<Rightarrow> addr \<Rightarrow> store \<Rightarrow> store" where
  "list_insert_before_node l node object h =
     (let lnew = list_d2l l object;
          h = set_next lnew node h;
          h = set_prev lnew (ln_prev (h node)) h;
          h = set_next (ln_prev (h node)) lnew h
      in set_prev node lnew h)"

definition list_remove_node :: "addr \<Rightarrow> store \<Rightarrow> store" where
  "list_remove_node node h =
     (let h = set_next (ln_prev (h node)) (ln_next (h node)) h;
          h = set_prev (ln_next (h node)) (ln_prev (h node)) h;
          h = set_prev node NULL h
      in set_next node NULL h)"

definition list_create :: "addr \<Rightarrow> u64 \<Rightarrow> u64 \<Rightarrow> store \<Rightarrow> list_t \<times> store" where
  \<comment> \<open>the first argument is the address of the list's head\<close>
  "list_create at sz off h =
     (\<lparr>list_size = sz, list_offset = off, list_head_at = at\<rparr>, set_next at at (set_prev at at h))"

definition list_destroy :: "list_t \<Rightarrow> store \<Rightarrow> store" where
  "list_destroy l h = set_next (list_head_at l) NULL (set_prev (list_head_at l) NULL h)"

definition list_insert_head :: "list_t \<Rightarrow> addr \<Rightarrow> store \<Rightarrow> store" where
  "list_insert_head l object h = list_insert_after_node l (list_head_at l) object h"

definition list_insert_tail :: "list_t \<Rightarrow> addr \<Rightarrow> store \<Rightarrow> store" where
  "list_insert_tail l object h = list_insert_before_node l (list_head_at l) object h"

definition list_insert_after :: "list_t \<Rightarrow> addr \<Rightarrow> addr \<Rightarrow> store \<Rightarrow> store" where
  "list_insert_after l object nobject h =
     (if object = NULL then list_insert_head l nobject h
      else list_insert_after_node l (list_d2l l object) nobject h)"

definition list_insert_before :: "list_t \<Rightarrow> addr \<Rightarrow> addr \<Rightarrow> store \<Rightarrow> store" where
  "list_insert_before l object nobject h =
     (if object = NULL then list_insert_tail l nobject h
      else list_insert_before_node l (list_d2l l object) nobject h)"

definition list_remove :: "list_t \<Rightarrow> addr \<Rightarrow> store \<Rightarrow> store" where
  "list_remove l object h = list_remove_node (list_d2l l object) h"

definition list_remove_head :: "list_t \<Rightarrow> store \<Rightarrow> addr \<times> store" where
  "list_remove_head l h =
     (let head = ln_next (h (list_head_at l)) in
      if head = list_head_at l then (NULL, h) else (list_object l head, list_remove_node head h))"

definition list_remove_tail :: "list_t \<Rightarrow> store \<Rightarrow> addr \<times> store" where
  "list_remove_tail l h =
     (let tail = ln_prev (h (list_head_at l)) in
      if tail = list_head_at l then (NULL, h) else (list_object l tail, list_remove_node tail h))"

definition list_head :: "list_t \<Rightarrow> store \<Rightarrow> addr" where
  "list_head l h = (if list_empty l h then NULL else list_object l (ln_next (h (list_head_at l))))"

definition list_tail :: "list_t \<Rightarrow> store \<Rightarrow> addr" where
  "list_tail l h = (if list_empty l h then NULL else list_object l (ln_prev (h (list_head_at l))))"

definition list_next :: "list_t \<Rightarrow> addr \<Rightarrow> store \<Rightarrow> addr" where
  "list_next l object h =
     (let node = list_d2l l object in
      if ln_next (h node) \<noteq> list_head_at l then list_object l (ln_next (h node)) else NULL)"

definition list_prev :: "list_t \<Rightarrow> addr \<Rightarrow> store \<Rightarrow> addr" where
  "list_prev l object h =
     (let node = list_d2l l object in
      if ln_prev (h node) \<noteq> list_head_at l then list_object l (ln_prev (h node)) else NULL)"

definition list_move_tail :: "list_t \<Rightarrow> list_t \<Rightarrow> store \<Rightarrow> store" where
  "list_move_tail dst src h =
     (let dstnode = list_head_at dst; srcnode = list_head_at src in
      if list_empty src h then h
      else
        let h = set_next (ln_prev (h dstnode)) (ln_next (h srcnode)) h;
            h = set_prev (ln_next (h srcnode)) (ln_prev (h dstnode)) h;
            h = set_prev dstnode (ln_prev (h srcnode)) h;
            h = set_next (ln_prev (h srcnode)) dstnode h;
            h = set_prev srcnode srcnode h
        in set_next srcnode srcnode h)"

definition list_link_replace :: "addr \<Rightarrow> addr \<Rightarrow> store \<Rightarrow> store" where
  "list_link_replace lold lnew h =
     (let h = set_next lnew (ln_next (h lold)) h;
          h = set_prev lnew (ln_prev (h lold)) h;
          h = set_next (ln_prev (h lold)) lnew h;
          h = set_prev (ln_next (h lold)) lnew h;
          h = set_prev lold NULL h
      in set_next lold NULL h)"

definition list_link_init :: "addr \<Rightarrow> store \<Rightarrow> store" where
  "list_link_init link h = set_prev link NULL (set_next link NULL h)"

definition list_link_active :: "addr \<Rightarrow> store \<Rightarrow> bool" where
  "list_link_active link h = (ln_next (h link) \<noteq> NULL)"

definition list_is_empty :: "list_t \<Rightarrow> store \<Rightarrow> bool" where
  "list_is_empty l h = list_empty l h"

lemma ln_set [simp]:
  "ln_next (set_next a v h b) = (if b = a then v else ln_next (h b))"
  "ln_prev (set_next a v h b) = ln_prev (h b)"
  "ln_prev (set_prev a v h b) = (if b = a then v else ln_prev (h b))"
  "ln_next (set_prev a v h b) = ln_next (h b)"
  by (simp_all add: set_next_def set_prev_def)

lemma list_object_d2l [simp]: "list_object l (list_d2l l x) = x"
  by (simp add: list_object_def list_d2l_def)

lemma list_d2l_inj [simp]: "list_d2l l x = list_d2l l y \<longleftrightarrow> x = y"
  by (simp add: list_d2l_def)

section \<open>Rings\<close>

definition ring :: "store \<Rightarrow> addr \<Rightarrow> addr list \<Rightarrow> bool" where
  \<comment> \<open>the nodes \<open>ns\<close>, in this order, form a ring with the head \<open>a\<close>\<close>
  "ring h a ns \<longleftrightarrow> distinct (a # ns) \<and> NULL \<notin> set (a # ns) \<and>
     map (\<lambda>n. ln_next (h n)) (a # ns) = ns @ [a] \<and> map (\<lambda>n. ln_prev (h n)) (ns @ [a]) = a # ns"

lemma ringI:
  assumes "distinct (a # ns)" "NULL \<notin> set (a # ns)"
    and "map (\<lambda>n. ln_next (h n)) (a # ns) = ns @ [a]" "map (\<lambda>n. ln_prev (h n)) (ns @ [a]) = a # ns"
  shows "ring h a ns"
  using assms by (simp add: ring_def)

lemma ring_distinct: "ring h a ns \<Longrightarrow> distinct (a # ns)" and ring_NULL: "ring h a ns \<Longrightarrow> NULL \<notin> set (a # ns)"
  by (simp_all add: ring_def)

lemma ring_cong:
  assumes "ring h a ns" "\<And>n. n \<in> set (a # ns) \<Longrightarrow> ln_next (h' n) = ln_next (h n) \<and> ln_prev (h' n) = ln_prev (h n)"
  shows "ring h' a ns"
proof (rule ringI)
  show "map (\<lambda>n. ln_next (h' n)) (a # ns) = ns @ [a]"
    using assms(2) assms(1) [unfolded ring_def] map_cong [OF refl, of "a # ns" "\<lambda>n. ln_next (h' n)" "\<lambda>n. ln_next (h n)"] by simp
  show "map (\<lambda>n. ln_prev (h' n)) (ns @ [a]) = a # ns"
    using assms(2) assms(1) [unfolded ring_def] map_cong [OF refl, of "ns @ [a]" "\<lambda>n. ln_prev (h' n)" "\<lambda>n. ln_prev (h n)"] by simp
qed (use assms(1) in \<open>simp_all add: ring_def\<close>)

lemma ring_cut:
  assumes "a # us = cs @ [p]" "vs @ [a] = q # ds"
  shows "ring h a (us @ vs) \<longleftrightarrow> distinct (a # us @ vs) \<and> NULL \<notin> set (a # us @ vs) \<and>
     map (\<lambda>n. ln_next (h n)) cs = us \<and> ln_next (h p) = q \<and> map (\<lambda>n. ln_next (h n)) vs = ds \<and>
     map (\<lambda>n. ln_prev (h n)) us = cs \<and> ln_prev (h q) = p \<and> map (\<lambda>n. ln_prev (h n)) ds = vs"
proof -
  have len: "length us = length cs" "length vs = length ds"
    using assms [THEN arg_cong [where f = length]] by simp_all
  have e: "a # us @ vs = cs @ p # vs" "(us @ vs) @ [a] = us @ q # ds" using assms by simp_all
  have n: "map (\<lambda>n. ln_next (h n)) (a # us @ vs) = (us @ vs) @ [a] \<longleftrightarrow>
      map (\<lambda>n. ln_next (h n)) cs = us \<and> ln_next (h p) = q \<and> map (\<lambda>n. ln_next (h n)) vs = ds"
    unfolding e using len by (simp add: append_eq_append_conv)
  have p: "map (\<lambda>n. ln_prev (h n)) ((us @ vs) @ [a]) = a # us @ vs \<longleftrightarrow>
      map (\<lambda>n. ln_prev (h n)) us = cs \<and> ln_prev (h q) = p \<and> map (\<lambda>n. ln_prev (h n)) ds = vs"
    unfolding e using len by (simp add: append_eq_append_conv)
  show ?thesis unfolding ring_def n p by blast
qed

lemma cut_ends:
  obtains cs p q ds where "a # us = cs @ [p]" "vs @ [a] = q # ds"
  by (metis append_butlast_last_id append_is_Nil_conv list.distinct(1) list.exhaust)


lemma ring_cut2:
  assumes "a # us = cs @ [p]" "vs @ [a] = q # ds"
  shows "ring h a (us @ x # vs) \<longleftrightarrow> distinct (a # us @ x # vs) \<and> NULL \<notin> set (a # us @ x # vs) \<and>
     map (\<lambda>n. ln_next (h n)) cs = us \<and> ln_next (h p) = x \<and> ln_next (h x) = q \<and> map (\<lambda>n. ln_next (h n)) vs = ds \<and>
     map (\<lambda>n. ln_prev (h n)) us = cs \<and> ln_prev (h x) = p \<and> ln_prev (h q) = x \<and> map (\<lambda>n. ln_prev (h n)) ds = vs"
  using ring_cut [of a us cs p "x # vs" x "vs @ [a]" h] assms by auto

lemma cut_sets:
  assumes "a # us = cs @ [p]" "vs @ [a] = q # ds" "distinct (a # us @ vs)"
  shows "p \<notin> set cs" "p \<notin> set vs" "q \<notin> set us" "q \<notin> set ds"
    "set cs \<subseteq> set (a # us @ vs)" "set ds \<subseteq> set (a # us @ vs)" "p \<in> set (a # us @ vs)" "q \<in> set (a # us @ vs)"
proof -
  have e: "a # us @ vs = cs @ p # vs" "us @ vs @ [a] = us @ q # ds" using assms by simp_all
  have d: "distinct (cs @ p # vs)" using assms(3) e(1) by simp
  have "distinct (us @ vs @ [a])" using assms(3) by auto
  then have d': "distinct (us @ q # ds)" using e(2) by simp
  show "p \<notin> set cs" "p \<notin> set vs" "q \<notin> set us" "q \<notin> set ds" using d d' by auto
  have "set (a # us @ vs) = set (cs @ p # vs)" "set (a # us @ vs) = set (us @ q # ds)"
    using e [THEN arg_cong [where f = set]] by auto
  then show "set cs \<subseteq> set (a # us @ vs)" "set ds \<subseteq> set (a # us @ vs)" "p \<in> set (a # us @ vs)" "q \<in> set (a # us @ vs)"
    by auto
qed

lemma map_next_cong:
  "map (\<lambda>n. ln_next (h n)) xs = ys \<Longrightarrow> (\<And>n. n \<in> set xs \<Longrightarrow> ln_next (h' n) = ln_next (h n)) \<Longrightarrow> map (\<lambda>n. ln_next (h' n)) xs = ys"
  and map_prev_cong:
  "map (\<lambda>n. ln_prev (h n)) xs = ys \<Longrightarrow> (\<And>n. n \<in> set xs \<Longrightarrow> ln_prev (h' n) = ln_prev (h n)) \<Longrightarrow> map (\<lambda>n. ln_prev (h' n)) xs = ys"
  by auto

definition same_but :: "addr set \<Rightarrow> store \<Rightarrow> store \<Rightarrow> bool" where
  "same_but A h h' \<longleftrightarrow> (\<forall>n. n \<notin> A \<longrightarrow> ln_next (h' n) = ln_next (h n) \<and> ln_prev (h' n) = ln_prev (h n))"

lemma ring_frame:
  "same_but A h h' \<Longrightarrow> ring h a ns \<Longrightarrow> set (a # ns) \<inter> A = {} \<Longrightarrow> ring h' a ns"
  by (erule ring_cong) (auto simp: same_but_def)

text \<open>
  Linking a node \<open>x\<close> in between the neighbours \<open>p\<close> and \<open>q\<close>, unlinking it, and putting another in its place,
  described by the pointers that change.
\<close>

lemma ring_insert:
  assumes r: "ring h a (us @ vs)" and e: "a # us = cs @ [p]" "vs @ [a] = q # ds"
    and x: "x \<notin> set (a # us @ vs)" "x \<noteq> NULL"
    and n: "\<And>n. ln_next (h' n) = (if n = p then x else if n = x then q else ln_next (h n))"
    and v: "\<And>n. ln_prev (h' n) = (if n = q then x else if n = x then p else ln_prev (h n))"
  shows "ring h' a (us @ x # vs)" "same_but (set (a # us @ x # vs)) h h'"
proof -
  note c = r [unfolded ring_cut [OF e]]
  have m: "map (\<lambda>n. ln_next (h n)) cs = us" "map (\<lambda>n. ln_next (h n)) vs = ds" "map (\<lambda>n. ln_prev (h n)) us = cs" "map (\<lambda>n. ln_prev (h n)) ds = vs" using c by blast+
  note s = cut_sets [OF e conjunct1 [OF c]]
  have cs: "x \<notin> set cs" "x \<notin> set ds" "x \<noteq> p" "x \<noteq> q" using s x by auto
  show "ring h' a (us @ x # vs)"
    unfolding ring_cut2 [OF e]
  proof (intro conjI)
    show "map (\<lambda>n. ln_next (h' n)) cs = us"
      by (rule map_next_cong [OF m(1)]) (use s cs x in \<open>auto simp: n\<close>)
    show "map (\<lambda>n. ln_next (h' n)) vs = ds"
      by (rule map_next_cong [OF m(2)]) (use s cs x in \<open>auto simp: n\<close>)
    show "map (\<lambda>n. ln_prev (h' n)) us = cs"
      by (rule map_prev_cong [OF m(3)]) (use s cs x in \<open>auto simp: v\<close>)
    show "map (\<lambda>n. ln_prev (h' n)) ds = vs"
      by (rule map_prev_cong [OF m(4)]) (use s cs x in \<open>auto simp: v\<close>)
  qed (use c x cs in \<open>auto simp: n v\<close>)
  show "same_but (set (a # us @ x # vs)) h h'"
    using s by (auto simp: same_but_def n v)
qed

lemma ring_remove:
  assumes r: "ring h a (us @ x # vs)" and e: "a # us = cs @ [p]" "vs @ [a] = q # ds"
    and n: "\<And>n. ln_next (h' n) = (if n = p then q else if n = x then NULL else ln_next (h n))"
    and v: "\<And>n. ln_prev (h' n) = (if n = q then p else if n = x then NULL else ln_prev (h n))"
  shows "ring h' a (us @ vs)" "same_but (set (a # us @ x # vs)) h h'"
proof -
  note c = r [unfolded ring_cut2 [OF e]]
  have m: "map (\<lambda>n. ln_next (h n)) cs = us" "map (\<lambda>n. ln_next (h n)) vs = ds" "map (\<lambda>n. ln_prev (h n)) us = cs" "map (\<lambda>n. ln_prev (h n)) ds = vs" using c by blast+
  have d: "distinct (a # us @ vs)" "x \<notin> set (a # us @ vs)" using c by auto
  note s = cut_sets [OF e d(1)]
  have cs: "x \<notin> set cs" "x \<notin> set ds" "x \<noteq> p" "x \<noteq> q" using s d by auto
  show "ring h' a (us @ vs)"
    unfolding ring_cut [OF e]
  proof (intro conjI)
    show "map (\<lambda>n. ln_next (h' n)) cs = us"
      by (rule map_next_cong [OF m(1)]) (use s cs d in \<open>auto simp: n\<close>)
    show "map (\<lambda>n. ln_next (h' n)) vs = ds"
      by (rule map_next_cong [OF m(2)]) (use s cs d in \<open>auto simp: n\<close>)
    show "map (\<lambda>n. ln_prev (h' n)) us = cs"
      by (rule map_prev_cong [OF m(3)]) (use s cs d in \<open>auto simp: v\<close>)
    show "map (\<lambda>n. ln_prev (h' n)) ds = vs"
      by (rule map_prev_cong [OF m(4)]) (use s cs d in \<open>auto simp: v\<close>)
  qed (use c d cs in \<open>auto simp: n v\<close>)
  show "same_but (set (a # us @ x # vs)) h h'"
    using s by (auto simp: same_but_def n v)
qed

lemma ring_replace:
  assumes r: "ring h a (us @ x # vs)" and e: "a # us = cs @ [p]" "vs @ [a] = q # ds"
    and y: "y \<notin> set (a # us @ x # vs)" "y \<noteq> NULL"
    and n: "\<And>n. ln_next (h' n) = (if n = p then y else if n = y then q else if n = x then NULL else ln_next (h n))"
    and v: "\<And>n. ln_prev (h' n) = (if n = q then y else if n = y then p else if n = x then NULL else ln_prev (h n))"
  shows "ring h' a (us @ y # vs)" "same_but (set (a # us @ [x, y] @ vs)) h h'"
proof -
  note c = r [unfolded ring_cut2 [OF e]]
  have m: "map (\<lambda>n. ln_next (h n)) cs = us" "map (\<lambda>n. ln_next (h n)) vs = ds" "map (\<lambda>n. ln_prev (h n)) us = cs" "map (\<lambda>n. ln_prev (h n)) ds = vs" using c by blast+
  have d: "distinct (a # us @ vs)" "x \<notin> set (a # us @ vs)" using c by auto
  note s = cut_sets [OF e d(1)]
  have cs: "x \<notin> set cs" "x \<notin> set ds" "y \<notin> set cs" "y \<notin> set ds" "y \<noteq> p" "y \<noteq> q" using s d y by auto
  show "ring h' a (us @ y # vs)"
    unfolding ring_cut2 [OF e]
  proof (intro conjI)
    show "map (\<lambda>n. ln_next (h' n)) cs = us"
      by (rule map_next_cong [OF m(1)]) (use s cs d y in \<open>auto simp: n\<close>)
    show "map (\<lambda>n. ln_next (h' n)) vs = ds"
      by (rule map_next_cong [OF m(2)]) (use s cs d y in \<open>auto simp: n\<close>)
    show "map (\<lambda>n. ln_prev (h' n)) us = cs"
      by (rule map_prev_cong [OF m(3)]) (use s cs d y in \<open>auto simp: v\<close>)
    show "map (\<lambda>n. ln_prev (h' n)) ds = vs"
      by (rule map_prev_cong [OF m(4)]) (use s cs d y in \<open>auto simp: v\<close>)
  qed (use c d y cs in \<open>auto simp: n v\<close>)
  show "same_but (set (a # us @ [x, y] @ vs)) h h'"
    using s by (auto simp: same_but_def n v)
qed

lemma ring_empty: "ring h a [] \<longleftrightarrow> a \<noteq> NULL \<and> ln_next (h a) = a \<and> ln_prev (h a) = a"
  by (auto simp: ring_def)

lemma ring_splice:
  assumes r: "ring h a xs" "ring h b ys" and dj: "set (a # xs) \<inter> set (b # ys) = {}"
    and e: "a # xs = cs @ [p]" "ys = q # rest" "ys = init @ [l]"
    and n: "\<And>n. ln_next (h' n) = (if n = b then b else if n = l then a else if n = p then q else ln_next (h n))"
    and v: "\<And>n. ln_prev (h' n) = (if n = b then b else if n = a then l else if n = q then p else ln_prev (h n))"
  shows "ring h' a (xs @ ys)" "ring h' b []" "same_but (set (a # xs) \<union> set (b # ys)) h h'"
proof -
  have c: "distinct (a # xs)" "NULL \<notin> set (a # xs)" "map (\<lambda>n. ln_next (h n)) cs = xs" "map (\<lambda>n. ln_prev (h n)) xs = cs"
    using r(1) ring_cut [of a xs cs p "[]" a "[]" h] e(1) by auto
  have len: "length init = length rest" using e(2,3) [THEN arg_cong [where f = length]] by simp
  have "map (\<lambda>n. ln_next (h n)) (b # init @ [l]) = q # rest @ [b]" "map (\<lambda>n. ln_prev (h n)) (q # rest @ [b]) = b # init @ [l]"
    using r(2) e(2,3) unfolding ring_def by (metis append_Cons)+
  then have m: "map (\<lambda>n. ln_next (h n)) init = rest" "map (\<lambda>n. ln_prev (h n)) rest = init"
    using len by (simp_all add: append_eq_append_conv)
  have d: "distinct (b # ys)" "NULL \<notin> set (b # ys)" using r(2) by (auto simp: ring_def)
  have sx: "set (a # xs) = insert p (set cs)" "p \<notin> set cs"
    using e(1) c(1) by (metis set_append list.set(1,2) Un_insert_right sup_bot_right, metis c(1) distinct_append disjoint_insert(1) inf_sup_ord(1) list.set_intros(1) not_distinct_conv_prefix)
  have sy: "set ys = insert q (set rest)" "set ys = insert l (set init)" "q \<notin> set rest" "l \<notin> set init"
  proof -
    show "set ys = insert q (set rest)" "q \<notin> set rest" using e(2) d(1) by auto
    show "set ys = insert l (set init)" "l \<notin> set init" using d(1) unfolding e(3) by auto
  qed
  show "ring h' a (xs @ ys)"
  proof (rule ringI)
    have "map (\<lambda>n. ln_next (h' n)) cs = xs"
      by (rule map_next_cong [OF c(3)]) (use sx sy dj in \<open>auto simp: n\<close>)
    moreover have "map (\<lambda>n. ln_next (h' n)) init = rest"
      by (rule map_next_cong [OF m(1)]) (use sx sy dj d in \<open>auto simp: n\<close>)
    moreover have "ln_next (h' p) = q" "ln_next (h' l) = a" using sx sy dj d by (auto simp: n)
    moreover have "a # xs @ ys = cs @ p # init @ [l]" "(xs @ ys) @ [a] = xs @ q # rest @ [a]" using e by simp_all
    ultimately show "map (\<lambda>n. ln_next (h' n)) (a # xs @ ys) = (xs @ ys) @ [a]" by (simp only: map_append list.map append.simps)
    have "map (\<lambda>n. ln_prev (h' n)) xs = cs"
      by (rule map_prev_cong [OF c(4)]) (use sx sy dj c(1) in \<open>auto simp: v\<close>)
    moreover have "map (\<lambda>n. ln_prev (h' n)) rest = init"
      by (rule map_prev_cong [OF m(2)]) (use sx sy dj d in \<open>auto simp: v\<close>)
    moreover have "ln_prev (h' q) = p" "ln_prev (h' a) = l" using sx sy dj d by (auto simp: v)
    moreover have "a # xs @ ys = cs @ p # init @ [l]" "(xs @ ys) @ [a] = xs @ q # rest @ [a]" using e by simp_all
    ultimately show "map (\<lambda>n. ln_prev (h' n)) ((xs @ ys) @ [a]) = a # xs @ ys" by (simp only: map_append list.map append.simps)
  qed (use c d dj in auto)
  show "ring h' b []" using d by (simp add: ring_empty n v)
  show "same_but (set (a # xs) \<union> set (b # ys)) h h'"
    using sx sy by (auto simp: same_but_def n v)
qed

section \<open>The operations on rings\<close>

lemma insert_after_node_ring:
  assumes r: "ring h a (us @ vs)" and e: "a # us = cs @ [p]"
    and x: "list_d2l l x \<notin> set (a # us @ vs)" "list_d2l l x \<noteq> NULL"
  shows "ring (list_insert_after_node l p x h) a (us @ list_d2l l x # vs)"
    "same_but (set (a # us @ list_d2l l x # vs)) h (list_insert_after_node l p x h)"
proof -
  obtain q ds where e': "vs @ [a] = q # ds" by (cases vs) auto
  have "ln_next (h p) = q" "list_d2l l x \<noteq> p"
    using r ring_cut [OF e e'] cut_sets [OF e e'] x by (blast, metis ring_distinct)
  then have "ln_next (list_insert_after_node l p x h n) = (if n = p then list_d2l l x else if n = list_d2l l x then q else ln_next (h n))"
    "ln_prev (list_insert_after_node l p x h n) = (if n = q then list_d2l l x else if n = list_d2l l x then p else ln_prev (h n))" for n
    by (auto simp: list_insert_after_node_def Let_def)
  from ring_insert [OF r e e' x this]
  show "ring (list_insert_after_node l p x h) a (us @ list_d2l l x # vs)"
    "same_but (set (a # us @ list_d2l l x # vs)) h (list_insert_after_node l p x h)" .
qed

lemma insert_before_node_ring:
  assumes r: "ring h a (us @ vs)" and e: "vs @ [a] = q # ds"
    and x: "list_d2l l x \<notin> set (a # us @ vs)" "list_d2l l x \<noteq> NULL"
  shows "ring (list_insert_before_node l q x h) a (us @ list_d2l l x # vs)"
    "same_but (set (a # us @ list_d2l l x # vs)) h (list_insert_before_node l q x h)"
proof -
  obtain cs p where e': "a # us = cs @ [p]" using rev_exhaust [of "a # us"] by blast
  have "ln_prev (h q) = p" "list_d2l l x \<noteq> q"
    using r ring_cut [OF e' e] cut_sets [OF e' e] x by (blast, metis ring_distinct)
  then have "ln_next (list_insert_before_node l q x h n) = (if n = p then list_d2l l x else if n = list_d2l l x then q else ln_next (h n))"
    "ln_prev (list_insert_before_node l q x h n) = (if n = q then list_d2l l x else if n = list_d2l l x then p else ln_prev (h n))" for n
    by (auto simp: list_insert_before_node_def Let_def)
  from ring_insert [OF r e' e x this]
  show "ring (list_insert_before_node l q x h) a (us @ list_d2l l x # vs)"
    "same_but (set (a # us @ list_d2l l x # vs)) h (list_insert_before_node l q x h)" .
qed

lemma remove_node_ring:
  assumes r: "ring h a (us @ x # vs)"
  shows "ring (list_remove_node x h) a (us @ vs)" "same_but (set (a # us @ x # vs)) h (list_remove_node x h)"
proof -
  obtain cs p q ds where e: "a # us = cs @ [p]" "vs @ [a] = q # ds" by (rule cut_ends)
  note c = r [unfolded ring_cut2 [OF e]]
  have "x \<noteq> p" "x \<noteq> q" "ln_next (h x) = q" "ln_prev (h x) = p" using c cut_sets(7,8) [OF e] by auto
  then have "ln_next (list_remove_node x h n) = (if n = p then q else if n = x then NULL else ln_next (h n))"
    "ln_prev (list_remove_node x h n) = (if n = q then p else if n = x then NULL else ln_prev (h n))" for n
    by (auto simp: list_remove_node_def Let_def)
  from ring_remove [OF r e this]
  show "ring (list_remove_node x h) a (us @ vs)" "same_but (set (a # us @ x # vs)) h (list_remove_node x h)" .
qed

lemma link_replace_ring:
  assumes r: "ring h a (us @ x # vs)" and y: "y \<notin> set (a # us @ x # vs)" "y \<noteq> NULL"
  shows "ring (list_link_replace x y h) a (us @ y # vs)" "same_but (set (a # us @ [x, y] @ vs)) h (list_link_replace x y h)"
proof -
  obtain cs p q ds where e: "a # us = cs @ [p]" "vs @ [a] = q # ds" by (rule cut_ends)
  note c = r [unfolded ring_cut2 [OF e]]
  have "x \<noteq> p" "x \<noteq> q" "y \<noteq> p" "y \<noteq> q" "y \<noteq> x" "ln_next (h x) = q" "ln_prev (h x) = p" using c y cut_sets(7,8) [OF e] by auto
  then have "ln_next (list_link_replace x y h n) = (if n = p then y else if n = y then q else if n = x then NULL else ln_next (h n))"
    "ln_prev (list_link_replace x y h n) = (if n = q then y else if n = y then p else if n = x then NULL else ln_prev (h n))" for n
    by (auto simp: list_link_replace_def Let_def)
  from ring_replace [OF r e y this]
  show "ring (list_link_replace x y h) a (us @ y # vs)" "same_but (set (a # us @ [x, y] @ vs)) h (list_link_replace x y h)" .
qed

lemma move_tail_ring:
  assumes r: "ring h (list_head_at d) xs" "ring h (list_head_at s) ys"
    and dj: "set (list_head_at d # xs) \<inter> set (list_head_at s # ys) = {}"
  shows "ring (list_move_tail d s h) (list_head_at d) (xs @ ys)" "ring (list_move_tail d s h) (list_head_at s) []"
    "same_but (set (list_head_at d # xs) \<union> set (list_head_at s # ys)) h (list_move_tail d s h)"
proof -
  let ?a = "list_head_at d" and ?b = "list_head_at s" and ?h = "list_move_tail d s h"
  have "ring ?h ?a (xs @ ys) \<and> ring ?h ?b [] \<and> same_but (set (?a # xs) \<union> set (?b # ys)) h ?h"
  proof (cases ys rule: rev_cases)
    case Nil
    then have "list_empty s h" using r(2) by (simp add: ring_def list_empty_def)
    then show ?thesis using r Nil by (simp add: list_move_tail_def same_but_def)
  next
    case (snoc init l)
    then obtain q rest where q: "ys = q # rest" by (metis list.exhaust append_is_Nil_conv not_Cons_self2)
    obtain cs p where e: "?a # xs = cs @ [p]" using rev_exhaust [of "?a # xs"] by blast
    have "ln_next (h ?b) = q" "q \<noteq> ?b" "ln_prev (h ?b) = l"
      using r(2) ring_cut [of ?b "[]" "[]" ?b ys q "rest @ [?b]" h] ring_cut [of ?b ys "?b # init" l "[]" ?b "[]" h] q snoc
      by auto
    moreover have "ln_prev (h ?a) = p" using r(1) ring_cut [of ?a xs cs p "[]" ?a "[]" h] e by auto
    moreover have mem: "p \<in> set (?a # xs)" using e by (metis in_set_conv_decomp)
    have mem': "q \<in> set ys" using q by simp
    have mem'': "l \<in> set ys" using snoc by simp
    have "?b \<notin> set ys" using r(2) by (simp add: ring_def)
    then have "?a \<noteq> ?b" "p \<noteq> ?b" "p \<noteq> q" "p \<noteq> l" "l \<noteq> ?b" "?a \<noteq> q" "?a \<noteq> l"
      using dj mem mem' mem'' by auto
    ultimately have "ln_next (?h n) = (if n = ?b then ?b else if n = l then ?a else if n = p then q else ln_next (h n))"
      "ln_prev (?h n) = (if n = ?b then ?b else if n = ?a then l else if n = q then p else ln_prev (h n))" for n
      by (auto simp: list_move_tail_def list_empty_def Let_def)
    from ring_splice [OF r dj e q snoc this] show ?thesis by blast
  qed
  then show "ring ?h ?a (xs @ ys)" "ring ?h ?b []" "same_but (set (?a # xs) \<union> set (?b # ys)) h ?h" by blast+
qed

section \<open>Lists of objects\<close>

definition nodes :: "list_t \<Rightarrow> addr list \<Rightarrow> addr set" where
  "nodes l xs = set (list_head_at l # map (list_d2l l) xs)"

definition represents :: "store \<Rightarrow> list_t \<Rightarrow> addr list \<Rightarrow> bool" where
  \<comment> \<open>the objects on the list \<open>l\<close> are \<open>xs\<close>, in this order\<close>
  "represents h l xs \<longleftrightarrow> ring h (list_head_at l) (map (list_d2l l) xs) \<and> NULL \<notin> set xs"

definition off_list :: "list_t \<Rightarrow> addr list \<Rightarrow> addr \<Rightarrow> bool" where
  "off_list l xs x \<longleftrightarrow> x \<noteq> NULL \<and> list_d2l l x \<noteq> NULL \<and> list_d2l l x \<notin> nodes l xs"

lemma representsD: "represents h l xs \<Longrightarrow> ring h (list_head_at l) (map (list_d2l l) xs)" "represents h l xs \<Longrightarrow> NULL \<notin> set xs"
  by (simp_all add: represents_def)

lemma represents_distinct: "represents h l xs \<Longrightarrow> distinct xs"
  by (simp add: represents_def ring_def distinct_map)

lemma represents_frame:
  "represents h l xs \<Longrightarrow> same_but A h h' \<Longrightarrow> nodes l xs \<inter> A = {} \<Longrightarrow> represents h' l xs"
  unfolding represents_def nodes_def by (blast intro: ring_frame)

lemma insert_between:
  assumes r: "represents h l (us @ vs)" and x: "off_list l (us @ vs) x"
  shows "represents (list_insert_after_node l (last (list_head_at l # map (list_d2l l) us)) x h) l (us @ x # vs)"
    "same_but (nodes l (us @ x # vs)) h (list_insert_after_node l (last (list_head_at l # map (list_d2l l) us)) x h)"
    "represents (list_insert_before_node l (hd (map (list_d2l l) vs @ [list_head_at l])) x h) l (us @ x # vs)"
    "same_but (nodes l (us @ x # vs)) h (list_insert_before_node l (hd (map (list_d2l l) vs @ [list_head_at l])) x h)"
proof -
  let ?a = "list_head_at l" and ?d = "list_d2l l"
  have r': "ring h ?a (map ?d us @ map ?d vs)" using representsD(1) [OF r] by simp
  have x': "?d x \<notin> set (?a # map ?d us @ map ?d vs)" "?d x \<noteq> NULL" using x by (auto simp: off_list_def nodes_def)
  have e: "?a # map ?d us = butlast (?a # map ?d us) @ [last (?a # map ?d us)]" by (metis append_butlast_last_id list.distinct(1))
  have e': "map ?d vs @ [?a] = hd (map ?d vs @ [?a]) # tl (map ?d vs @ [?a])" by simp
  have 0: "NULL \<notin> set (us @ x # vs)" using representsD(2) [OF r] x by (auto simp: off_list_def)
  note i = insert_after_node_ring [OF r' e x'] insert_before_node_ring [OF r' e' x']
  show "represents (list_insert_after_node l (last (?a # map ?d us)) x h) l (us @ x # vs)"
    "represents (list_insert_before_node l (hd (map ?d vs @ [?a])) x h) l (us @ x # vs)"
    using i(1,3) 0 by (simp_all add: represents_def del: last.simps)
  show "same_but (nodes l (us @ x # vs)) h (list_insert_after_node l (last (?a # map ?d us)) x h)"
    "same_but (nodes l (us @ x # vs)) h (list_insert_before_node l (hd (map ?d vs @ [?a])) x h)"
    using i(2,4) by (simp_all add: nodes_def del: last.simps)
qed

lemma list_insert_head:
  assumes "represents h l xs" "off_list l xs x"
  shows "represents (list_insert_head l x h) l (x # xs)" "same_but (nodes l (x # xs)) h (list_insert_head l x h)"
  using insert_between(1,2) [of h l "[]" xs x] assms by (simp_all add: list_insert_head_def)

lemma list_insert_tail:
  assumes "represents h l xs" "off_list l xs x"
  shows "represents (list_insert_tail l x h) l (xs @ [x])" "same_but (nodes l (xs @ [x])) h (list_insert_tail l x h)"
  using insert_between(3,4) [of h l xs "[]" x] assms by (simp_all add: list_insert_tail_def)

lemma list_insert_after:
  assumes "represents h l (us @ y # vs)" "off_list l (us @ y # vs) x"
  shows "represents (list_insert_after l y x h) l (us @ y # x # vs)" "same_but (nodes l (us @ y # x # vs)) h (list_insert_after l y x h)"
  using insert_between(1,2) [of h l "us @ [y]" vs x] assms representsD(2) [OF assms(1)]
  by (auto simp: list_insert_after_def)

lemma list_insert_before:
  assumes "represents h l (us @ y # vs)" "off_list l (us @ y # vs) x"
  shows "represents (list_insert_before l y x h) l (us @ x # y # vs)" "same_but (nodes l (us @ x # y # vs)) h (list_insert_before l y x h)"
  using insert_between(3,4) [of h l us "y # vs" x] assms representsD(2) [OF assms(1)]
  by (auto simp: list_insert_before_def)

lemma list_remove:
  assumes "represents h l (us @ x # vs)"
  shows "represents (list_remove l x h) l (us @ vs)" "same_but (nodes l (us @ x # vs)) h (list_remove l x h)"
  using remove_node_ring [of h "list_head_at l" "map (list_d2l l) us" "list_d2l l x" "map (list_d2l l) vs"] assms
  by (auto simp: represents_def list_remove_def nodes_def)

lemma list_link_replace:
  assumes "represents h l (us @ x # vs)" "off_list l (us @ x # vs) y"
  shows "represents (list_link_replace (list_d2l l x) (list_d2l l y) h) l (us @ y # vs)"
    "same_but (nodes l (us @ [x, y] @ vs)) h (list_link_replace (list_d2l l x) (list_d2l l y) h)"
  using link_replace_ring [of h "list_head_at l" "map (list_d2l l) us" "list_d2l l x" "map (list_d2l l) vs" "list_d2l l y"] assms
  by (auto simp: represents_def off_list_def nodes_def)

lemma list_ends:
  assumes r: "represents h l xs"
  shows "ln_next (h (list_head_at l)) = hd (map (list_d2l l) xs @ [list_head_at l])"
    "ln_prev (h (list_head_at l)) = last (list_head_at l # map (list_d2l l) xs)"
    "list_head_at l \<notin> list_d2l l ` set xs"
proof -
  let ?a = "list_head_at l" and ?d = "list_d2l l"
  have r': "ring h ?a ([] @ map ?d xs)" "ring h ?a (map ?d xs @ [])" using representsD(1) [OF r] by simp_all
  have e: "map ?d xs @ [?a] = hd (map ?d xs @ [?a]) # tl (map ?d xs @ [?a])" by simp
  have e': "?a # map ?d xs = butlast (?a # map ?d xs) @ [last (?a # map ?d xs)]" by (metis append_butlast_last_id list.distinct(1))
  show "ln_next (h ?a) = hd (map ?d xs @ [?a])"
    using r'(1) ring_cut [of ?a "[]" "[]" ?a _ _ _ h, OF _ e] by blast
  show "ln_prev (h ?a) = last (?a # map ?d xs)"
    using r'(2) ring_cut [of ?a _ _ _ "[]" ?a "[]" h, OF e'] by blast
  show "?a \<notin> ?d ` set xs" using r'(1) by (simp add: ring_def)
qed

lemma list_empty_iff: "represents h l xs \<Longrightarrow> list_empty l h \<longleftrightarrow> xs = []"
  by (cases xs) (use list_ends(3) [of h l xs] in \<open>auto simp: list_empty_def list_ends(1)\<close>)

lemma list_head: "represents h l xs \<Longrightarrow> list_head l h = (if xs = [] then NULL else hd xs)"
  by (cases xs) (auto simp: list_head_def list_empty_iff list_ends(1))

lemma list_tail: "represents h l xs \<Longrightarrow> list_tail l h = (if xs = [] then NULL else last xs)"
  by (cases xs rule: rev_cases) (auto simp: list_tail_def list_empty_iff list_ends(2))

lemma list_neighbours:
  assumes r: "represents h l (us @ x # vs)"
  shows "list_next l x h = (if vs = [] then NULL else hd vs)" "list_prev l x h = (if us = [] then NULL else last us)"
proof -
  let ?a = "list_head_at l" and ?d = "list_d2l l"
  obtain cs p q ds where e: "?a # map ?d us = cs @ [p]" "map ?d vs @ [?a] = q # ds" by (rule cut_ends)
  have "ln_next (h (?d x)) = q" "ln_prev (h (?d x)) = p"
    using ring_cut2 [OF e, of h "?d x"] representsD(1) [OF r] by auto
  moreover have "?a \<notin> ?d ` set (us @ x # vs)" using list_ends(3) [OF r] .
  moreover have "q = hd (map ?d vs @ [?a])" using e(2) by simp
  moreover have "p = last (?a # map ?d us)" using e(1) by (metis last_snoc)
  ultimately have *: "ln_next (h (?d x)) = hd (map ?d vs @ [?a])" "ln_prev (h (?d x)) = last (?a # map ?d us)" "?a \<notin> ?d ` set (us @ x # vs)"
    by simp_all
  show "list_next l x h = (if vs = [] then NULL else hd vs)"
    using * by (cases vs) (auto simp: list_next_def Let_def)
  show "list_prev l x h = (if us = [] then NULL else last us)"
    using * by (cases us rule: rev_cases) (auto simp: list_prev_def Let_def)
qed

lemma list_remove_head:
  assumes "represents h l (x # vs)"
  shows "fst (list_remove_head l h) = x" "snd (list_remove_head l h) = list_remove l x h"
  using list_ends [OF assms] by (auto simp: list_remove_head_def list_remove_def)

lemma list_remove_tail:
  assumes "represents h l (us @ [x])"
  shows "fst (list_remove_tail l h) = x" "snd (list_remove_tail l h) = list_remove l x h"
  using list_ends [OF assms] by (auto simp: list_remove_tail_def list_remove_def)

lemma list_remove_none:
  assumes "represents h l []"
  shows "list_remove_head l h = (NULL, h)" "list_remove_tail l h = (NULL, h)"
  using list_ends [OF assms] by (auto simp: list_remove_head_def list_remove_tail_def)

section \<open>Families of lists and their specification\<close>

text \<open>
  The specification: a call, on a family of sequences of objects. It has no result for calls outside the
  contract (an object inserted is on no list, an object removed or named as neighbour is on the list, a
  list is not moved onto itself).
\<close>

datatype list_call =
    Insert_head nat addr | Insert_tail nat addr | Insert_after nat addr addr | Insert_before nat addr addr
  | Remove nat addr | Remove_head nat | Remove_tail nat | Head nat | Tail nat | Next nat addr | Prev nat addr
  | Is_empty nat | Move_tail nat nat | Link_replace nat addr addr

fun seq_insert_after :: "addr \<Rightarrow> addr \<Rightarrow> addr list \<Rightarrow> addr list" where
  "seq_insert_after y x [] = []"
| "seq_insert_after y x (z # zs) = (if z = y then z # x # zs else z # seq_insert_after y x zs)"

fun seq_insert_before :: "addr \<Rightarrow> addr \<Rightarrow> addr list \<Rightarrow> addr list" where
  "seq_insert_before y x [] = []"
| "seq_insert_before y x (z # zs) = (if z = y then x # z # zs else z # seq_insert_before y x zs)"

definition or_NULL :: "addr list \<Rightarrow> addr" where
  "or_NULL xs = (case xs of [] \<Rightarrow> NULL | x # _ \<Rightarrow> x)"

definition off_lists :: "list_t list \<Rightarrow> addr list list \<Rightarrow> nat \<Rightarrow> addr \<Rightarrow> bool" where
  "off_lists ls ss i x \<longleftrightarrow> x \<noteq> NULL \<and> list_d2l (ls ! i) x \<noteq> NULL \<and>
     (\<forall>j < length ls. list_d2l (ls ! i) x \<notin> nodes (ls ! j) (ss ! j))"

definition seq_pre :: "list_t list \<Rightarrow> addr list list \<Rightarrow> list_call \<Rightarrow> bool" where
  "seq_pre ls ss c = (case c of
     Insert_head i x \<Rightarrow> i < length ls \<and> off_lists ls ss i x
   | Insert_tail i x \<Rightarrow> i < length ls \<and> off_lists ls ss i x
   | Insert_after i y x \<Rightarrow> i < length ls \<and> off_lists ls ss i x \<and> (y = NULL \<or> y \<in> set (ss ! i))
   | Insert_before i y x \<Rightarrow> i < length ls \<and> off_lists ls ss i x \<and> (y = NULL \<or> y \<in> set (ss ! i))
   | Remove i x \<Rightarrow> i < length ls \<and> x \<in> set (ss ! i)
   | Next i x \<Rightarrow> i < length ls \<and> x \<in> set (ss ! i)
   | Prev i x \<Rightarrow> i < length ls \<and> x \<in> set (ss ! i)
   | Move_tail i j \<Rightarrow> i < length ls \<and> j < length ls \<and> i \<noteq> j \<and> list_offset (ls ! i) = list_offset (ls ! j)
   | Link_replace i x y \<Rightarrow> i < length ls \<and> off_lists ls ss i y \<and> x \<in> set (ss ! i)
   | Remove_head i \<Rightarrow> i < length ls | Remove_tail i \<Rightarrow> i < length ls
   | Head i \<Rightarrow> i < length ls | Tail i \<Rightarrow> i < length ls | Is_empty i \<Rightarrow> i < length ls)"

fun seq_call :: "list_call \<Rightarrow> addr list list \<Rightarrow> addr \<times> addr list list" where
  "seq_call (Insert_head i x) ss = (NULL, ss[i := x # ss ! i])"
| "seq_call (Insert_tail i x) ss = (NULL, ss[i := ss ! i @ [x]])"
| "seq_call (Insert_after i y x) ss = (NULL, ss[i := if y = NULL then x # ss ! i else seq_insert_after y x (ss ! i)])"
| "seq_call (Insert_before i y x) ss = (NULL, ss[i := if y = NULL then ss ! i @ [x] else seq_insert_before y x (ss ! i)])"
| "seq_call (Remove i x) ss = (NULL, ss[i := remove1 x (ss ! i)])"
| "seq_call (Remove_head i) ss = (or_NULL (ss ! i), ss[i := tl (ss ! i)])"
| "seq_call (Remove_tail i) ss = (or_NULL (rev (ss ! i)), ss[i := butlast (ss ! i)])"
| "seq_call (Head i) ss = (or_NULL (ss ! i), ss)"
| "seq_call (Tail i) ss = (or_NULL (rev (ss ! i)), ss)"
| "seq_call (Next i x) ss = (or_NULL (tl (dropWhile (\<lambda>z. z \<noteq> x) (ss ! i))), ss)"
| "seq_call (Prev i x) ss = (or_NULL (rev (takeWhile (\<lambda>z. z \<noteq> x) (ss ! i))), ss)"
| "seq_call (Is_empty i) ss = (if ss ! i = [] then 1 else 0, ss)"
| "seq_call (Move_tail i j) ss = (NULL, ss[i := ss ! i @ ss ! j, j := []])"
| "seq_call (Link_replace i x y) ss = (NULL, ss[i := map (\<lambda>z. if z = x then y else z) (ss ! i)])"

fun store_call :: "list_t list \<Rightarrow> list_call \<Rightarrow> store \<Rightarrow> addr \<times> store" where
  \<comment> \<open>the same calls of the code\<close>
  "store_call ls (Insert_head i x) h = (NULL, list_insert_head (ls ! i) x h)"
| "store_call ls (Insert_tail i x) h = (NULL, list_insert_tail (ls ! i) x h)"
| "store_call ls (Insert_after i y x) h = (NULL, list_insert_after (ls ! i) y x h)"
| "store_call ls (Insert_before i y x) h = (NULL, list_insert_before (ls ! i) y x h)"
| "store_call ls (Remove i x) h = (NULL, list_remove (ls ! i) x h)"
| "store_call ls (Remove_head i) h = list_remove_head (ls ! i) h"
| "store_call ls (Remove_tail i) h = list_remove_tail (ls ! i) h"
| "store_call ls (Head i) h = (list_head (ls ! i) h, h)"
| "store_call ls (Tail i) h = (list_tail (ls ! i) h, h)"
| "store_call ls (Next i x) h = (list_next (ls ! i) x h, h)"
| "store_call ls (Prev i x) h = (list_prev (ls ! i) x h, h)"
| "store_call ls (Is_empty i) h = (if list_is_empty (ls ! i) h then 1 else 0, h)"
| "store_call ls (Move_tail i j) h = (NULL, list_move_tail (ls ! i) (ls ! j) h)"
| "store_call ls (Link_replace i x y) h = (NULL, list_link_replace (list_d2l (ls ! i) x) (list_d2l (ls ! i) y) h)"

fun seq_calls :: "list_t list \<Rightarrow> list_call list \<Rightarrow> addr list list \<Rightarrow> (addr list \<times> addr list list) option" where
  "seq_calls ls [] ss = Some ([], ss)"
| "seq_calls ls (c # cs) ss =
     (if seq_pre ls ss c then
        let (r, ss) = seq_call c ss in do { (rs, ss) \<leftarrow> seq_calls ls cs ss; Some (r # rs, ss) }
      else None)"

fun store_calls :: "list_t list \<Rightarrow> list_call list \<Rightarrow> store \<Rightarrow> addr list \<times> store" where
  "store_calls ls [] h = ([], h)"
| "store_calls ls (c # cs) h = (let (r, h) = store_call ls c h; (rs, h) = store_calls ls cs h in (r # rs, h))"

definition lists_rep :: "store \<Rightarrow> list_t list \<Rightarrow> addr list list \<Rightarrow> bool" where
  "lists_rep h ls ss \<longleftrightarrow> length ss = length ls \<and> (\<forall>i < length ls. represents h (ls ! i) (ss ! i)) \<and>
     (\<forall>i < length ls. \<forall>j < length ls. i \<noteq> j \<longrightarrow> nodes (ls ! i) (ss ! i) \<inter> nodes (ls ! j) (ss ! j) = {})"

lemma lists_repD:
  assumes "lists_rep h ls ss"
  shows "length ss = length ls" "i < length ls \<Longrightarrow> represents h (ls ! i) (ss ! i)"
    "i < length ls \<Longrightarrow> j < length ls \<Longrightarrow> i \<noteq> j \<Longrightarrow> nodes (ls ! i) (ss ! i) \<inter> nodes (ls ! j) (ss ! j) = {}"
  using assms by (auto simp: lists_rep_def)

lemma lists_rep_update:
  assumes r: "lists_rep h ls ss" and i: "i < length ls" and r': "represents h' (ls ! i) xs"
    and f: "same_but A h h'" "A \<subseteq> nodes (ls ! i) (ss ! i) \<union> N" "nodes (ls ! i) xs \<subseteq> nodes (ls ! i) (ss ! i) \<union> N"
    and N: "\<And>j. j < length ls \<Longrightarrow> N \<inter> nodes (ls ! j) (ss ! j) = {}"
  shows "lists_rep h' ls (ss[i := xs])"
proof -
  have len: "length ss = length ls" using lists_repD(1) [OF r] .
  have o: "represents h' (ls ! j) (ss ! j)" "nodes (ls ! i) xs \<inter> nodes (ls ! j) (ss ! j) = {}" if j: "j < length ls" "j \<noteq> i" for j
  proof -
    have d: "nodes (ls ! i) (ss ! i) \<inter> nodes (ls ! j) (ss ! j) = {}" using lists_repD(3) [OF r i j(1)] j(2) by simp
    then show "represents h' (ls ! j) (ss ! j)"
      using represents_frame [OF lists_repD(2) [OF r j(1)] f(1)] f(2) N [OF j(1)] by blast
    show "nodes (ls ! i) xs \<inter> nodes (ls ! j) (ss ! j) = {}" using d f(3) N [OF j(1)] by blast
  qed
  show ?thesis
    unfolding lists_rep_def
  proof (intro conjI allI impI)
    show "length (ss[i := xs]) = length ls" using len by simp
    show "represents h' (ls ! j) (ss[i := xs] ! j)" if "j < length ls" for j
      using that o(1) r' len by (cases "j = i") simp_all
    show "nodes (ls ! j) (ss[i := xs] ! j) \<inter> nodes (ls ! k) (ss[i := xs] ! k) = {}" if "j < length ls" "k < length ls" "j \<noteq> k" for j k
      using that o(2) lists_repD(3) [OF r that] len by (cases "j = i"; cases "k = i") (auto simp: Int_commute)
  qed
qed

lemma lists_rep_insert:
  assumes r: "lists_rep h ls ss" and i: "i < length ls" and x: "off_lists ls ss i x"
    and e: "ss ! i = us @ vs" and r': "represents h' (ls ! i) (us @ x # vs)" "same_but (nodes (ls ! i) (us @ x # vs)) h h'"
  shows "lists_rep h' ls (ss[i := us @ x # vs])"
  by (rule lists_rep_update [OF r i r', of "{list_d2l (ls ! i) x}"]) (use x e in \<open>auto simp: nodes_def off_lists_def\<close>)

lemma lists_rep_remove:
  assumes r: "lists_rep h ls ss" and i: "i < length ls" and e: "ss ! i = us @ x # vs"
  shows "lists_rep (list_remove (ls ! i) x h) ls (ss[i := us @ vs])"
proof -
  have "represents h (ls ! i) (us @ x # vs)" using lists_repD(2) [OF r i] e by simp
  from list_remove [OF this] show ?thesis
    by (rule lists_rep_update [OF r i, of _ _ _ "{}"]) (auto simp: nodes_def e)
qed

lemma off_lists_off_list: "off_lists ls ss i x \<Longrightarrow> i < length ls \<Longrightarrow> off_list (ls ! i) (ss ! i) x"
  by (simp add: off_lists_def off_list_def)

lemma split_once:
  assumes "y \<in> set xs" "distinct xs"
  obtains us vs where "xs = us @ y # vs" "y \<notin> set us" "y \<notin> set vs"
  using assms by (metis split_list distinct.simps(2) distinct_append not_distinct_conv_prefix)

lemma seq_split:
  assumes "y \<notin> set us" "y \<notin> set vs"
  shows "seq_insert_after y x (us @ y # vs) = us @ y # x # vs" "seq_insert_before y x (us @ y # vs) = us @ x # y # vs"
    "remove1 y (us @ y # vs) = us @ vs" "dropWhile (\<lambda>z. z \<noteq> y) (us @ y # vs) = y # vs"
    "takeWhile (\<lambda>z. z \<noteq> y) (us @ y # vs) = us" "map (\<lambda>z. if z = y then x else z) (us @ y # vs) = us @ x # vs"
proof -
  show "seq_insert_after y x (us @ y # vs) = us @ y # x # vs" "seq_insert_before y x (us @ y # vs) = us @ x # y # vs"
    using assms(1) by (induction us) auto
  show "dropWhile (\<lambda>z. z \<noteq> y) (us @ y # vs) = y # vs" "takeWhile (\<lambda>z. z \<noteq> y) (us @ y # vs) = us"
    using assms(1) by (induction us) auto
  show "map (\<lambda>z. if z = y then x else z) (us @ y # vs) = us @ x # vs"
    using assms by (auto intro!: map_idI)
qed (use assms in \<open>simp add: remove1_append\<close>)

lemma or_NULL_simps [simp]: "or_NULL (x # xs) = x" "or_NULL [] = NULL"
  by (simp_all add: or_NULL_def)

lemma or_NULL_eq: "or_NULL xs = (if xs = [] then NULL else hd xs)" "or_NULL (rev xs) = (if xs = [] then NULL else last xs)"
  by (cases xs, simp, simp) (cases xs rule: rev_cases, simp, simp)

lemma insert_refines:
  assumes r: "lists_rep h ls ss" and i: "i < length ls" and x: "off_lists ls ss i x"
  shows "lists_rep (list_insert_head (ls ! i) x h) ls (ss[i := x # ss ! i])"
    "lists_rep (list_insert_tail (ls ! i) x h) ls (ss[i := ss ! i @ [x]])"
    "y \<in> set (ss ! i) \<Longrightarrow> lists_rep (list_insert_after (ls ! i) y x h) ls (ss[i := seq_insert_after y x (ss ! i)])"
    "y \<in> set (ss ! i) \<Longrightarrow> lists_rep (list_insert_before (ls ! i) y x h) ls (ss[i := seq_insert_before y x (ss ! i)])"
proof -
  note ri = lists_repD(2) [OF r i] and xi = off_lists_off_list [OF x i]
  show "lists_rep (list_insert_head (ls ! i) x h) ls (ss[i := x # ss ! i])"
    using lists_rep_insert [OF r i x, of "[]"] list_insert_head [OF ri xi] by simp
  show "lists_rep (list_insert_tail (ls ! i) x h) ls (ss[i := ss ! i @ [x]])"
    using lists_rep_insert [OF r i x, of "ss ! i" "[]"] list_insert_tail [OF ri xi] by simp
  assume "y \<in> set (ss ! i)"
  then obtain us vs where e: "ss ! i = us @ y # vs" "y \<notin> set us" "y \<notin> set vs"
    using split_once [OF _ represents_distinct [OF ri]] by blast
  show "lists_rep (list_insert_after (ls ! i) y x h) ls (ss[i := seq_insert_after y x (ss ! i)])"
    using lists_rep_insert [OF r i x, of "us @ [y]" vs] list_insert_after [OF ri [unfolded e(1)] xi [unfolded e(1)]]
    by (simp add: e(1) seq_split(1) [OF e(2,3)])
  show "lists_rep (list_insert_before (ls ! i) y x h) ls (ss[i := seq_insert_before y x (ss ! i)])"
    using lists_rep_insert [OF r i x, of us "y # vs"] list_insert_before [OF ri [unfolded e(1)] xi [unfolded e(1)]]
    by (simp add: e(1) seq_split(2) [OF e(2,3)])
qed

lemma ends_refine:
  assumes r: "lists_rep h ls ss" and i: "i < length ls"
  shows "fst (list_remove_head (ls ! i) h) = or_NULL (ss ! i)" "lists_rep (snd (list_remove_head (ls ! i) h)) ls (ss[i := tl (ss ! i)])"
    "fst (list_remove_tail (ls ! i) h) = or_NULL (rev (ss ! i))" "lists_rep (snd (list_remove_tail (ls ! i) h)) ls (ss[i := butlast (ss ! i)])"
proof -
  note ri = lists_repD(2) [OF r i]
  have "fst (list_remove_head (ls ! i) h) = or_NULL (ss ! i) \<and> lists_rep (snd (list_remove_head (ls ! i) h)) ls (ss[i := tl (ss ! i)])"
  proof (cases "ss ! i")
    case Nil
    then show ?thesis using list_remove_none(1) [of h "ls ! i"] ri r list_update_id [of ss i] by simp
  next
    case (Cons x vs)
    then show ?thesis using list_remove_head [of h "ls ! i" x vs] ri lists_rep_remove [OF r i, of "[]" x vs] by simp
  qed
  then show "fst (list_remove_head (ls ! i) h) = or_NULL (ss ! i)" "lists_rep (snd (list_remove_head (ls ! i) h)) ls (ss[i := tl (ss ! i)])"
    by blast+
  have "fst (list_remove_tail (ls ! i) h) = or_NULL (rev (ss ! i)) \<and> lists_rep (snd (list_remove_tail (ls ! i) h)) ls (ss[i := butlast (ss ! i)])"
  proof (cases "ss ! i" rule: rev_cases)
    case Nil
    then show ?thesis using list_remove_none(2) [of h "ls ! i"] ri r list_update_id [of ss i] by simp
  next
    case (snoc us x)
    then show ?thesis using list_remove_tail [of h "ls ! i" us x] ri lists_rep_remove [OF r i, of us x "[]"] by simp
  qed
  then show "fst (list_remove_tail (ls ! i) h) = or_NULL (rev (ss ! i))" "lists_rep (snd (list_remove_tail (ls ! i) h)) ls (ss[i := butlast (ss ! i)])"
    by blast+
qed

lemma member_refines:
  assumes r: "lists_rep h ls ss" and i: "i < length ls" and x: "x \<in> set (ss ! i)"
  shows "lists_rep (list_remove (ls ! i) x h) ls (ss[i := remove1 x (ss ! i)])"
    "list_next (ls ! i) x h = or_NULL (tl (dropWhile (\<lambda>z. z \<noteq> x) (ss ! i)))"
    "list_prev (ls ! i) x h = or_NULL (rev (takeWhile (\<lambda>z. z \<noteq> x) (ss ! i)))"
    "off_lists ls ss i y \<Longrightarrow> lists_rep (list_link_replace (list_d2l (ls ! i) x) (list_d2l (ls ! i) y) h) ls
       (ss[i := map (\<lambda>z. if z = x then y else z) (ss ! i)])"
proof -
  note ri = lists_repD(2) [OF r i]
  obtain us vs where e: "ss ! i = us @ x # vs" "x \<notin> set us" "x \<notin> set vs"
    using split_once [OF x represents_distinct [OF ri]] by blast
  note s = seq_split [OF e(2,3), folded e(1)] and ri' = ri [unfolded e(1)]
  show "lists_rep (list_remove (ls ! i) x h) ls (ss[i := remove1 x (ss ! i)])"
    using lists_rep_remove [OF r i e(1)] s(3) by simp
  show "list_next (ls ! i) x h = or_NULL (tl (dropWhile (\<lambda>z. z \<noteq> x) (ss ! i)))"
    "list_prev (ls ! i) x h = or_NULL (rev (takeWhile (\<lambda>z. z \<noteq> x) (ss ! i)))"
    using list_neighbours [OF ri'] s(4,5) by (simp_all add: or_NULL_eq hd_rev)
  assume y: "off_lists ls ss i y"
  have "lists_rep (list_link_replace (list_d2l (ls ! i) x) (list_d2l (ls ! i) y) h) ls (ss[i := us @ y # vs])"
    by (rule lists_rep_update [OF r i list_link_replace [OF ri' off_lists_off_list [OF y i, unfolded e(1)]], of "{list_d2l (ls ! i) y}"])
      (use y e in \<open>auto simp: nodes_def off_lists_def\<close>)
  then show "lists_rep (list_link_replace (list_d2l (ls ! i) x) (list_d2l (ls ! i) y) h) ls
       (ss[i := map (\<lambda>z. if z = x then y else z) (ss ! i)])"
    using s(6) by simp
qed

lemma move_refines:
  assumes r: "lists_rep h ls ss" and i: "i < length ls" "j < length ls" "i \<noteq> j" and off: "list_offset (ls ! i) = list_offset (ls ! j)"
  shows "lists_rep (list_move_tail (ls ! i) (ls ! j) h) ls (ss[i := ss ! i @ ss ! j, j := []])"
proof -
  let ?h = "list_move_tail (ls ! i) (ls ! j) h" and ?A = "nodes (ls ! i) (ss ! i) \<union> nodes (ls ! j) (ss ! j)"
  have d: "list_d2l (ls ! j) = list_d2l (ls ! i)" using off by (simp add: list_d2l_def fun_eq_iff)
  note len = lists_repD(1) [OF r] and ri = lists_repD(2) [OF r i(1)] lists_repD(2) [OF r i(2)]
  have m: "ring ?h (list_head_at (ls ! i)) (map (list_d2l (ls ! i)) (ss ! i) @ map (list_d2l (ls ! j)) (ss ! j))"
    "ring ?h (list_head_at (ls ! j)) []" "same_but ?A h ?h"
    using move_tail_ring [OF representsD(1) [OF ri(1)] representsD(1) [OF ri(2)]] lists_repD(3) [OF r i] by (auto simp: nodes_def)
  have ns: "nodes (ls ! i) (ss ! i @ ss ! j) \<subseteq> ?A" "nodes (ls ! j) [] \<subseteq> ?A" "nodes (ls ! i) (ss ! i @ ss ! j) \<inter> nodes (ls ! j) [] = {}"
    using lists_repD(3) [OF r i] list_ends(3) [OF ri(2)] d by (auto simp: nodes_def)
  have o: "nodes (ls ! k) (ss ! k) \<inter> ?A = {}" if "k < length ls" "k \<noteq> i" "k \<noteq> j" for k
    using lists_repD(3) [OF r that(1) i(1)] lists_repD(3) [OF r that(1) i(2)] that(2,3) by blast
  show ?thesis
    unfolding lists_rep_def
  proof (intro conjI allI impI)
    show "length (ss[i := ss ! i @ ss ! j, j := []]) = length ls" using len by simp
    show "represents ?h (ls ! k) (ss[i := ss ! i @ ss ! j, j := []] ! k)" if k: "k < length ls" for k
    proof -
      consider "k = j" | "k = i" | "k \<noteq> i" "k \<noteq> j" by blast
      then show ?thesis
      proof cases
        case 1
        then show ?thesis using m(2) i len by (simp add: represents_def)
      next
        case 2
        then show ?thesis using m(1) d i len ri by (simp add: represents_def)
      next
        case 3
        then show ?thesis using represents_frame [OF lists_repD(2) [OF r k] m(3) o] k len by simp
      qed
    qed
    show "nodes (ls ! k) (ss[i := ss ! i @ ss ! j, j := []] ! k) \<inter> nodes (ls ! k') (ss[i := ss ! i @ ss ! j, j := []] ! k') = {}"
      if k: "k < length ls" "k' < length ls" "k \<noteq> k'" for k k'
    proof -
      have t: "ss[i := ss ! i @ ss ! j, j := []] ! m = (if m = j then [] else if m = i then ss ! i @ ss ! j else ss ! m)" if "m < length ls" for m
        using that len i by (simp add: nth_list_update)
      have o': "nodes (ls ! m) (ss[i := ss ! i @ ss ! j, j := []] ! m) \<subseteq> ?A" if "m = i \<or> m = j" for m
        using that ns(1,2) t [OF i(1)] t [OF i(2)] i(3) by auto
      have e: "nodes (ls ! m) (ss[i := ss ! i @ ss ! j, j := []] ! m) = nodes (ls ! m) (ss ! m)" if "m < length ls" "m \<noteq> i" "m \<noteq> j" for m
        using t [OF that(1)] that(2,3) by simp
      consider "k = i" "k' = j" | "k = j" "k' = i" | "k = i \<or> k = j" "k' \<noteq> i" "k' \<noteq> j"
        | "k \<noteq> i" "k \<noteq> j" "k' = i \<or> k' = j" | "k \<noteq> i" "k \<noteq> j" "k' \<noteq> i" "k' \<noteq> j"
        using k(3) by blast
      then show ?thesis
      proof cases
        case 1
        then show ?thesis using ns(3) t [OF i(1)] t [OF i(2)] i(3) by simp
      next
        case 2
        then show ?thesis using ns(3) t [OF i(1)] t [OF i(2)] i(3) by (simp add: Int_commute)
      next
        case 3
        then show ?thesis using o' [of k] o [of k'] e [of k'] k by blast
      next
        case 4
        then show ?thesis using o' [of k'] o [of k] e [of k] k by blast
      next
        case 5
        then show ?thesis using e k lists_repD(3) [OF r k] by simp
      qed
    qed
  qed
qed

lemma store_call_refines:
  assumes r: "lists_rep h ls ss" and pre: "seq_pre ls ss c"
  shows "fst (store_call ls c h) = fst (seq_call c ss) \<and> lists_rep (snd (store_call ls c h)) ls (snd (seq_call c ss))"
proof -
  note q = list_head [OF lists_repD(2) [OF r]] list_tail [OF lists_repD(2) [OF r]] list_empty_iff [OF lists_repD(2) [OF r]]
  have n: "list_insert_after l NULL x h = list_insert_head l x h" "list_insert_before l NULL x h = list_insert_tail l x h" for l x
    by (simp_all add: list_insert_after_def list_insert_before_def)
  show ?thesis
    using pre r
    by (cases c) (auto simp: seq_pre_def n q insert_refines ends_refine member_refines move_refines or_NULL_eq hd_rev list_is_empty_def)
qed

lemma store_calls_refine:
  assumes "lists_rep h ls ss" "seq_calls ls cs ss = Some (rs, ss')"
  shows "fst (store_calls ls cs h) = rs \<and> lists_rep (snd (store_calls ls cs h)) ls ss'"
  using assms
proof (induction cs arbitrary: h ss rs)
  case Nil
  then show ?case by simp
next
  case (Cons c cs)
  then obtain rs' where rs: "seq_pre ls ss c" "seq_calls ls cs (snd (seq_call c ss)) = Some (rs', ss')" "rs = fst (seq_call c ss) # rs'"
    by (auto simp: case_prod_beta split: if_splits bind_splits)
  note s = store_call_refines [OF Cons.prems(1) rs(1)]
  show ?case using Cons.IH [OF conjunct2 [OF s] rs(2)] s rs(3) by (simp add: case_prod_beta)
qed

fun create_lists :: "(addr \<times> u64) list \<Rightarrow> store \<Rightarrow> list_t list \<times> store" where
  \<comment> \<open>one list per pair of head address and offset\<close>
  "create_lists [] h = ([], h)"
| "create_lists ((at, off) # ps) h =
     (let (l, h) = list_create at (off + 16) off h; (ls, h) = create_lists ps h in (l # ls, h))"

lemma create_lists_frame:
  "length (fst (create_lists ps h)) = length ps" "map list_head_at (fst (create_lists ps h)) = map fst ps"
  "same_but (set (map fst ps)) h (snd (create_lists ps h))"
  by (induction ps h rule: create_lists.induct)
    (auto simp: list_create_def case_prod_beta same_but_def Let_def)

lemma create_lists_ring:
  assumes "distinct (map fst ps)" "NULL \<notin> set (map fst ps)" "p \<in> set ps"
  shows "ring (snd (create_lists ps h)) (fst p) []"
  using assms
proof (induction ps h rule: create_lists.induct)
  case (1 h)
  then show ?case by simp
next
  case (2 at off ps h)
  let ?h = "snd (list_create at (off + 16) off h)"
  show ?case
  proof (cases "p = (at, off)")
    case True
    have "ring ?h at []" using 2(3) by (simp add: ring_empty list_create_def)
    then have "ring (snd (create_lists ps ?h)) at []"
      using ring_frame [OF create_lists_frame(3)] 2(2) by simp
    then show ?thesis using True by (simp add: case_prod_beta)
  next
    case False
    then show ?thesis using 2 by (simp add: case_prod_beta list_create_def)
  qed
qed

lemma create_lists_rep:
  assumes "distinct (map fst ps)" "NULL \<notin> set (map fst ps)"
  shows "lists_rep (snd (create_lists ps h)) (fst (create_lists ps h)) (replicate (length ps) [])"
proof -
  let ?ls = "fst (create_lists ps h)"
  have at: "list_head_at (?ls ! i) = fst (ps ! i)" if "i < length ps" for i
    using that create_lists_frame(1,2) [of ps h] by (metis nth_map)
  have "ring (snd (create_lists ps h)) (fst (ps ! i)) []" if "i < length ps" for i
    by (rule create_lists_ring [OF assms]) (use that in simp)
  moreover have "fst (ps ! i) \<noteq> fst (ps ! j)" if "i < length ps" "j < length ps" "i \<noteq> j" for i j
    using assms(1) that by (metis length_map nth_eq_iff_index_eq nth_map)
  ultimately show ?thesis
    by (simp add: lists_rep_def create_lists_frame(1) represents_def nodes_def at)
qed

section \<open>Walking over a list\<close>

text \<open>
  The two loops with which the code goes over a list: \<^verbatim>\<open>for (x = list_head(l); x; x = list_next(l, x))\<close> in
  search of an object, and \<^verbatim>\<open>while (x = list_head(l)) list_remove(l, x)\<close>. The bound on the number of rounds is an
  argument; the lemmas show that one round more than there are objects is enough.
\<close>

fun walk :: "nat \<Rightarrow> (addr \<Rightarrow> addr) \<Rightarrow> (addr \<Rightarrow> bool) \<Rightarrow> addr \<Rightarrow> addr option" where
  "walk 0 nxt found x = None"
| "walk (Suc n) nxt found x = (if x = NULL then Some NULL else if found x then Some x else walk n nxt found (nxt x))"

fun drain :: "nat \<Rightarrow> ('h \<Rightarrow> addr) \<Rightarrow> (addr \<Rightarrow> 'h \<Rightarrow> 'h) \<Rightarrow> 'h \<Rightarrow> (addr list \<times> 'h) option" where
  "drain 0 first rm h = None"
| "drain (Suc n) first rm h =
     (let x = first h in
      if x = NULL then Some ([], h) else do { (xs, h) \<leftarrow> drain n first rm (rm x h); Some (x # xs, h) })"

locale object_list =
  fixes rep :: "'h \<Rightarrow> 'l \<Rightarrow> addr list \<Rightarrow> bool"
    and first :: "'l \<Rightarrow> 'h \<Rightarrow> addr"
    and following :: "'l \<Rightarrow> addr \<Rightarrow> 'h \<Rightarrow> addr"
    and unlink :: "'l \<Rightarrow> addr \<Rightarrow> 'h \<Rightarrow> 'h"
  assumes rep_NULL: "rep h l xs \<Longrightarrow> NULL \<notin> set xs"
    and first_eq: "rep h l xs \<Longrightarrow> first l h = (if xs = [] then NULL else hd xs)"
    and following_eq: "rep h l (us @ x # vs) \<Longrightarrow> following l x h = (if vs = [] then NULL else hd vs)"
    and unlink_rep: "rep h l (us @ x # vs) \<Longrightarrow> rep (unlink l x h) l (us @ vs)"
begin

lemma walk_from:
  assumes "rep h l (us @ vs)" "length vs < n"
  shows "walk n (\<lambda>x. following l x h) found (or_NULL vs) = Some (case find found vs of None \<Rightarrow> NULL | Some x \<Rightarrow> x)"
  using assms
proof (induction vs arbitrary: us n)
  case Nil
  then show ?case by (cases n) simp_all
next
  case (Cons x vs)
  then obtain m where m: "n = Suc m" by (cases n) auto
  have "x \<noteq> NULL" using rep_NULL [OF Cons.prems(1)] by auto
  moreover have "following l x h = or_NULL vs" using following_eq [OF Cons.prems(1)] by (simp add: or_NULL_eq)
  moreover have "walk m (\<lambda>x. following l x h) found (or_NULL vs) = Some (case find found vs of None \<Rightarrow> NULL | Some x \<Rightarrow> x)"
    using Cons.IH [of "us @ [x]" m] Cons.prems m by simp
  ultimately show ?case using m by simp
qed

lemma walk_finds:
  assumes "rep h l xs" "length xs < n"
  shows "walk n (\<lambda>x. following l x h) found (first l h) = Some (case find found xs of None \<Rightarrow> NULL | Some x \<Rightarrow> x)"
  using walk_from [of h l "[]" xs n found] assms first_eq [OF assms(1)] by (simp add: or_NULL_eq)

lemma drain_all:
  assumes "rep h l xs" "length xs < n"
  shows "\<exists>h'. drain n (first l) (unlink l) h = Some (xs, h') \<and> rep h' l []"
  using assms
proof (induction xs arbitrary: h n)
  case Nil
  then show ?case using first_eq [OF Nil.prems(1)] by (cases n) simp_all
next
  case (Cons x xs)
  then obtain m where m: "n = Suc m" by (cases n) auto
  have "x \<noteq> NULL" using rep_NULL [OF Cons.prems(1)] by auto
  moreover have "rep (unlink l x h) l xs" using unlink_rep [of h l "[]" x xs] Cons.prems(1) by simp
  from Cons.IH [OF this, of m] Cons.prems(2) m
  obtain h' where "drain m (first l) (unlink l) (unlink l x h) = Some (xs, h')" "rep h' l []" by auto
  ultimately show ?case using first_eq [OF Cons.prems(1)] m by simp
qed

end

interpretation lq: object_list represents list_head list_next list_remove
  by unfold_locales (simp_all add: representsD list_head list_neighbours list_remove)

section \<open>Refinement\<close>


definition demo_lists :: "list_t list \<times> store" where
  "demo_lists = create_lists [(0x100, 8), (0x200, 8)] (\<lambda>_. \<lparr>ln_next = 0, ln_prev = 0\<rparr>)"

definition demo_calls :: "list_call list" where
  "demo_calls = [Insert_tail 0 0x1000, Insert_head 0 0x2000, Insert_after 0 0x2000 0x3000, Insert_tail 1 0x4000,
     Move_tail 1 0, Prev 1 0x3000, Remove_tail 1]"


end
