(* ===== verification/Refcount.thy ===== *)
theory Refcount
  imports Sys_List
begin

text \<open>
  Reference counts (\<^verbatim>\<open>src/lib/libzpool/refcount.c\<close>) as built outside the kernel: besides the count, every
  reference is on a list with its holder, and the last few references removed are remembered. The two lists are the
  sequences they hold, newest first; the last lemma of this theory says how the search of the code through the linked list gives the
  search through the sequence. Counts are 64-bit words read as signed numbers where the code has \<^verbatim>\<open>int64_t\<close>. A call that
  fails an assertion or panics has the result \<^const>\<open>None\<close>.
\<close>

section \<open>Model\<close>

definition reference_tracking_enable :: bool where "reference_tracking_enable = True"

definition reference_history :: int where "reference_history = 4"

record reference =
  ref_holder :: addr
  ref_number :: u64

record refcount =
  rc_list :: "reference list"
  rc_removed :: "reference list"
  rc_count :: u64
  rc_removed_count :: u64

definition refcount_create :: refcount where
  "refcount_create = \<lparr>rc_list = [], rc_removed = [], rc_count = 0, rc_removed_count = 0\<rparr>"

definition refcount_destroy_many :: "refcount \<Rightarrow> u64 \<Rightarrow> refcount option" where
  "refcount_destroy_many rc number = do {
     VERIFY (rc_count rc = number);
     Some (rc\<lparr>rc_list := [], rc_removed := []\<rparr>) }"

definition refcount_destroy :: "refcount \<Rightarrow> refcount option" where
  "refcount_destroy rc = refcount_destroy_many rc 0"

definition refcount_is_zero :: "refcount \<Rightarrow> bool option" where
  "refcount_is_zero rc = do { VERIFY (sint (rc_count rc) \<ge> 0); Some (rc_count rc = 0) }"

definition refcount_count :: "refcount \<Rightarrow> u64 option" where
  "refcount_count rc = do { VERIFY (sint (rc_count rc) \<ge> 0); Some (rc_count rc) }"

definition refcount_add_many :: "refcount \<Rightarrow> u64 \<Rightarrow> addr \<Rightarrow> (u64 \<times> refcount) option" where
  "refcount_add_many rc number holder = do {
     VERIFY (sint (rc_count rc) \<ge> 0);
     let rc = (if reference_tracking_enable then rc\<lparr>rc_list := \<lparr>ref_holder = holder, ref_number = number\<rparr> # rc_list rc\<rparr> else rc);
         count = rc_count rc + number
     in Some (count, rc\<lparr>rc_count := count\<rparr>) }"

definition refcount_add :: "refcount \<Rightarrow> addr \<Rightarrow> (u64 \<times> refcount) option" where
  "refcount_add rc holder = refcount_add_many rc 1 holder"

definition remember :: "reference \<Rightarrow> refcount \<Rightarrow> refcount" where
  \<comment> \<open>the history of removed references\<close>
  "remember ref rc =
     (if reference_history > 0 then
        let rc = rc\<lparr>rc_removed := ref # rc_removed rc, rc_removed_count := rc_removed_count rc + 1\<rparr> in
        if sint (rc_removed_count rc) \<ge> reference_history
        then rc\<lparr>rc_removed := butlast (rc_removed rc), rc_removed_count := rc_removed_count rc - 1\<rparr> else rc
      else rc)"

definition is_hold :: "addr \<Rightarrow> u64 \<Rightarrow> reference \<Rightarrow> bool" where
  "is_hold holder number ref \<longleftrightarrow> ref_holder ref = holder \<and> ref_number ref = number"

definition refcount_remove_many :: "refcount \<Rightarrow> u64 \<Rightarrow> addr \<Rightarrow> (u64 \<times> refcount) option" where
  "refcount_remove_many rc number holder = do {
     VERIFY (rc_count rc \<ge> number);
     if \<not> reference_tracking_enable then Some (rc_count rc - number, rc\<lparr>rc_count := rc_count rc - number\<rparr>)
     else case List.extract (is_hold holder number) (rc_list rc) of
         None \<Rightarrow> None
       | Some (us, ref, vs) \<Rightarrow>
           let rc = remember ref (rc\<lparr>rc_list := us @ vs\<rparr>)
           in Some (rc_count rc - number, rc\<lparr>rc_count := rc_count rc - number\<rparr>) }"

definition refcount_remove :: "refcount \<Rightarrow> addr \<Rightarrow> (u64 \<times> refcount) option" where
  "refcount_remove rc holder = refcount_remove_many rc 1 holder"

text \<open>The modes in which the locks built on reference counts are entered.\<close>

datatype krw = RW_READER | RW_WRITER

section \<open>Holders\<close>

definition held_by :: "refcount \<Rightarrow> addr multiset \<Rightarrow> bool" where
  \<comment> \<open>the references are single ones, with these holders, and the history is in order\<close>
  "held_by rc M \<longleftrightarrow> mset (rc_list rc) = image_mset (\<lambda>t. \<lparr>ref_holder = t, ref_number = 1\<rparr>) M \<and>
     rc_count rc = of_nat (size M) \<and> size M < 2 ^ 63 \<and>
     rc_removed_count rc = of_nat (length (rc_removed rc)) \<and> length (rc_removed rc) < nat reference_history"

lemma held_by_create: "held_by refcount_create {#}"
  by (simp add: held_by_def refcount_create_def reference_history_def)

lemma held_by_count:
  assumes "held_by rc M"
  shows "unat (rc_count rc) = size M" "sint (rc_count rc) = int (size M)" "refcount_count rc = Some (of_nat (size M))"
    "refcount_is_zero rc = Some (M = {#})"
proof -
  have b: "size M < 2 ^ 63" "rc_count rc = of_nat (size M)" using assms by (auto simp: held_by_def)
  then show u: "unat (rc_count rc) = size M" by (simp add: unat_of_nat take_bit_nat_eq_self)
  have "sint (rc_count rc) = int (unat (rc_count rc))"
    using b(1) u by (simp add: sint_uint signed_take_bit_eq_if_positive bit_uint_iff uint_nat take_bit_int_eq_self bit_iff_odd)
  then show s: "sint (rc_count rc) = int (size M)" using u by simp
  then show "refcount_count rc = Some (of_nat (size M))" using b by (simp add: refcount_count_def)
  show "refcount_is_zero rc = Some (M = {#})"
    using s u by (simp add: refcount_is_zero_def) (metis size_eq_0_iff_empty unat_eq_zero)
qed

lemma held_by_zero: "held_by rc M \<Longrightarrow> (of_nat (size M) :: u64) = 0 \<longleftrightarrow> M = {#}"
  using held_by_count(1) [of rc M] unfolding held_by_def by (metis size_eq_0_iff_empty unat_eq_zero)

lemma refcount_add_held:
  assumes "held_by rc M" "size M + 1 < 2 ^ 63"
  obtains rc' where "refcount_add rc t = Some (of_nat (size M + 1), rc')" "held_by rc' (add_mset t M)"
proof -
  have "refcount_add rc t = Some (of_nat (size M + 1), rc\<lparr>rc_list := \<lparr>ref_holder = t, ref_number = 1\<rparr> # rc_list rc, rc_count := rc_count rc + 1\<rparr>)"
    using held_by_count(2) [OF assms(1)] assms(1)
    by (simp add: refcount_add_def refcount_add_many_def reference_tracking_enable_def held_by_def add.commute Let_def)
  moreover have "held_by (rc\<lparr>rc_list := \<lparr>ref_holder = t, ref_number = 1\<rparr> # rc_list rc, rc_count := rc_count rc + 1\<rparr>) (add_mset t M)"
    using assms by (simp add: held_by_def add.commute)
  ultimately show thesis by (rule that)
qed

lemma remember_sel [simp]: "rc_list (remember ref rc) = rc_list rc" "rc_count (remember ref rc) = rc_count rc"
  by (simp_all add: remember_def Let_def)

lemma remember_history:
  assumes "rc_removed_count rc = of_nat (length (rc_removed rc))" "length (rc_removed rc) < nat reference_history"
  shows "rc_removed_count (remember ref rc) = of_nat (length (rc_removed (remember ref rc)))"
    "length (rc_removed (remember ref rc)) < nat reference_history"
proof -
  have "length (rc_removed rc) \<in> {0, 1, 2, 3}" 
    using assms(2) unfolding reference_history_def insert_iff empty_iff by linarith
  then show "rc_removed_count (remember ref rc) = of_nat (length (rc_removed (remember ref rc)))"
    "length (rc_removed (remember ref rc)) < nat reference_history"
    using assms(1) by (auto simp: remember_def Let_def reference_history_def)
qed

lemma refcount_remove_held:
  assumes h: "held_by rc M" and t: "t \<in># M"
  obtains rc' where "refcount_remove rc t = Some (of_nat (size M - 1), rc')" "held_by rc' (M - {#t#})"
proof -
  let ?r = "\<lparr>ref_holder = t, ref_number = 1\<rparr>"
  note c = held_by_count [OF h]
  have m: "mset (rc_list rc) = image_mset (\<lambda>t. \<lparr>ref_holder = t, ref_number = 1\<rparr>) M" using h by (simp add: held_by_def)
  then have "?r \<in> set (rc_list rc)" using t by (metis image_eqI set_image_mset set_mset_mset)
  then obtain us ref vs where e: "List.extract (is_hold t 1) (rc_list rc) = Some (us, ref, vs)"
    by (cases "List.extract (is_hold t 1) (rc_list rc)") (auto simp: extract_None_iff is_hold_def)
  then have s: "rc_list rc = us @ ref # vs" "ref = ?r" by (auto simp: extract_Some_iff is_hold_def)
  have pos: "0 < size M" using t by (metis nonempty_has_size empty_not_add_mset multi_member_split)
  have "rc_count rc \<ge> 1" using c(1) pos by (simp add: word_le_nat_alt)
  then have "refcount_remove rc t = Some (of_nat (size M - 1), (remember ref (rc\<lparr>rc_list := us @ vs\<rparr>))\<lparr>rc_count := of_nat (size M - 1)\<rparr>)"
    using e h pos
    by (simp add: refcount_remove_def refcount_remove_many_def reference_tracking_enable_def Let_def held_by_def of_nat_diff Suc_leI)
  moreover have "mset (us @ vs) = image_mset (\<lambda>t. \<lparr>ref_holder = t, ref_number = 1\<rparr>) (M - {#t#})"
    using m s t by (simp add: image_mset_Diff) (metis add_mset_remove_trivial)
  then have "held_by ((remember ref (rc\<lparr>rc_list := us @ vs\<rparr>))\<lparr>rc_count := of_nat (size M - 1)\<rparr>) (M - {#t#})"
    using remember_history [of "rc\<lparr>rc_list := us @ vs\<rparr>" ref] h t
    by (auto simp: held_by_def size_Diff_singleton)
  ultimately show thesis by (rule that)
qed

lemma refcount_remove_panics:
  assumes h: "held_by rc M" and t: "t \<notin># M"
  shows "refcount_remove rc t = None"
proof -
  have "set (rc_list rc) = (\<lambda>t. \<lparr>ref_holder = t, ref_number = 1\<rparr>) ` set_mset M"
    using h by (metis held_by_def set_image_mset set_mset_mset)
  then have "List.extract (is_hold t 1) (rc_list rc) = None" using t by (auto simp: extract_None_iff is_hold_def)
  then show ?thesis by (simp add: refcount_remove_def refcount_remove_many_def reference_tracking_enable_def)
qed

section \<open>The search through the linked list\<close>

lemma refcount_search:
  assumes r: "represents h l xs"
  shows "case List.extract (is_hold holder number) (map refs xs) of
      None \<Rightarrow> walk (Suc (length xs)) (\<lambda>x. list_next l x h) (\<lambda>x. is_hold holder number (refs x)) (list_head l h) = Some NULL
    | Some (us, ref, vs) \<Rightarrow> (\<exists>x xs'. refs x = ref \<and>
        walk (Suc (length xs)) (\<lambda>x. list_next l x h) (\<lambda>x. is_hold holder number (refs x)) (list_head l h) = Some x \<and>
        represents (list_remove l x h) l xs' \<and> map refs xs' = us @ vs)"
proof -
  let ?P = "is_hold holder number"
  have w: "walk (Suc (length xs)) (\<lambda>x. list_next l x h) (\<lambda>x. ?P (refs x)) (list_head l h) =
      Some (case find (\<lambda>x. ?P (refs x)) xs of None \<Rightarrow> NULL | Some x \<Rightarrow> x)"
    by (rule lq.walk_finds [OF r]) simp
  show ?thesis
  proof (cases "List.extract ?P (map refs xs)")
    case None
    then have "find (\<lambda>x. ?P (refs x)) xs = None" by (auto simp: extract_None_iff find_None_iff)
    then show ?thesis using w None by (simp del: walk.simps)
  next
    case (Some p)
    then obtain us ref vs where p: "List.extract ?P (map refs xs) = Some (us, ref, vs)" by (cases p) auto
    then have "map refs xs = us @ ref # vs" "?P ref" and nu: "\<forall>u\<in>set us. \<not> ?P u" by (auto simp: extract_Some_iff)
    then obtain ys x zs where x: "xs = ys @ x # zs" "map refs ys = us" "refs x = ref" "map refs zs = vs"
      by (auto simp: map_eq_append_conv map_eq_Cons_conv)
    have "find (\<lambda>x. ?P (refs x)) xs = Some x"
      unfolding x(1) using x(2,3) \<open>?P ref\<close> nu by (induction ys arbitrary: us) auto
    then show ?thesis using w p x list_remove(1) [of h l ys x zs] r by (auto simp del: walk.simps)
  qed
qed

end
