(* ===== verification/Rrwlock.thy ===== *)
theory Rrwlock
  imports Refcount
begin

text \<open>
  The re-entrant reader/writer lock (\<^verbatim>\<open>src/lib/libzpool/rrwlock.c\<close>). The operations are state transformers, one
  execution under the lock's mutex each: a call that reaches \<^verbatim>\<open>cv_wait()\<close> has the result \<open>Waits\<close>, with the state it leaves behind,
  and starts over when it is woken. A failing assertion and a panic are \<^const>\<open>None\<close>. A step relation interleaves the calls of
  any number of threads on any number of locks, with the sleeping threads and the read holds as history; its invariant gives mutual exclusion,
  exact counts, re-entrance without blocking, and that no wake-up is lost.
\<close>

section \<open>Locks and thread-specific data\<close>

record rrwlock =
  rr_writer :: "nat option"  \<comment> \<open>a thread\<close>
  rr_anon_rcount :: refcount
  rr_linked_rcount :: refcount
  rr_writer_wanted :: bool

record rrw_world =
  rrls :: "nat \<Rightarrow> rrwlock"  \<comment> \<open>the locks\<close>
  rrw_tsd :: "nat \<Rightarrow> nat list"  \<comment> \<open>of a thread: the locks \<^verbatim>\<open>rn_rrl\<close> of its list of nodes\<close>

datatype 'w entering = Entered 'w | Waits 'w

definition set_rrl :: "nat \<Rightarrow> (rrwlock \<Rightarrow> rrwlock) \<Rightarrow> rrw_world \<Rightarrow> rrw_world" where
  "set_rrl l f w = w\<lparr>rrls := (rrls w)(l := f (rrls w l))\<rparr>"

definition rrn_find :: "nat \<Rightarrow> nat \<Rightarrow> rrw_world \<Rightarrow> bool option" where
  \<comment> \<open>whether a node is found\<close>
  "rrn_find t l w = do {
     c \<leftarrow> refcount_count (rr_linked_rcount (rrls w l));
     if c = 0 then Some False else Some (l \<in> set (rrw_tsd w t)) }"

definition rrn_add :: "nat \<Rightarrow> nat \<Rightarrow> rrw_world \<Rightarrow> rrw_world" where
  "rrn_add t l w = w\<lparr>rrw_tsd := (rrw_tsd w)(t := l # rrw_tsd w t)\<rparr>"

definition rrn_find_and_remove :: "nat \<Rightarrow> nat \<Rightarrow> rrw_world \<Rightarrow> (bool \<times> rrw_world) option" where
  "rrn_find_and_remove t l w = do {
     c \<leftarrow> refcount_count (rr_linked_rcount (rrls w l));
     if c = 0 then Some (False, w)
     else if l \<in> set (rrw_tsd w t) then Some (True, w\<lparr>rrw_tsd := (rrw_tsd w)(t := remove1 l (rrw_tsd w t))\<rparr>)
     else Some (False, w) }"

section \<open>Operations\<close>

definition rrw_init :: rrwlock where
  "rrw_init = \<lparr>rr_writer = None, rr_anon_rcount = refcount_create, rr_linked_rcount = refcount_create, rr_writer_wanted = False\<rparr>"

definition rrw_destroy :: "rrwlock \<Rightarrow> rrwlock option" where
  "rrw_destroy rrl = do {
     VERIFY (rr_writer rrl = None);
     a \<leftarrow> refcount_destroy (rr_anon_rcount rrl);
     b \<leftarrow> refcount_destroy (rr_linked_rcount rrl);
     Some (rrl\<lparr>rr_anon_rcount := a, rr_linked_rcount := b\<rparr>) }"

definition reader_waits :: "nat \<Rightarrow> nat \<Rightarrow> rrw_world \<Rightarrow> bool option" where
  \<comment> \<open>the condition of the loop in \<^verbatim>\<open>rrw_enter_read()\<close>\<close>
  "reader_waits t l w =
     (let rrl = rrls w l in
      if rr_writer rrl \<noteq> None then Some True
      else if \<not> rr_writer_wanted rrl then Some False
      else do {
        z \<leftarrow> refcount_is_zero (rr_anon_rcount rrl);
        if \<not> z then Some False else do { found \<leftarrow> rrn_find t l w; Some (\<not> found) } })"

definition rrw_enter_read :: "nat \<Rightarrow> nat \<Rightarrow> addr \<Rightarrow> rrw_world \<Rightarrow> rrw_world entering option" where
  "rrw_enter_read t l tag w = do {
     VERIFY (rr_writer (rrls w l) \<noteq> Some t);
     c \<leftarrow> refcount_count (rr_anon_rcount (rrls w l));
     VERIFY (sint c \<ge> 0);
     wait \<leftarrow> reader_waits t l w;
     if wait then Some (Waits w)
     else do {
       w \<leftarrow> (if rr_writer_wanted (rrls w l) then do {
               let w = rrn_add t l w;
               (_, rc) \<leftarrow> refcount_add (rr_linked_rcount (rrls w l)) tag;
               Some (set_rrl l (\<lambda>rrl. rrl\<lparr>rr_linked_rcount := rc\<rparr>) w) }
             else do {
               (_, rc) \<leftarrow> refcount_add (rr_anon_rcount (rrls w l)) tag;
               Some (set_rrl l (\<lambda>rrl. rrl\<lparr>rr_anon_rcount := rc\<rparr>) w) });
       VERIFY (rr_writer (rrls w l) = None);
       Some (Entered w) } }"

definition writer_waits :: "nat \<Rightarrow> rrw_world \<Rightarrow> bool option" where
  \<comment> \<open>the condition of the loop in \<^verbatim>\<open>rrw_enter_write()\<close>\<close>
  "writer_waits l w =
     (let rrl = rrls w l in do {
        a \<leftarrow> refcount_count (rr_anon_rcount rrl);
        if sint a > 0 then Some True
        else do {
          b \<leftarrow> refcount_count (rr_linked_rcount rrl);
          if sint b > 0 then Some True else Some (rr_writer rrl \<noteq> None) } })"

definition rrw_enter_write :: "nat \<Rightarrow> nat \<Rightarrow> rrw_world \<Rightarrow> rrw_world entering option" where
  "rrw_enter_write t l w = do {
     VERIFY (rr_writer (rrls w l) \<noteq> Some t);
     wait \<leftarrow> writer_waits l w;
     if wait then Some (Waits (set_rrl l (\<lambda>rrl. rrl\<lparr>rr_writer_wanted := True\<rparr>) w))
     else Some (Entered (set_rrl l (\<lambda>rrl. rrl\<lparr>rr_writer_wanted := False, rr_writer := Some t\<rparr>) w)) }"

definition rrw_enter :: "nat \<Rightarrow> nat \<Rightarrow> krw \<Rightarrow> addr \<Rightarrow> rrw_world \<Rightarrow> rrw_world entering option" where
  "rrw_enter t l rw tag w = (if rw = RW_READER then rrw_enter_read t l tag w else rrw_enter_write t l w)"

definition rrw_exit :: "nat \<Rightarrow> nat \<Rightarrow> addr \<Rightarrow> rrw_world \<Rightarrow> (bool \<times> rrw_world) option" where
  \<comment> \<open>the first result: \<^verbatim>\<open>cv_broadcast()\<close> is called. The assertions read both counts, where the code stops
     reading at the first that settles the condition: the model asserts more\<close>
  "rrw_exit t l tag w = do {
     za \<leftarrow> refcount_is_zero (rr_anon_rcount (rrls w l));
     zl \<leftarrow> refcount_is_zero (rr_linked_rcount (rrls w l));
     VERIFY (\<not> za \<or> \<not> zl \<or> rr_writer (rrls w l) \<noteq> None);
     if rr_writer (rrls w l) = None then do {
       (found, w) \<leftarrow> rrn_find_and_remove t l w;
       if found then do {
         (c, rc) \<leftarrow> refcount_remove (rr_linked_rcount (rrls w l)) tag;
         Some (c = 0, set_rrl l (\<lambda>rrl. rrl\<lparr>rr_linked_rcount := rc\<rparr>) w) }
       else do {
         (c, rc) \<leftarrow> refcount_remove (rr_anon_rcount (rrls w l)) tag;
         Some (c = 0, set_rrl l (\<lambda>rrl. rrl\<lparr>rr_anon_rcount := rc\<rparr>) w) } }
     else do {
       VERIFY (rr_writer (rrls w l) = Some t);
       VERIFY (za \<and> zl);
       Some (True, set_rrl l (\<lambda>rrl. rrl\<lparr>rr_writer := None\<rparr>) w) } }"

definition rrw_held :: "nat \<Rightarrow> krw \<Rightarrow> rrwlock \<Rightarrow> bool option" where
  "rrw_held t rw rrl =
     (if rw = RW_WRITER then Some (rr_writer rrl = Some t)
      else do {
        za \<leftarrow> refcount_is_zero (rr_anon_rcount rrl);
        if \<not> za then Some True
        else do { zl \<leftarrow> refcount_is_zero (rr_linked_rcount rrl); Some (\<not> zl) } })"

section \<open>Threads\<close>

text \<open>
  A read hold, with a flag for what the lock did when it was granted. A thread releases its read holds on a lock in
  the reverse order of acquiring them, each with the tag of its \<^verbatim>\<open>rrw_enter()\<close>.
\<close>

record hold =
  h_thread :: nat
  h_lock :: nat
  h_tag :: addr
  h_linked :: bool

record rrw_sys =
  world :: rrw_world
  asleep :: "nat \<Rightarrow> (nat \<times> krw) option"
  holds :: "hold list"  \<comment> \<open>the newest first\<close>

definition newest :: "nat \<Rightarrow> nat \<Rightarrow> hold list \<Rightarrow> hold option" where
  "newest t l H = find (\<lambda>k. h_thread k = t \<and> h_lock k = l) H"

definition cv_broadcast :: "nat \<Rightarrow> (nat \<Rightarrow> (nat \<times> krw) option) \<Rightarrow> nat \<Rightarrow> (nat \<times> krw) option" where
  "cv_broadcast l sl t = (case sl t of Some (l', rw) \<Rightarrow> if l' = l then None else Some (l', rw) | None \<Rightarrow> None)"

definition rrw_start :: rrw_sys where
  "rrw_start = \<lparr>world = \<lparr>rrls = (\<lambda>_. rrw_init), rrw_tsd = (\<lambda>_. [])\<rparr>, asleep = (\<lambda>_. None), holds = []\<rparr>"

definition may_enter :: "nat \<Rightarrow> nat \<Rightarrow> rrw_sys \<Rightarrow> bool" where
  "may_enter t l s \<longleftrightarrow> asleep s t = None \<and> rr_writer (rrls (world s) l) \<noteq> Some t \<and> length (holds s) + 1 < 2 ^ 63"

inductive rrw_step :: "rrw_sys \<Rightarrow> rrw_sys \<Rightarrow> bool" where
  enter_read: "may_enter t l s \<Longrightarrow> rrw_enter t l RW_READER tag (world s) = Some (Entered w) \<Longrightarrow>
    rrw_step s (s\<lparr>world := w, holds := \<lparr>h_thread = t, h_lock = l, h_tag = tag,
      h_linked = rr_writer_wanted (rrls (world s) l)\<rparr> # holds s\<rparr>)"
| enter_write: "may_enter t l s \<Longrightarrow> rrw_enter t l RW_WRITER tag (world s) = Some (Entered w) \<Longrightarrow>
    rrw_step s (s\<lparr>world := w\<rparr>)"
| wait: "may_enter t l s \<Longrightarrow> rrw_enter t l rw tag (world s) = Some (Waits w) \<Longrightarrow>
    rrw_step s (s\<lparr>world := w, asleep := (asleep s)(t := Some (l, rw))\<rparr>)"
| exit_read: "asleep s t = None \<Longrightarrow> newest t l (holds s) = Some k \<Longrightarrow> rrw_exit t l (h_tag k) (world s) = Some (b, w) \<Longrightarrow>
    rrw_step s (s\<lparr>world := w, holds := remove1 k (holds s), asleep := (if b then cv_broadcast l (asleep s) else asleep s)\<rparr>)"
| exit_write: "asleep s t = None \<Longrightarrow> rr_writer (rrls (world s) l) = Some t \<Longrightarrow> rrw_exit t l tag (world s) = Some (b, w) \<Longrightarrow>
    rrw_step s (s\<lparr>world := w, asleep := (if b then cv_broadcast l (asleep s) else asleep s)\<rparr>)"
| wake: "rrw_step s (s\<lparr>asleep := (asleep s)(t := None)\<rparr>)"

inductive rrw_reachable :: "rrw_sys \<Rightarrow> bool" where
  start: "rrw_reachable rrw_start"
| step: "rrw_reachable s \<Longrightarrow> rrw_step s s' \<Longrightarrow> rrw_reachable s'"

inductive_cases rrw_stepE: "rrw_step s s'"

section \<open>The invariant of one lock\<close>

definition tags :: "bool \<Rightarrow> hold list \<Rightarrow> addr multiset" where
  "tags b K = mset (map h_tag (filter (\<lambda>k. h_linked k = b) K))"

definition lock_inv :: "rrwlock \<Rightarrow> (nat \<Rightarrow> nat) \<Rightarrow> hold list \<Rightarrow> bool" where
  \<comment> \<open>\<open>K\<close>: the holds on the lock; \<open>cnt t\<close>: the number of nodes for it on the list of thread \<open>t\<close>\<close>
  "lock_inv rrl cnt K \<longleftrightarrow>
     held_by (rr_anon_rcount rrl) (tags False K) \<and> held_by (rr_linked_rcount rrl) (tags True K) \<and>
     (\<forall>t. cnt t = length (filter (\<lambda>k. h_thread k = t \<and> h_linked k) K)) \<and>
     (rr_writer rrl \<noteq> None \<longrightarrow> K = []) \<and>
     ((\<exists>k \<in> set K. h_linked k) \<longrightarrow> rr_writer_wanted rrl) \<and>
     (\<forall>t. sorted_wrt (\<lambda>a b. h_linked b \<longrightarrow> h_linked a) (filter (\<lambda>k. h_thread k = t) K))"

lemma lock_invD:
  assumes "lock_inv rrl cnt K"
  shows "held_by (rr_anon_rcount rrl) (tags False K)" "held_by (rr_linked_rcount rrl) (tags True K)"
    "cnt t = length (filter (\<lambda>k. h_thread k = t \<and> h_linked k) K)"
    "rr_writer rrl \<noteq> None \<Longrightarrow> K = []" "k \<in> set K \<Longrightarrow> h_linked k \<Longrightarrow> rr_writer_wanted rrl"
    "sorted_wrt (\<lambda>a b. h_linked b \<longrightarrow> h_linked a) (filter (\<lambda>k. h_thread k = t) K)"
  using assms unfolding lock_inv_def by blast+

lemma tags_simps [simp]:
  "tags b [] = {#}" "tags b (k # K) = (if h_linked k = b then add_mset (h_tag k) (tags b K) else tags b K)"
  "tags b (K @ K') = tags b K + tags b K'"
  by (simp_all add: tags_def)

lemma tags_empty: "tags b K = {#} \<longleftrightarrow> (\<forall>k \<in> set K. h_linked k \<noteq> b)"
  by (auto simp: tags_def filter_empty_conv)

lemma size_tags: "size (tags False K) + size (tags True K) = length K"
  by (induction K) auto

definition read_blocked :: "nat \<Rightarrow> rrwlock \<Rightarrow> hold list \<Rightarrow> bool" where
  "read_blocked t rrl K \<longleftrightarrow> rr_writer rrl \<noteq> None \<or>
     (rr_writer_wanted rrl \<and> (\<forall>k \<in> set K. h_linked k \<and> h_thread k \<noteq> t))"

definition write_blocked :: "rrwlock \<Rightarrow> hold list \<Rightarrow> bool" where
  "write_blocked rrl K \<longleftrightarrow> rr_writer rrl \<noteq> None \<or> K \<noteq> []"

abbreviation cnt_of :: "nat \<Rightarrow> rrw_world \<Rightarrow> nat \<Rightarrow> nat" where
  "cnt_of l w \<equiv> \<lambda>t. count_list (rrw_tsd w t) l"

lemma rrn_find_eq:
  assumes i: "lock_inv (rrls w l) (cnt_of l w) K"
  shows "rrn_find t l w = Some (\<exists>k \<in> set K. h_thread k = t \<and> h_linked k)"
    "l \<in> set (rrw_tsd w t) \<longleftrightarrow> (\<exists>k \<in> set K. h_thread k = t \<and> h_linked k)"
    "refcount_count (rr_linked_rcount (rrls w l)) = Some c \<Longrightarrow> c = 0 \<longleftrightarrow> tags True K = {#}"
proof -
  note h = held_by_count [OF lock_invD(2) [OF i]]
  have "count_list (rrw_tsd w t) l \<noteq> 0 \<longleftrightarrow> (\<exists>k \<in> set K. h_thread k = t \<and> h_linked k)"
    unfolding lock_invD(3) [OF i, of t] by (auto simp: filter_empty_conv)
  then show m: "l \<in> set (rrw_tsd w t) \<longleftrightarrow> (\<exists>k \<in> set K. h_thread k = t \<and> h_linked k)"
    by (simp add: count_list_0_iff)
  have z: "c = 0 \<longleftrightarrow> tags True K = {#}" if "refcount_count (rr_linked_rcount (rrls w l)) = Some c" for c
  proof -
    have "c = rc_count (rr_linked_rcount (rrls w l))" using that by (simp add: refcount_count_def split: if_splits)
    then show ?thesis using h(1) by (metis size_eq_0_iff_empty unat_eq_zero)
  qed
  then show "refcount_count (rr_linked_rcount (rrls w l)) = Some c \<Longrightarrow> c = 0 \<longleftrightarrow> tags True K = {#}" .
  show "rrn_find t l w = Some (\<exists>k \<in> set K. h_thread k = t \<and> h_linked k)"
    using z [OF h(3)] m by (auto simp: rrn_find_def h(3) tags_empty)
qed

lemma waits_eq:
  assumes i: "lock_inv (rrls w l) (cnt_of l w) K"
  shows "reader_waits t l w = Some (read_blocked t (rrls w l) K)" "writer_waits l w = Some (write_blocked (rrls w l) K)"
proof -
  note a = held_by_count [OF lock_invD(1) [OF i]] and b = held_by_count [OF lock_invD(2) [OF i]]
  show "reader_waits t l w = Some (read_blocked t (rrls w l) K)"
    by (auto simp: reader_waits_def Let_def a(4) rrn_find_eq(1) [OF i] read_blocked_def tags_empty)
  have "refcount_count (rr_anon_rcount (rrls w l)) = Some (rc_count (rr_anon_rcount (rrls w l)))"
    "refcount_count (rr_linked_rcount (rrls w l)) = Some (rc_count (rr_linked_rcount (rrls w l)))"
    using a(2) b(2) by (simp_all add: refcount_count_def)
  then have "writer_waits l w = Some (size (tags False K) > 0 \<or> size (tags True K) > 0 \<or> rr_writer (rrls w l) \<noteq> None)"
    using a(2) b(2) by (auto simp: writer_waits_def Let_def)
  moreover have "(size (tags False K) > 0 \<or> size (tags True K) > 0) = (K \<noteq> [])"
    using size_tags [of K] by (metis add_is_0 gr0I length_0_conv less_numeral_extra(3))
  ultimately show "writer_waits l w = Some (write_blocked (rrls w l) K)" by (simp add: write_blocked_def) blast
qed

section \<open>Effect of the operations on the invariant\<close>

definition only_lock :: "nat \<Rightarrow> rrw_world \<Rightarrow> rrw_world \<Rightarrow> bool" where
  "only_lock l w w' \<longleftrightarrow> (\<forall>l'. l' \<noteq> l \<longrightarrow> rrls w' l' = rrls w l' \<and> cnt_of l' w' = cnt_of l' w)"

lemma set_rrl_sel [simp]:
  "rrls (set_rrl l f w) l' = (if l' = l then f (rrls w l) else rrls w l')" "rrw_tsd (set_rrl l f w) = rrw_tsd w"
  by (simp_all add: set_rrl_def)

lemma rrn_add_sel [simp]:
  "rrls (rrn_add t l w) = rrls w" "rrw_tsd (rrn_add t l w) t' = (if t' = t then l # rrw_tsd w t else rrw_tsd w t')"
  by (simp_all add: rrn_add_def)

lemma tags_bound: "length K < n \<Longrightarrow> size (tags b K) < n"
  using size_tags [of K] by (cases b) auto

lemma count_list_remove1: "count_list (remove1 x xs) y = count_list xs y - (if x = y then 1 else 0)"
  by (induction xs) auto

lemma enter_read_ok:
  fixes tag :: addr
  assumes i: "lock_inv (rrls w l) (cnt_of l w) K" and t: "rr_writer (rrls w l) \<noteq> Some t"
    and b: "length K + 1 < 2 ^ 63" and nb: "\<not> read_blocked t (rrls w l) K"
  defines "k \<equiv> \<lparr>h_thread = t, h_lock = l, h_tag = tag, h_linked = rr_writer_wanted (rrls w l)\<rparr>"
  obtains w' where "rrw_enter_read t l tag w = Some (Entered w')" "only_lock l w w'"
    "lock_inv (rrls w' l) (cnt_of l w') (k # K)" "rr_writer (rrls w' l) = None"
    "rr_writer_wanted (rrls w' l) = rr_writer_wanted (rrls w l)"
proof -
  note a = held_by_count [OF lock_invD(1) [OF i]]
  have wr: "rr_writer (rrls w l) = None" using nb by (simp add: read_blocked_def)
  have c: "refcount_count (rr_anon_rcount (rrls w l)) = Some (rc_count (rr_anon_rcount (rrls w l)))"
    using a(2) by (simp add: refcount_count_def)
  have so: "sorted_wrt (\<lambda>a b. h_linked b \<longrightarrow> h_linked a) (filter (\<lambda>k. h_thread k = t') (k # K))" for t'
    using lock_invD(6) [OF i, of t'] lock_invD(5) [OF i] by (auto simp: k_def)
  show thesis
  proof (cases "rr_writer_wanted (rrls w l)")
    case True
    obtain rc where rc: "refcount_add (rr_linked_rcount (rrls w l)) tag = Some (of_nat (size (tags True K) + 1), rc)"
      "held_by rc (add_mset tag (tags True K))"
      by (rule refcount_add_held [OF lock_invD(2) [OF i]]) (use tags_bound [of K "2 ^ 63 - 1" True] b in auto)
    let ?w = "set_rrl l (\<lambda>rrl. rrl\<lparr>rr_linked_rcount := rc\<rparr>) (rrn_add t l w)"
    show thesis
    proof (rule that [of ?w])
      show "rrw_enter_read t l tag w = Some (Entered ?w)"
        using wr True by (simp add: rrw_enter_read_def c a(2) waits_eq(1) [OF i] nb rc)
      show "only_lock l w ?w" by (auto simp: only_lock_def)
      show "lock_inv (rrls ?w l) (cnt_of l ?w) (k # K)"
        unfolding lock_inv_def
        using lock_invD(1,3) [OF i] rc(2) wr True so by (auto simp: k_def)
    qed (use wr in simp_all)
  next
    case False
    obtain rc where rc: "refcount_add (rr_anon_rcount (rrls w l)) tag = Some (of_nat (size (tags False K) + 1), rc)"
      "held_by rc (add_mset tag (tags False K))"
      by (rule refcount_add_held [OF lock_invD(1) [OF i]]) (use tags_bound [of K "2 ^ 63 - 1" False] b in auto)
    let ?w = "set_rrl l (\<lambda>rrl. rrl\<lparr>rr_anon_rcount := rc\<rparr>) w"
    show thesis
    proof (rule that [of ?w])
      show "rrw_enter_read t l tag w = Some (Entered ?w)"
        using wr False by (simp add: rrw_enter_read_def c a(2) waits_eq(1) [OF i] nb rc)
      show "only_lock l w ?w" by (auto simp: only_lock_def)
      show "lock_inv (rrls ?w l) (cnt_of l ?w) (k # K)"
        unfolding lock_inv_def
        using lock_invD(2,3,5) [OF i] rc(2) wr False so by (auto simp: k_def)
    qed (use wr in simp_all)
  qed
qed

lemma enter_read_waits:
  assumes i: "lock_inv (rrls w l) (cnt_of l w) K" and t: "rr_writer (rrls w l) \<noteq> Some t" and b: "read_blocked t (rrls w l) K"
  shows "rrw_enter_read t l tag w = Some (Waits w)"
proof -
  note a = held_by_count [OF lock_invD(1) [OF i]]
  have "refcount_count (rr_anon_rcount (rrls w l)) = Some (rc_count (rr_anon_rcount (rrls w l)))"
    using a(2) by (simp add: refcount_count_def)
  then show ?thesis using t b a(2) by (simp add: rrw_enter_read_def waits_eq(1) [OF i])
qed

lemma enter_write_eq:
  assumes i: "lock_inv (rrls w l) (cnt_of l w) K" and t: "rr_writer (rrls w l) \<noteq> Some t"
  shows "rrw_enter_write t l w = Some (if write_blocked (rrls w l) K
      then Waits (set_rrl l (\<lambda>rrl. rrl\<lparr>rr_writer_wanted := True\<rparr>) w)
      else Entered (set_rrl l (\<lambda>rrl. rrl\<lparr>rr_writer_wanted := False, rr_writer := Some t\<rparr>) w))"
  using t by (simp add: rrw_enter_write_def waits_eq(2) [OF i])

lemma exit_write_eq:
  assumes i: "lock_inv (rrls w l) (cnt_of l w) K" and t: "rr_writer (rrls w l) = Some t"
  shows "rrw_exit t l tag w = Some (True, set_rrl l (\<lambda>rrl. rrl\<lparr>rr_writer := None\<rparr>) w)"
proof -
  have "K = []" using lock_invD(4) [OF i] t by simp
  then show ?thesis
    using held_by_count(4) [OF lock_invD(1) [OF i]] held_by_count(4) [OF lock_invD(2) [OF i]] t by (simp add: rrw_exit_def)
qed

lemma sorted_wrt_drop: "sorted_wrt R (xs @ x # ys) \<Longrightarrow> sorted_wrt R (xs @ ys)"
  by (simp add: sorted_wrt_append)

lemma exit_read_ok:
  assumes i: "lock_inv (rrls w l) (cnt_of l w) (us @ k # vs)" and us: "\<forall>u \<in> set us. h_thread u \<noteq> h_thread k"
  obtains w' where "rrw_exit (h_thread k) l (h_tag k) w = Some (tags (h_linked k) (us @ vs) = {#}, w')" "only_lock l w w'"
    "lock_inv (rrls w' l) (cnt_of l w') (us @ vs)" "rr_writer (rrls w' l) = None"
    "rr_writer_wanted (rrls w' l) = rr_writer_wanted (rrls w l)"
proof -
  let ?K = "us @ k # vs" and ?t = "h_thread k"
  note a = held_by_count [OF lock_invD(1) [OF i]] and b = held_by_count [OF lock_invD(2) [OF i]]
  have wr: "rr_writer (rrls w l) = None" using lock_invD(4) [OF i] by (cases "rr_writer (rrls w l)") auto
  have so: "sorted_wrt (\<lambda>a b. h_linked b \<longrightarrow> h_linked a) (filter (\<lambda>k. h_thread k = t') (us @ vs))" for t'
    using lock_invD(6) [OF i, of t'] sorted_wrt_drop [of _ "filter (\<lambda>k. h_thread k = t') us" k "filter (\<lambda>k. h_thread k = t') vs"]
    by (cases "h_thread k = t'") simp_all
  have first: "h_linked k" if k': "k' \<in> set ?K" "h_thread k' = ?t" "h_linked k'" for k'
  proof -
    have "k' = k \<or> k' \<in> set (filter (\<lambda>k'. h_thread k' = ?t) vs)" using k' us by auto
    moreover have "sorted_wrt (\<lambda>a b. h_linked b \<longrightarrow> h_linked a) (k # filter (\<lambda>k'. h_thread k' = ?t) vs)"
      using lock_invD(6) [OF i, of ?t] by (simp add: sorted_wrt_append)
    ultimately show ?thesis using k'(3) by auto
  qed
  have ct: "refcount_count (rr_linked_rcount (rrls w l)) = Some (rc_count (rr_linked_rcount (rrls w l)))"
    using b(2) by (simp add: refcount_count_def)
  have nz: "\<not> (tags False ?K = {#} \<and> tags True ?K = {#})" by (cases "h_linked k") simp_all
  note z = rrn_find_eq(3) [OF i ct] and m = rrn_find_eq(2) [OF i, of ?t]
  show thesis
  proof (cases "h_linked k")
    case True
    then have "l \<in> set (rrw_tsd w ?t)" "tags True ?K \<noteq> {#}" using m by auto
    then have f: "rrn_find_and_remove ?t l w = Some (True, w\<lparr>rrw_tsd := (rrw_tsd w)(?t := remove1 l (rrw_tsd w ?t))\<rparr>)"
      using z by (simp add: rrn_find_and_remove_def ct)
    obtain rc where rc: "refcount_remove (rr_linked_rcount (rrls w l)) (h_tag k) = Some (of_nat (size (tags True ?K) - 1), rc)"
      "held_by rc (tags True ?K - {#h_tag k#})"
      by (rule refcount_remove_held [OF lock_invD(2) [OF i]]) (use True in auto)
    have z': "(of_nat (size (tags True ?K) - 1) :: u64) = 0 \<longleftrightarrow> tags True (us @ vs) = {#}"
      using held_by_zero [of rc "tags True (us @ vs)"] rc(2) True by simp
    let ?w = "set_rrl l (\<lambda>rrl. rrl\<lparr>rr_linked_rcount := rc\<rparr>) (w\<lparr>rrw_tsd := (rrw_tsd w)(?t := remove1 l (rrw_tsd w ?t))\<rparr>)"
    show thesis
    proof (rule that [of ?w])
      show "rrw_exit ?t l (h_tag k) w = Some (tags (h_linked k) (us @ vs) = {#}, ?w)"
        unfolding rrw_exit_def a(4) b(4) using wr True nz f rc(1) z' by auto
      show "only_lock l w ?w" by (auto simp: only_lock_def count_list_remove1)
      show "lock_inv (rrls ?w l) (cnt_of l ?w) (us @ vs)"
        unfolding lock_inv_def
        using lock_invD(1,3,5) [OF i] rc(2) wr True so by (auto simp: count_list_remove1)
    qed (use wr in simp_all)
  next
    case False
    then have "l \<notin> set (rrw_tsd w ?t)" using m first by blast
    then have f: "rrn_find_and_remove ?t l w = Some (False, w)" by (simp add: rrn_find_and_remove_def ct)
    obtain rc where rc: "refcount_remove (rr_anon_rcount (rrls w l)) (h_tag k) = Some (of_nat (size (tags False ?K) - 1), rc)"
      "held_by rc (tags False ?K - {#h_tag k#})"
      by (rule refcount_remove_held [OF lock_invD(1) [OF i]]) (use False in auto)
    have z': "(of_nat (size (tags False ?K) - 1) :: u64) = 0 \<longleftrightarrow> tags False (us @ vs) = {#}"
      using held_by_zero [of rc "tags False (us @ vs)"] rc(2) False by simp
    let ?w = "set_rrl l (\<lambda>rrl. rrl\<lparr>rr_anon_rcount := rc\<rparr>) w"
    show thesis
    proof (rule that [of ?w])
      show "rrw_exit ?t l (h_tag k) w = Some (tags (h_linked k) (us @ vs) = {#}, ?w)"
        unfolding rrw_exit_def a(4) b(4) using wr False nz f rc(1) z' by auto
      show "only_lock l w ?w" by (auto simp: only_lock_def)
      show "lock_inv (rrls ?w l) (cnt_of l ?w) (us @ vs)"
        unfolding lock_inv_def
        using lock_invD(2,3,5) [OF i] rc(2) wr False so by (auto simp: count_list_remove1)
    qed (use wr in simp_all)
  qed
qed

section \<open>The invariant of the system\<close>

definition on_lock :: "nat \<Rightarrow> hold list \<Rightarrow> hold list" where
  "on_lock l H = filter (\<lambda>k. h_lock k = l) H"

definition blocked :: "nat \<Rightarrow> krw \<Rightarrow> rrwlock \<Rightarrow> hold list \<Rightarrow> bool" where
  "blocked t rw rrl K = (case rw of RW_READER \<Rightarrow> read_blocked t rrl K | RW_WRITER \<Rightarrow> write_blocked rrl K)"

definition rrw_inv :: "rrw_sys \<Rightarrow> bool" where
  "rrw_inv s \<longleftrightarrow>
     (\<forall>l. lock_inv (rrls (world s) l) (cnt_of l (world s)) (on_lock l (holds s))) \<and> length (holds s) < 2 ^ 63 \<and>
     (\<forall>t l rw. asleep s t = Some (l, rw) \<longrightarrow> blocked t rw (rrls (world s) l) (on_lock l (holds s)))"

lemma rrw_invD:
  assumes "rrw_inv s"
  shows "lock_inv (rrls (world s) l) (cnt_of l (world s)) (on_lock l (holds s))" "length (holds s) < 2 ^ 63"
    "asleep s t = Some (l, rw) \<Longrightarrow> blocked t rw (rrls (world s) l) (on_lock l (holds s))"
  using assms unfolding rrw_inv_def by blast+

lemma rrw_inv_update:
  assumes i: "rrw_inv s" and w: "only_lock l (world s) (world s')"
    and li: "lock_inv (rrls (world s') l) (cnt_of l (world s')) (on_lock l (holds s'))"
    and H: "\<And>l'. l' \<noteq> l \<Longrightarrow> on_lock l' (holds s') = on_lock l' (holds s)" "length (holds s') < 2 ^ 63"
    and sl: "\<And>t l' rw. asleep s' t = Some (l', rw) \<Longrightarrow> l' \<noteq> l \<Longrightarrow> asleep s t = Some (l', rw)"
    and bl: "\<And>t rw. asleep s' t = Some (l, rw) \<Longrightarrow> blocked t rw (rrls (world s') l) (on_lock l (holds s'))"
  shows "rrw_inv s'"
  unfolding rrw_inv_def
proof (intro conjI allI impI)
  show "lock_inv (rrls (world s') l') (cnt_of l' (world s')) (on_lock l' (holds s'))" for l'
    using li w H(1) rrw_invD(1) [OF i, of l'] by (cases "l' = l") (simp_all add: only_lock_def)
  show "blocked t rw (rrls (world s') l') (on_lock l' (holds s'))" if "asleep s' t = Some (l', rw)" for t l' rw
    using bl sl that w H(1) rrw_invD(3) [OF i] by (cases "l' = l") (simp_all add: only_lock_def)
qed (rule H(2))

lemma length_on_lock: "length (on_lock l H) \<le> length H"
  by (simp add: on_lock_def)

lemma newest_split:
  assumes "newest t l H = Some k"
  obtains us vs where "h_thread k = t" "h_lock k = l" "on_lock l H = us @ k # vs" "on_lock l (remove1 k H) = us @ vs"
    "\<forall>u \<in> set us. h_thread u \<noteq> h_thread k" "\<And>l'. l' \<noteq> l \<Longrightarrow> on_lock l' (remove1 k H) = on_lock l' H" "k \<in> set H"
proof -
  obtain n where n: "n < length H" "h_thread (H ! n) = t" "h_lock (H ! n) = l" "k = H ! n"
    and f: "\<And>j. j < n \<Longrightarrow> \<not> (h_thread (H ! j) = t \<and> h_lock (H ! j) = l)"
    using assms by (auto simp: newest_def find_Some_iff)
  define xs ys where "xs = take n H" and "ys = drop (Suc n) H"
  have H: "H = xs @ k # ys" using n by (simp add: xs_def ys_def id_take_nth_drop)
  have xs: "\<forall>x \<in> set xs. \<not> (h_thread x = t \<and> h_lock x = l)"
  proof
    fix x assume "x \<in> set xs"
    then obtain j where "j < n" "x = H ! j" by (auto simp: xs_def in_set_conv_nth)
    then show "\<not> (h_thread x = t \<and> h_lock x = l)" using f by blast
  qed
  then have "k \<notin> set xs" using n by auto
  then have r: "remove1 k H = xs @ ys" by (simp add: H remove1_append)
  show thesis
  proof (rule that [of "on_lock l xs" "on_lock l ys"])
    show k: "h_thread k = t" "h_lock k = l" using n by simp_all
    show "\<forall>u \<in> set (on_lock l xs). h_thread u \<noteq> h_thread k" using xs k by (auto simp: on_lock_def)
    show "on_lock l H = on_lock l xs @ k # on_lock l ys" "k \<in> set H" unfolding H using k by (simp_all add: on_lock_def)
    show "on_lock l (remove1 k H) = on_lock l xs @ on_lock l ys" unfolding r by (simp add: on_lock_def)
    show "on_lock l' (remove1 k H) = on_lock l' H" if "l' \<noteq> l" for l'
      unfolding r unfolding H using k that by (simp add: on_lock_def)
  qed
qed

lemma enter_cases:
  assumes i: "rrw_inv s" and m: "may_enter t l s"
  shows "rrw_enter t l RW_READER tag (world s) = Some (Entered w) \<Longrightarrow> \<not> read_blocked t (rrls (world s) l) (on_lock l (holds s))"
    "rrw_enter t l rw tag (world s) = Some (Waits w) \<Longrightarrow> blocked t rw (rrls (world s) l) (on_lock l (holds s)) \<and>
       (w = world s \<and> rw = RW_READER \<or> w = set_rrl l (\<lambda>rrl. rrl\<lparr>rr_writer_wanted := True\<rparr>) (world s) \<and> rw = RW_WRITER)"
    "rrw_enter t l RW_WRITER tag (world s) = Some (Entered w) \<Longrightarrow> \<not> write_blocked (rrls (world s) l) (on_lock l (holds s)) \<and>
       w = set_rrl l (\<lambda>rrl. rrl\<lparr>rr_writer_wanted := False, rr_writer := Some t\<rparr>) (world s)"
proof -
  let ?K = "on_lock l (holds s)"
  note li = rrw_invD(1) [OF i, of l]
  have t: "rr_writer (rrls (world s) l) \<noteq> Some t" and b: "length ?K + 1 < 2 ^ 63"
    using m length_on_lock [of l "holds s"] by (simp_all add: may_enter_def)
  have r: "\<exists>w'. rrw_enter_read t l tag (world s) = Some (Entered w')" if "\<not> read_blocked t (rrls (world s) l) ?K"
    using enter_read_ok [OF li t b that] by metis
  note e = enter_read_waits [OF li t] enter_write_eq [OF li t]
  show "rrw_enter t l RW_READER tag (world s) = Some (Entered w) \<Longrightarrow> \<not> read_blocked t (rrls (world s) l) ?K"
    using e(1) by (auto simp: rrw_enter_def)
  show "rrw_enter t l rw tag (world s) = Some (Waits w) \<Longrightarrow> blocked t rw (rrls (world s) l) ?K \<and>
       (w = world s \<and> rw = RW_READER \<or> w = set_rrl l (\<lambda>rrl. rrl\<lparr>rr_writer_wanted := True\<rparr>) (world s) \<and> rw = RW_WRITER)"
    using r e by (cases rw; cases "read_blocked t (rrls (world s) l) ?K") (auto simp: rrw_enter_def blocked_def split: if_splits)
  show "rrw_enter t l RW_WRITER tag (world s) = Some (Entered w) \<Longrightarrow> \<not> write_blocked (rrls (world s) l) ?K \<and>
       w = set_rrl l (\<lambda>rrl. rrl\<lparr>rr_writer_wanted := False, rr_writer := Some t\<rparr>) (world s)"
    using e(2) by (auto simp: rrw_enter_def split: if_splits)
qed

lemma on_lock_Cons: "on_lock l (k # H) = (if h_lock k = l then k # on_lock l H else on_lock l H)"
  by (simp add: on_lock_def)

lemma enter_read_inv:
  assumes i: "rrw_inv s" and m: "may_enter t l s" and e: "rrw_enter t l RW_READER tag (world s) = Some (Entered w)"
  shows "rrw_inv (s\<lparr>world := w, holds := \<lparr>h_thread = t, h_lock = l, h_tag = tag, h_linked = rr_writer_wanted (rrls (world s) l)\<rparr> # holds s\<rparr>)"
proof -
  let ?K = "on_lock l (holds s)" and ?k = "\<lparr>h_thread = t, h_lock = l, h_tag = tag, h_linked = rr_writer_wanted (rrls (world s) l)\<rparr>"
  have t: "rr_writer (rrls (world s) l) \<noteq> Some t" and b: "length ?K + 1 < 2 ^ 63" and aw: "asleep s t = None"
    using m length_on_lock [of l "holds s"] by (simp_all add: may_enter_def)
  note nb = enter_cases(1) [OF i m e]
  obtain w' where w': "rrw_enter_read t l tag (world s) = Some (Entered w')" "only_lock l (world s) w'"
    "lock_inv (rrls w' l) (cnt_of l w') (?k # ?K)" "rr_writer (rrls w' l) = None"
    "rr_writer_wanted (rrls w' l) = rr_writer_wanted (rrls (world s) l)"
    by (rule enter_read_ok [OF rrw_invD(1) [OF i] t b nb])
  have w: "w' = w" using e w'(1) by (simp add: rrw_enter_def)
  have bl: "blocked t' rw (rrls w l) (?k # ?K)" if s: "asleep s t' = Some (l, rw)" for t' rw
  proof -
    have "t' \<noteq> t" using s aw by auto
    moreover have "blocked t' rw (rrls (world s) l) ?K" by (rule rrw_invD(3) [OF i s])
    ultimately show ?thesis
      using nb w' w by (cases rw) (auto simp: blocked_def read_blocked_def write_blocked_def)
  qed
  show ?thesis
    by (rule rrw_inv_update [OF i, of l]) (use w w' m bl in \<open>auto simp: on_lock_Cons may_enter_def\<close>)
qed

lemma wait_inv:
  assumes i: "rrw_inv s" and m: "may_enter t l s" and e: "rrw_enter t l rw tag (world s) = Some (Waits w)"
  shows "rrw_inv (s\<lparr>world := w, asleep := (asleep s)(t := Some (l, rw))\<rparr>)"
proof -
  let ?K = "on_lock l (holds s)"
  note c = enter_cases(2) [OF i m e]
  have f: "only_lock l (world s) w" "rr_writer (rrls w l) = rr_writer (rrls (world s) l)"
    "rr_writer_wanted (rrls (world s) l) \<longrightarrow> rr_writer_wanted (rrls w l)"
    using c by (auto simp: only_lock_def)
  have li: "lock_inv (rrls w l) (cnt_of l w) ?K"
    using c rrw_invD(1) [OF i, of l] by (auto simp: lock_inv_def)
  have bl: "blocked t' rw' (rrls w l) ?K" if "blocked t' rw' (rrls (world s) l) ?K" for t' rw'
    using that f by (cases rw') (auto simp: blocked_def read_blocked_def write_blocked_def)
  have sl: "blocked t' rw' (rrls w l) ?K" if "((asleep s)(t := Some (l, rw))) t' = Some (l, rw')" for t' rw'
  proof (cases "t' = t")
    case True
    then show ?thesis using that bl c by simp
  next
    case False
    then have "asleep s t' = Some (l, rw')" using that by simp
    then show ?thesis by (rule bl [OF rrw_invD(3) [OF i]])
  qed
  show ?thesis
  proof (rule rrw_inv_update [OF i, of l])
    show "asleep s t' = Some (l', rw')"
      if "asleep (s\<lparr>world := w, asleep := (asleep s)(t := Some (l, rw))\<rparr>) t' = Some (l', rw')" "l' \<noteq> l" for t' l' rw'
      using that by (cases "t' = t") simp_all
  qed (use f(1) li sl rrw_invD(2) [OF i] in simp_all)
qed

lemma enter_write_inv:
  assumes i: "rrw_inv s" and m: "may_enter t l s" and e: "rrw_enter t l RW_WRITER tag (world s) = Some (Entered w)"
  shows "rrw_inv (s\<lparr>world := w\<rparr>)"
proof -
  let ?K = "on_lock l (holds s)"
  note c = enter_cases(3) [OF i m e]
  then have "?K = []" by (simp add: write_blocked_def)
  then have li: "lock_inv (rrls w l) (cnt_of l w) ?K"
    using c rrw_invD(1) [OF i, of l] by (auto simp: lock_inv_def)
  show ?thesis
    by (rule rrw_inv_update [OF i, of l])
      (use c li rrw_invD(2) [OF i] in \<open>auto simp: only_lock_def blocked_def read_blocked_def write_blocked_def split: krw.split\<close>)
qed

lemma broadcast_asleep:
  "cv_broadcast l sl t = Some (l', rw) \<longleftrightarrow> sl t = Some (l', rw) \<and> l' \<noteq> l"
  by (auto simp: cv_broadcast_def split: option.splits if_splits)

lemma exit_read_inv:
  assumes i: "rrw_inv s" and n: "newest t l (holds s) = Some k" and e: "rrw_exit t l (h_tag k) (world s) = Some (b, w)"
  shows "rrw_inv (s\<lparr>world := w, holds := remove1 k (holds s), asleep := (if b then cv_broadcast l (asleep s) else asleep s)\<rparr>)"
proof -
  obtain us vs where k: "h_thread k = t" "h_lock k = l" "on_lock l (holds s) = us @ k # vs" "on_lock l (remove1 k (holds s)) = us @ vs"
    and us: "\<forall>u \<in> set us. h_thread u \<noteq> h_thread k"
    and o: "\<And>l'. l' \<noteq> l \<Longrightarrow> on_lock l' (remove1 k (holds s)) = on_lock l' (holds s)" and mem: "k \<in> set (holds s)"
    using newest_split [OF n] by metis
  note li = rrw_invD(1) [OF i, of l, unfolded k(3)]
  obtain w' where w': "rrw_exit (h_thread k) l (h_tag k) (world s) = Some (tags (h_linked k) (us @ vs) = {#}, w')" "only_lock l (world s) w'"
    "lock_inv (rrls w' l) (cnt_of l w') (us @ vs)" "rr_writer (rrls w' l) = None"
    "rr_writer_wanted (rrls w' l) = rr_writer_wanted (rrls (world s) l)"
    by (rule exit_read_ok [OF li us])
  have w: "w' = w" "b = (tags (h_linked k) (us @ vs) = {#})" using e w'(1) k(1) by simp_all
  have wr: "rr_writer (rrls (world s) l) = None" using lock_invD(4) [OF li] by (cases "rr_writer (rrls (world s) l)") auto
  have bl: "blocked t' rw (rrls w l) (us @ vs)" if s: "asleep s t' = Some (l, rw)" and nb: "\<not> b" for t' rw
    using rrw_invD(3) [OF i s] nb w w'(4,5) wr unfolding k(3)
    by (cases rw) (auto simp: blocked_def read_blocked_def write_blocked_def)
  show ?thesis
    by (rule rrw_inv_update [OF i, of l])
      (use w w' o k(4) mem bl rrw_invD(2) [OF i] in \<open>auto simp: broadcast_asleep length_remove1 split: if_splits\<close>)
qed

lemma exit_write_inv:
  assumes i: "rrw_inv s" and t: "rr_writer (rrls (world s) l) = Some t" and e: "rrw_exit t l tag (world s) = Some (b, w)"
  shows "rrw_inv (s\<lparr>world := w, asleep := (if b then cv_broadcast l (asleep s) else asleep s)\<rparr>)"
proof -
  have w: "b" "w = set_rrl l (\<lambda>rrl. rrl\<lparr>rr_writer := None\<rparr>) (world s)"
    using exit_write_eq [OF rrw_invD(1) [OF i] t] e by auto
  have "lock_inv (rrls w l) (cnt_of l w) (on_lock l (holds s))"
    using rrw_invD(1) [OF i, of l] w(2) by (auto simp: lock_inv_def)
  then show ?thesis
    by (intro rrw_inv_update [OF i, of l])
      (use w rrw_invD(2) [OF i] in \<open>auto simp: only_lock_def broadcast_asleep\<close>)
qed

lemma rrw_step_inv:
  assumes "rrw_step s s'" "rrw_inv s"
  shows "rrw_inv s'"
  using assms
proof (cases rule: rrw_step.cases)
  case (wake t)
  then show ?thesis using assms(2) by (auto simp: rrw_inv_def)
qed (use assms(2) enter_read_inv enter_write_inv wait_inv exit_read_inv exit_write_inv in \<open>simp_all\<close>)

lemma rrw_reachable_inv: "rrw_reachable s \<Longrightarrow> rrw_inv s"
proof (induction rule: rrw_reachable.induct)
  case start
  show ?case by (simp add: rrw_inv_def rrw_start_def rrw_init_def lock_inv_def on_lock_def held_by_create)
qed (rule rrw_step_inv)

section \<open>Running calls\<close>

datatype rrw_call = Enter nat nat krw addr | Exit nat nat addr

fun rrw_do :: "rrw_call \<Rightarrow> rrw_sys \<Rightarrow> rrw_sys option" where
  \<comment> \<open>the step that a call of a thread makes\<close>
  "rrw_do (Enter t l rw tag) s =
     (if may_enter t l s then
        case rrw_enter t l rw tag (world s) of None \<Rightarrow> None
        | Some (Waits w) \<Rightarrow> Some (s\<lparr>world := w, asleep := (asleep s)(t := Some (l, rw))\<rparr>)
        | Some (Entered w) \<Rightarrow>
            Some (if rw = RW_READER
              then s\<lparr>world := w, holds := \<lparr>h_thread = t, h_lock = l, h_tag = tag, h_linked = rr_writer_wanted (rrls (world s) l)\<rparr> # holds s\<rparr>
              else s\<lparr>world := w\<rparr>)
      else None)"
| "rrw_do (Exit t l tag) s =
     (if asleep s t \<noteq> None then None
      else case rrw_exit t l tag (world s) of None \<Rightarrow> None
      | Some (b, w) \<Rightarrow>
          let sl = (if b then cv_broadcast l (asleep s) else asleep s) in
          if rr_writer (rrls (world s) l) = Some t then Some (s\<lparr>world := w, asleep := sl\<rparr>)
          else case newest t l (holds s) of None \<Rightarrow> None
            | Some k \<Rightarrow> if h_tag k = tag then Some (s\<lparr>world := w, holds := remove1 k (holds s), asleep := sl\<rparr>) else None)"

lemma rrw_do_step: "rrw_do c s = Some s' \<Longrightarrow> rrw_step s s'"
proof (cases c)
  case (Enter t l rw tag)
  assume "rrw_do c s = Some s'"
  then show ?thesis
    using Enter by (cases rw) (auto split: if_splits option.splits entering.splits intro: rrw_step.intros)
next
  case (Exit t l tag)
  assume "rrw_do c s = Some s'"
  then have d: "rrw_do (Exit t l tag) s = Some s'" using Exit by simp
  then have aw: "asleep s t = None" by (cases "asleep s t") simp_all
  obtain b w where e: "rrw_exit t l tag (world s) = Some (b, w)" using d aw by (auto split: option.splits)
  show ?thesis
  proof (cases "rr_writer (rrls (world s) l) = Some t")
    case True
    then show ?thesis using d aw e exit_write [OF aw True e] by (simp add: Let_def)
  next
    case False
    then obtain k where k: "newest t l (holds s) = Some k" "h_tag k = tag"
      using d aw e by (auto simp: Let_def split: option.splits if_splits)
    from exit_read [OF aw k(1) e [folded k(2)]] show ?thesis using d aw e False k by (simp add: Let_def)
  qed
qed

lemma rrw_run_reachable:
  assumes "foldM (\<lambda>s c. rrw_do c s) s cs = Some s'" "rrw_reachable s"
  shows "rrw_reachable s'"
  using assms
proof (induction cs arbitrary: s)
  case (Cons c cs)
  then show ?case by (auto split: bind_splits dest: rrw_do_step intro: rrw_reachable.step)
qed simp

lemma enter_returns:
  assumes i: "rrw_inv s" and m: "may_enter t l s"
  shows "rrw_enter t l rw tag (world s) \<noteq> None"
proof -
  have t: "rr_writer (rrls (world s) l) \<noteq> Some t" and b: "length (on_lock l (holds s)) + 1 < 2 ^ 63"
    using m length_on_lock [of l "holds s"] by (simp_all add: may_enter_def)
  note li = rrw_invD(1) [OF i, of l]
  have "rrw_enter_read t l tag (world s) \<noteq> None"
  proof (cases "read_blocked t (rrls (world s) l) (on_lock l (holds s))")
    case True
    then show ?thesis using enter_read_waits [OF li t] by simp
  next
    case False
    from enter_read_ok [OF li t b False, of tag] show ?thesis by (metis option.distinct(1))
  qed
  then show ?thesis using enter_write_eq [OF li t] by (cases rw) (simp_all add: rrw_enter_def)
qed

lemma reenter:
  assumes i: "rrw_inv s" and k: "k \<in> set (on_lock l (holds s))" and b: "length (holds s) + 1 < 2 ^ 63"
  shows "\<exists>w. rrw_enter (h_thread k) l RW_READER tag (world s) = Some (Entered w)"
proof -
  note li = rrw_invD(1) [OF i, of l]
  have wr: "rr_writer (rrls (world s) l) = None" using lock_invD(4) [OF li] k by (cases "rr_writer (rrls (world s) l)") auto
  have "\<not> read_blocked (h_thread k) (rrls (world s) l) (on_lock l (holds s))" using wr k by (auto simp: read_blocked_def)
  moreover have "rr_writer (rrls (world s) l) \<noteq> Some (h_thread k)" using wr by simp
  moreover have "length (on_lock l (holds s)) + 1 < 2 ^ 63" using b length_on_lock [of l "holds s"] by simp
  ultimately show ?thesis unfolding rrw_enter_def using enter_read_ok [OF li] by (metis (full_types))
qed

lemma exit_returns:
  assumes i: "rrw_inv s" and n: "newest t l (holds s) = Some k"
  shows "rrw_exit t l (h_tag k) (world s) \<noteq> None"
proof -
  obtain us vs where k: "h_thread k = t" "on_lock l (holds s) = us @ k # vs" "\<forall>u \<in> set us. h_thread u \<noteq> h_thread k"
    using newest_split [OF n] by metis
  from exit_read_ok [OF rrw_invD(1) [OF i, of l, unfolded k(2)] k(3)] show ?thesis
    unfolding k(1) by (metis option.distinct(1))
qed

section \<open>Properties\<close>

text \<open>C2. In every interleaving of any number of threads on any number of re-entrant reader/writer locks, threads that
  release their read holds in reverse order with the right tags: a lock held by a writer has no reader; the two reference counts of a lock add up to the
  number of read holds on it; a thread that holds a lock for reading can enter it again for reading without waiting, also when a writer
  waits; no enter or exit within the contract fails an assertion or panics; and no wake-up is lost, that is, whoever
  sleeps on the lock's condition variable still has to wait.\<close>
theorem rrw_exclusion:
  assumes "rrw_reachable s"
  shows "(rr_writer (rrls (world s) l) \<noteq> None \<longrightarrow> on_lock l (holds s) = []) \<and>
    length (on_lock l (holds s)) =
      unat (rc_count (rr_anon_rcount (rrls (world s) l))) + unat (rc_count (rr_linked_rcount (rrls (world s) l))) \<and>
    (k \<in> set (on_lock l (holds s)) \<and> length (holds s) + 1 < 2 ^ 63 \<longrightarrow>
      (\<exists>w. rrw_enter (h_thread k) l RW_READER tag (world s) = Some (Entered w))) \<and>
    (may_enter t l s \<longrightarrow> rrw_enter t l rw tag (world s) \<noteq> None) \<and>
    (newest t l (holds s) = Some k \<longrightarrow> rrw_exit t l (h_tag k) (world s) \<noteq> None) \<and>
    (rr_writer (rrls (world s) l) = Some t \<longrightarrow> rrw_exit t l tag (world s) \<noteq> None) \<and>
    (asleep s t = Some (l, RW_READER) \<longrightarrow> reader_waits t l (world s) = Some True) \<and>
    (asleep s t = Some (l, RW_WRITER) \<longrightarrow> writer_waits l (world s) = Some True)"
proof -
  note i = rrw_reachable_inv [OF assms]
  note li = rrw_invD(1) [OF i, of l]
  have "length (on_lock l (holds s)) =
      unat (rc_count (rr_anon_rcount (rrls (world s) l))) + unat (rc_count (rr_linked_rcount (rrls (world s) l)))"
    using size_tags [of "on_lock l (holds s)"] held_by_count(1) [OF lock_invD(1) [OF li]] held_by_count(1) [OF lock_invD(2) [OF li]] by simp
  moreover have "asleep s t = Some (l, RW_READER) \<Longrightarrow> reader_waits t l (world s) = Some True"
    "asleep s t = Some (l, RW_WRITER) \<Longrightarrow> writer_waits l (world s) = Some True"
    using rrw_invD(3) [OF i, of t l RW_READER] rrw_invD(3) [OF i, of t l RW_WRITER] waits_eq [OF li] by (simp_all add: blocked_def)
  moreover have "rr_writer (rrls (world s) l) = Some t \<Longrightarrow> rrw_exit t l tag (world s) \<noteq> None"
    using exit_write_eq [OF li, of t tag] by simp
  ultimately show ?thesis
    using lock_invD(4) [OF li] reenter [OF i, of k l tag] enter_returns [OF i, of t l rw tag] exit_returns [OF i, of t l k] by blast
qed

definition demo_rrw :: rrw_sys where
  \<comment> \<open>thread 1 reads with tag 10, thread 2 waits to write, thread 1 reads again with tag 11\<close>
  "demo_rrw = the (foldM (\<lambda>s c. rrw_do c s) rrw_start [Enter 1 0 RW_READER 10, Enter 2 0 RW_WRITER 20, Enter 1 0 RW_READER 11])"

lemma demo_rrw_holds:
  "rrw_reachable demo_rrw"
  "holds demo_rrw = [\<lparr>h_thread = 1, h_lock = 0, h_tag = 11, h_linked = True\<rparr>, \<lparr>h_thread = 1, h_lock = 0, h_tag = 10, h_linked = False\<rparr>]"
  "asleep demo_rrw 2 = Some (0, RW_WRITER)"
proof -
  have "foldM (\<lambda>s c. rrw_do c s) rrw_start [Enter 1 0 RW_READER 10, Enter 2 0 RW_WRITER 20, Enter 1 0 RW_READER 11] = Some demo_rrw"
    "holds demo_rrw = [\<lparr>h_thread = 1, h_lock = 0, h_tag = 11, h_linked = True\<rparr>, \<lparr>h_thread = 1, h_lock = 0, h_tag = 10, h_linked = False\<rparr>]"
    "asleep demo_rrw 2 = Some (0, RW_WRITER)"
    unfolding demo_rrw_def
    by (simp_all add: rrw_start_def rrw_init_def may_enter_def rrw_enter_def rrw_enter_read_def rrw_enter_write_def reader_waits_def writer_waits_def
        refcount_create_def refcount_count_def refcount_is_zero_def refcount_add_def refcount_add_many_def reference_tracking_enable_def Let_def)
  then show "rrw_reachable demo_rrw"
    "holds demo_rrw = [\<lparr>h_thread = 1, h_lock = 0, h_tag = 11, h_linked = True\<rparr>, \<lparr>h_thread = 1, h_lock = 0, h_tag = 10, h_linked = False\<rparr>]"
    "asleep demo_rrw 2 = Some (0, RW_WRITER)"
    using rrw_run_reachable [OF _ rrw_reachable.start] by blast+
qed

theorem rrw_exclusion_witness:
  "length (on_lock 0 (holds demo_rrw)) = 2 \<and>
   unat (rc_count (rr_anon_rcount (rrls (world demo_rrw) 0))) + unat (rc_count (rr_linked_rcount (rrls (world demo_rrw) 0))) = 2 \<and>
   (\<exists>w. rrw_enter 1 0 RW_READER 12 (world demo_rrw) = Some (Entered w)) \<and> rrw_exit 1 0 11 (world demo_rrw) \<noteq> None \<and>
   writer_waits 0 (world demo_rrw) = Some True"
proof -
  let ?k = "\<lparr>h_thread = 1, h_lock = 0, h_tag = 11, h_linked = True\<rparr>"
  note d = demo_rrw_holds
  have on: "on_lock 0 (holds demo_rrw) = holds demo_rrw" by (simp add: d(2) on_lock_def)
  then have k: "newest 1 0 (holds demo_rrw) = Some ?k" "?k \<in> set (on_lock 0 (holds demo_rrw))"
    "length (holds demo_rrw) + 1 < 2 ^ 63" "length (on_lock 0 (holds demo_rrw)) = 2" by (simp_all add: d(2) newest_def)
  show ?thesis
    using rrw_exclusion [OF d(1), where l = 0 and k = ?k and tag = 12 and t = 1 and rw = RW_READER]
      rrw_exclusion [OF d(1), where l = 0 and k = ?k and tag = 12 and t = 2 and rw = RW_WRITER] k d(3) by simp
qed

text \<open>C39. A thread cannot release its read holds in another order: if it has a hold that was granted while a writer was waiting, releasing
  one of its other holds first, with that hold's own tag, panics (no such hold), unless the same tag is also among
  the references taken while a writer was waiting. The contract in rrwlock.h only asks for the tag of the corresponding
  \<^verbatim>\<open>rrw_enter()\<close>.\<close>
theorem rrw_exit_order:
  assumes "rrw_reachable s" "k \<in> set (on_lock l (holds s))" "h_thread k = t" "h_linked k"
    and "\<forall>k' \<in> set (on_lock l (holds s)). h_linked k' \<longrightarrow> h_tag k' \<noteq> tag"
  shows "rrw_exit t l tag (world s) = None"
proof -
  let ?K = "on_lock l (holds s)"
  note li = rrw_invD(1) [OF rrw_reachable_inv [OF assms(1)], of l]
  note a = held_by_count [OF lock_invD(1) [OF li]] and b = held_by_count [OF lock_invD(2) [OF li]]
  have wr: "rr_writer (rrls (world s) l) = None" using lock_invD(4) [OF li] assms(2) by (cases "rr_writer (rrls (world s) l)") auto
  have ct: "refcount_count (rr_linked_rcount (rrls (world s) l)) = Some (rc_count (rr_linked_rcount (rrls (world s) l)))"
    using b(2) by (simp add: refcount_count_def)
  have "l \<in> set (rrw_tsd (world s) t)" "tags True ?K \<noteq> {#}"
    using rrn_find_eq(2) [OF li] assms(2-4) by (auto simp: tags_empty)
  then have "rrn_find_and_remove t l (world s) = Some (True, (world s)\<lparr>rrw_tsd := (rrw_tsd (world s))(t := remove1 l (rrw_tsd (world s) t))\<rparr>)"
    using rrn_find_eq(3) [OF li ct] by (simp add: rrn_find_and_remove_def ct)
  moreover have "tag \<notin># tags True ?K" using assms(5) by (auto simp: tags_def)
  then have "refcount_remove (rr_linked_rcount (rrls (world s) l)) tag = None" by (rule refcount_remove_panics [OF lock_invD(2) [OF li]])
  ultimately show ?thesis using wr by (simp add: rrw_exit_def a(4) b(4))
qed

theorem rrw_exit_order_witness:
  "rrw_reachable demo_rrw \<and> rrw_exit 1 0 10 (world demo_rrw) = None"
  using rrw_exit_order [OF demo_rrw_holds(1), of "\<lparr>h_thread = 1, h_lock = 0, h_tag = 11, h_linked = True\<rparr>" 0 1 10] demo_rrw_holds(1)
  by (simp add: demo_rrw_holds(2) on_lock_def)

end
