(* ===== verification/Rprwlock.thy ===== *)
theory Rprwlock
  imports Refcount
begin

text \<open>
  The reader/writer lock whose write hold is recursive (\<^verbatim>\<open>src/lib/libzpool/rprwlock.c\<close>): the writer may enter the lock again, for
  reading or writing, and every hold is one reference. Calls are modelled as for the re-entrant lock: \<open>None\<close> in the inner result is
  \<^verbatim>\<open>cv_wait()\<close>, after which the call starts over; a failing assertion or a panic is \<^const>\<open>None\<close> of the outer. The invariant
  of the step relation over threads gives exclusion, recursion, and that no wake-up is lost.
\<close>

section \<open>Model\<close>

record rprwlock =
  rw_writer :: "nat option"
  rw_count :: refcount

definition rprw_init :: rprwlock where
  "rprw_init = \<lparr>rw_writer = None, rw_count = refcount_create\<rparr>"

definition rprw_destroy :: "rprwlock \<Rightarrow> rprwlock option" where
  "rprw_destroy rwl = do {
     VERIFY (rw_writer rwl = None);
     rc \<leftarrow> refcount_destroy (rw_count rwl);
     Some (rwl\<lparr>rw_count := rc\<rparr>) }"

definition rprw_enter_read :: "nat \<Rightarrow> addr \<Rightarrow> rprwlock \<Rightarrow> rprwlock option option" where
  "rprw_enter_read t tag rwl =
     (if rw_writer rwl \<noteq> Some t \<and> rw_writer rwl \<noteq> None then Some None
      else do {
        (_, rc) \<leftarrow> refcount_add (rw_count rwl) tag;
        Some (Some (rwl\<lparr>rw_count := rc\<rparr>)) })"

definition rprw_enter_write :: "nat \<Rightarrow> addr \<Rightarrow> rprwlock \<Rightarrow> rprwlock option option" where
  "rprw_enter_write t tag rwl = do {
     wait \<leftarrow> (if rw_writer rwl \<noteq> Some t then do { z \<leftarrow> refcount_is_zero (rw_count rwl); Some (\<not> z) } else Some False);
     if wait then Some None
     else do {
       (_, rc) \<leftarrow> refcount_add (rw_count rwl) tag;
       Some (Some (rwl\<lparr>rw_writer := Some t, rw_count := rc\<rparr>)) } }"

definition rprw_enter :: "nat \<Rightarrow> krw \<Rightarrow> addr \<Rightarrow> rprwlock \<Rightarrow> rprwlock option option" where
  "rprw_enter t rw tag rwl = (if rw = RW_READER then rprw_enter_read t tag rwl else rprw_enter_write t tag rwl)"

definition rprw_exit :: "nat \<Rightarrow> addr \<Rightarrow> rprwlock \<Rightarrow> (bool \<times> rprwlock) option" where
  \<comment> \<open>the first result: \<^verbatim>\<open>cv_broadcast()\<close> is called\<close>
  "rprw_exit t tag rwl = do {
     z \<leftarrow> refcount_is_zero (rw_count rwl);
     VERIFY (\<not> z);
     VERIFY (rw_writer rwl = None \<or> rw_writer rwl = Some t);
     (c, rc) \<leftarrow> refcount_remove (rw_count rwl) tag;
     if c = 0 then Some (True, rwl\<lparr>rw_count := rc, rw_writer := None\<rparr>) else Some (False, rwl\<lparr>rw_count := rc\<rparr>) }"

definition rprw_held :: "nat \<Rightarrow> krw \<Rightarrow> rprwlock \<Rightarrow> bool option" where
  "rprw_held t rw rwl =
     (if rw = RW_WRITER then Some (rw_writer rwl = Some t)
      else if rw_writer rwl \<noteq> None then Some False
      else do { z \<leftarrow> refcount_is_zero (rw_count rwl); Some (\<not> z) })"

section \<open>Threads\<close>

record rprw_sys =
  rwl :: rprwlock
  sleeping :: "nat \<Rightarrow> krw option"  \<comment> \<open>what a sleeping thread wants\<close>
  owners :: "(nat \<times> addr) multiset"  \<comment> \<open>the holds: a thread and its tag\<close>

definition rprw_start :: rprw_sys where
  "rprw_start = \<lparr>rwl = rprw_init, sleeping = (\<lambda>_. None), owners = {#}\<rparr>"

definition can_enter :: "nat \<Rightarrow> rprw_sys \<Rightarrow> bool" where
  "can_enter t s \<longleftrightarrow> sleeping s t = None \<and> size (owners s) + 1 < 2 ^ 63"

inductive rprw_step :: "rprw_sys \<Rightarrow> rprw_sys \<Rightarrow> bool" where
  enters: "can_enter t s \<Longrightarrow> rprw_enter t rw tag (rwl s) = Some (Some l) \<Longrightarrow>
    rprw_step s (s\<lparr>rwl := l, owners := add_mset (t, tag) (owners s)\<rparr>)"
| sleeps: "can_enter t s \<Longrightarrow> rprw_enter t rw tag (rwl s) = Some None \<Longrightarrow>
    rprw_step s (s\<lparr>sleeping := (sleeping s)(t := Some rw)\<rparr>)"
| exits: "sleeping s t = None \<Longrightarrow> (t, tag) \<in># owners s \<Longrightarrow> rprw_exit t tag (rwl s) = Some (b, l) \<Longrightarrow>
    rprw_step s (s\<lparr>rwl := l, owners := owners s - {#(t, tag)#}, sleeping := (if b then (\<lambda>_. None) else sleeping s)\<rparr>)"
| wakes: "rprw_step s (s\<lparr>sleeping := (sleeping s)(t := None)\<rparr>)"

inductive rprw_reachable :: "rprw_sys \<Rightarrow> bool" where
  start: "rprw_reachable rprw_start"
| step: "rprw_reachable s \<Longrightarrow> rprw_step s s' \<Longrightarrow> rprw_reachable s'"

definition must_wait :: "nat \<Rightarrow> krw \<Rightarrow> rprw_sys \<Rightarrow> bool" where
  "must_wait t rw s \<longleftrightarrow> rw_writer (rwl s) \<noteq> Some t \<and> (if rw = RW_READER then rw_writer (rwl s) \<noteq> None else owners s \<noteq> {#})"

definition rprw_inv :: "rprw_sys \<Rightarrow> bool" where
  "rprw_inv s \<longleftrightarrow> held_by (rw_count (rwl s)) (image_mset snd (owners s)) \<and>
     (\<forall>t. rw_writer (rwl s) = Some t \<longrightarrow> owners s \<noteq> {#} \<and> (\<forall>ow \<in># owners s. fst ow = t)) \<and>
     (\<forall>t rw. sleeping s t = Some rw \<longrightarrow> must_wait t rw s)"

lemma rprw_invD:
  assumes "rprw_inv s"
  shows "held_by (rw_count (rwl s)) (image_mset snd (owners s))"
    "rw_writer (rwl s) = Some t \<Longrightarrow> owners s \<noteq> {#}" "rw_writer (rwl s) = Some t \<Longrightarrow> ow \<in># owners s \<Longrightarrow> fst ow = t"
    "sleeping s t = Some rw \<Longrightarrow> must_wait t rw s"
  using assms unfolding rprw_inv_def by blast+

lemma rprw_enter_cases:
  assumes i: "rprw_inv s" and c: "can_enter t s"
  obtains (waits) "rprw_enter t rw tag (rwl s) = Some None" "must_wait t rw s"
  | (in_) rc where "rprw_enter t rw tag (rwl s) =
        Some (Some ((rwl s)\<lparr>rw_writer := (if rw = RW_READER then rw_writer (rwl s) else Some t), rw_count := rc\<rparr>))"
      "held_by rc (image_mset snd (add_mset (t, tag) (owners s)))" "\<not> must_wait t rw s"
proof -
  note h = rprw_invD(1) [OF i]
  have "size (image_mset snd (owners s)) + 1 < 2 ^ 63" using c by (simp add: can_enter_def)
  then obtain rc where rc: "refcount_add (rw_count (rwl s)) tag = Some (of_nat (size (image_mset snd (owners s)) + 1), rc)"
      "held_by rc (add_mset tag (image_mset snd (owners s)))"
    using refcount_add_held [OF h] by metis
  have z: "refcount_is_zero (rw_count (rwl s)) = Some (owners s = {#})" using held_by_count(4) [OF h] by simp
  show thesis
  proof (cases "must_wait t rw s")
    case True
    then show thesis
      by (cases rw; intro waits) (auto simp: rprw_enter_def rprw_enter_read_def rprw_enter_write_def must_wait_def z split: if_splits)
  next
    case False
    then show thesis
      by (cases rw; intro in_ [of rc])
        (auto simp: rprw_enter_def rprw_enter_read_def rprw_enter_write_def must_wait_def z rc(1) rc(2) [simplified] split: if_splits)
  qed
qed

lemma rprw_exit_ok:
  assumes i: "rprw_inv s" and t: "(t, tag) \<in># owners s"
  obtains rc where "rprw_exit t tag (rwl s) = Some (owners s - {#(t, tag)#} = {#},
      (rwl s)\<lparr>rw_count := rc, rw_writer := (if owners s - {#(t, tag)#} = {#} then None else rw_writer (rwl s))\<rparr>)"
    "held_by rc (image_mset snd (owners s - {#(t, tag)#}))"
proof -
  let ?M = "image_mset snd (owners s)" and ?M' = "image_mset snd (owners s - {#(t, tag)#})"
  note h = rprw_invD(1) [OF i]
  have m: "tag \<in># ?M" using t by force
  have e: "?M - {#tag#} = ?M'" using t by (simp add: image_mset_Diff)
  have sz: "size ?M - 1 = size ?M'" using t by (simp add: size_Diff_singleton)
  obtain rc where rc: "refcount_remove (rw_count (rwl s)) tag = Some (of_nat (size ?M'), rc)" "held_by rc ?M'"
    using refcount_remove_held [OF h m] unfolding e sz by metis
  have z: "refcount_is_zero (rw_count (rwl s)) = Some False" using held_by_count(4) [OF h] t by auto
  have wr: "rw_writer (rwl s) = None \<or> rw_writer (rwl s) = Some t"
    using rprw_invD(3) [OF i _ t] by (cases "rw_writer (rwl s)") auto
  have "(of_nat (size ?M') :: u64) = 0 \<longleftrightarrow> owners s - {#(t, tag)#} = {#}" using held_by_zero [OF rc(2)] by simp
  then show thesis
    using z wr rc by (intro that [of rc]) (auto simp: rprw_exit_def)
qed

lemma rprw_step_inv:
  assumes "rprw_step s s'" "rprw_inv s"
  shows "rprw_inv s'"
  using assms
proof (cases rule: rprw_step.cases)
  case (enters t rw tag l)
  note c = rprw_enter_cases [OF assms(2) enters(2), of rw tag]
  obtain rc where rc: "l = (rwl s)\<lparr>rw_writer := (if rw = RW_READER then rw_writer (rwl s) else Some t), rw_count := rc\<rparr>"
      "held_by rc (image_mset snd (add_mset (t, tag) (owners s)))" "\<not> must_wait t rw s"
    by (rule c) (use enters(3) in auto)
  have own: "\<forall>ow \<in># add_mset (t, tag) (owners s). fst ow = t'" if "rw_writer l = Some t'" for t'
    using that rc rprw_invD(3) [OF assms(2)] by (cases rw) (auto simp: must_wait_def split: if_splits)
  have sl: "must_wait t' rw' s'" if "sleeping s t' = Some rw'" for t' rw'
  proof -
    have "t' \<noteq> t" using that enters(2) by (auto simp: can_enter_def)
    moreover note rprw_invD(4) [OF assms(2) that]
    ultimately show ?thesis using rc enters(1) by (cases rw; cases rw') (auto simp: must_wait_def)
  qed
  show ?thesis using rc(2) own sl unfolding rprw_inv_def enters(1) by (simp add: rc(1))
next
  case (sleeps t rw tag)
  have "must_wait t rw s"
    by (rule rprw_enter_cases [OF assms(2) sleeps(2), of rw tag]) (use sleeps(3) in auto)
  then show ?thesis using assms(2) unfolding rprw_inv_def sleeps(1) by (simp add: must_wait_def)
next
  case (exits t tag b l)
  obtain rc where rc: "l = (rwl s)\<lparr>rw_count := rc, rw_writer := (if owners s - {#(t, tag)#} = {#} then None else rw_writer (rwl s))\<rparr>"
      "b = (owners s - {#(t, tag)#} = {#})" "held_by rc (image_mset snd (owners s - {#(t, tag)#}))"
    by (rule rprw_exit_ok [OF assms(2) exits(3)]) (use exits(4) in auto)
  have own: "\<forall>ow \<in># owners s - {#(t, tag)#}. fst ow = t'" if "rw_writer l = Some t'" for t'
    using that rc(1) rprw_invD(3) [OF assms(2)] by (auto split: if_splits dest: in_diffD)
  show ?thesis
    using rc own rprw_invD(4) [OF assms(2)] unfolding rprw_inv_def exits(1) by (auto simp: must_wait_def)
next
  case (wakes t)
  then show ?thesis using assms(2) unfolding rprw_inv_def by (simp add: must_wait_def)
qed

lemma rprw_reachable_inv: "rprw_reachable s \<Longrightarrow> rprw_inv s"
proof (induction rule: rprw_reachable.induct)
  case start
  show ?case by (simp add: rprw_inv_def rprw_start_def rprw_init_def held_by_create)
qed (rule rprw_step_inv)

section \<open>Property\<close>

text \<open>C40. In every interleaving of threads on a recursive-write lock: while a thread is the writer, all holds are its own, and it can
  enter again for reading and writing without waiting; an exit with the thread and tag of any hold fails no assertion and does not panic; and
  whoever sleeps on the condition variable would still have to wait.\<close>
theorem rprw_exclusion:
  assumes "rprw_reachable s"
  shows "(rw_writer (rwl s) = Some t \<and> ow \<in># owners s \<longrightarrow> fst ow = t) \<and>
    (rw_writer (rwl s) = Some t \<and> can_enter t s \<longrightarrow> (\<exists>l. rprw_enter t rw tag (rwl s) = Some (Some l))) \<and>
    ((t, tag) \<in># owners s \<longrightarrow> rprw_exit t tag (rwl s) \<noteq> None) \<and>
    (sleeping s t = Some rw \<longrightarrow> rprw_enter t rw tag (rwl s) = Some None)"
proof (intro conjI impI)
  note i = rprw_reachable_inv [OF assms]
  show "fst ow = t" if "rw_writer (rwl s) = Some t \<and> ow \<in># owners s" using rprw_invD(3) [OF i] that by blast
  show "\<exists>l. rprw_enter t rw tag (rwl s) = Some (Some l)" if w: "rw_writer (rwl s) = Some t \<and> can_enter t s"
    by (rule rprw_enter_cases [OF i conjunct2 [OF w], of rw tag]) (use w in \<open>auto simp: must_wait_def\<close>)
  show "rprw_exit t tag (rwl s) \<noteq> None" if "(t, tag) \<in># owners s"
    by (rule rprw_exit_ok [OF i that]) simp
  show "rprw_enter t rw tag (rwl s) = Some None" if "sleeping s t = Some rw"
  proof -
    have "must_wait t rw s" by (rule rprw_invD(4) [OF i that])
    moreover have "refcount_is_zero (rw_count (rwl s)) = Some (owners s = {#})"
      using held_by_count(4) [OF rprw_invD(1) [OF i]] by simp
    ultimately show ?thesis
      by (cases rw) (auto simp: must_wait_def rprw_enter_def rprw_enter_read_def rprw_enter_write_def)
  qed
qed

definition demo_rprw :: rprw_sys where
  \<comment> \<open>thread 1 writes with tag 5, thread 2 waits to read\<close>
  "demo_rprw = \<lparr>rwl = \<lparr>rw_writer = Some 1, rw_count = \<lparr>rc_list = [\<lparr>ref_holder = 5, ref_number = 1\<rparr>], rc_removed = [], rc_count = 1, rc_removed_count = 0\<rparr>\<rparr>,
     sleeping = (\<lambda>_. None)(2 := Some RW_READER), owners = {#(1, 5)#}\<rparr>"

lemma demo_rprw_reachable: "rprw_reachable demo_rprw"
proof -
  have "rprw_enter 1 RW_WRITER 5 (rwl rprw_start) = Some (Some (rwl demo_rprw))"
    by (simp add: demo_rprw_def rprw_start_def rprw_init_def rprw_enter_def rprw_enter_write_def refcount_create_def
        refcount_is_zero_def refcount_add_def refcount_add_many_def reference_tracking_enable_def Let_def)
  from enters [of 1 rprw_start RW_WRITER 5, OF _ this]
  have "rprw_reachable (rprw_start\<lparr>rwl := rwl demo_rprw, owners := {#(1, 5)#}\<rparr>)" (is "rprw_reachable ?s")
    using rprw_reachable.step [OF rprw_reachable.start] by (simp add: can_enter_def rprw_start_def)
  moreover have "rprw_step ?s (?s\<lparr>sleeping := (sleeping ?s)(2 := Some RW_READER)\<rparr>)"
    by (rule sleeps [where tag = 6]) (simp_all add: can_enter_def rprw_start_def demo_rprw_def rprw_enter_def rprw_enter_read_def)
  ultimately show ?thesis using rprw_reachable.step by (simp add: demo_rprw_def rprw_start_def)
qed

theorem rprw_exclusion_witness:
  "rw_writer (rwl demo_rprw) = Some 1 \<and> (\<exists>l. rprw_enter 1 RW_READER 7 (rwl demo_rprw) = Some (Some l)) \<and>
   rprw_exit 1 5 (rwl demo_rprw) \<noteq> None \<and> rprw_enter 2 RW_READER 6 (rwl demo_rprw) = Some None"
  using rprw_exclusion [OF demo_rprw_reachable, where t = 1 and rw = RW_READER and tag = 7] rprw_exclusion [OF demo_rprw_reachable, where t = 1 and tag = 5]
    rprw_exclusion [OF demo_rprw_reachable, where t = 2 and rw = RW_READER and tag = 6]
  by (simp add: demo_rprw_def can_enter_def)

end
