(* ===== verification/Checksum.thy ===== *)
theory Checksum
  imports Blkptr
begin

text \<open>
  The checksum functions: Fletcher-2 and Fletcher-4 (\<^verbatim>\<open>src/lib/libzpool/fletcher.c\<close>) for native and byte-swapped data, and
  SHA-256 (\<^verbatim>\<open>src/lib/libzpool/sha256.c\<close>). A buffer is a list of bytes, and loading a word from it depends on the byte order of
  the host, a parameter (\<^const>\<open>True\<close> for big-endian), so that a function run on one host can be compared with its counterpart on a
  host of the other order. Reading beyond the end of the buffer is the outcome \<^const>\<open>None\<close>. The main results: the byte-swapping variants compute on one
  host what the native ones compute on the other, and the incremental variants continue a checksum.
\<close>

unbundle bit_operations_syntax

section \<open>Bytes and words\<close>

definition BSWAP_8 :: "'a :: len word \<Rightarrow> 'a word" where
  "BSWAP_8 x = x AND 0xff"

definition BSWAP_16 :: "'a :: len word \<Rightarrow> 'a word" where
  "BSWAP_16 x = push_bit 8 (BSWAP_8 x) OR BSWAP_8 (drop_bit 8 x)"

definition BSWAP_32 :: "'a :: len word \<Rightarrow> 'a word" where
  "BSWAP_32 x = push_bit 16 (BSWAP_16 x) OR BSWAP_16 (drop_bit 16 x)"

definition BSWAP_64 :: "'a :: len word \<Rightarrow> 'a word" where
  "BSWAP_64 x = push_bit 32 (BSWAP_32 x) OR BSWAP_32 (drop_bit 32 x)"

primrec le_word :: "u8 list \<Rightarrow> 'a :: len word" where
  "le_word [] = 0"
| "le_word (b # bs) = ucast b OR push_bit 8 (le_word bs)"

definition load :: "bool \<Rightarrow> u8 list \<Rightarrow> 'a :: len word" where
  "load big bs = le_word (if big then rev bs else bs)"

function words :: "nat \<Rightarrow> (u8 list \<Rightarrow> 'w) \<Rightarrow> u8 list \<Rightarrow> 'w list" where
  \<comment> \<open>a buffer read as an array of words of \<open>k\<close> bytes\<close>
  "words k ld buf = (if k = 0 \<or> length buf < k then [] else ld (take k buf) # words k ld (drop k buf))"
  by pat_completeness auto
termination
  by (relation "measure (\<lambda>(k, _, buf). length buf)") auto

declare words.simps [simp del]

definition words64 :: "bool \<Rightarrow> u8 list \<Rightarrow> u64 list" where
  "words64 big = words 8 (load big)"

definition words32 :: "bool \<Rightarrow> u8 list \<Rightarrow> u32 list" where
  "words32 big = words 4 (load big)"

section \<open>Fletcher checksums\<close>

definition zio_cksum_of :: "u64 \<Rightarrow> u64 \<Rightarrow> u64 \<Rightarrow> u64 \<Rightarrow> zio_cksum" where
  "zio_cksum_of a b c d = \<lparr>zc_word0 = a, zc_word1 = b, zc_word2 = c, zc_word3 = d\<rparr>"

fun fletcher_2_loop :: "(u64 \<Rightarrow> u64) \<Rightarrow> u64 list \<Rightarrow> u64 \<Rightarrow> u64 \<Rightarrow> u64 \<Rightarrow> u64 \<Rightarrow> zio_cksum option" where
  "fletcher_2_loop f [] a0 a1 b0 b1 = Some (zio_cksum_of a0 a1 b0 b1)"
| "fletcher_2_loop f [x] a0 a1 b0 b1 = None"
| "fletcher_2_loop f (x # y # ip) a0 a1 b0 b1 =
     (let a0 = a0 + f x; a1 = a1 + f y; b0 = b0 + a0; b1 = b1 + a1 in fletcher_2_loop f ip a0 a1 b0 b1)"

definition fletcher_2_native :: "bool \<Rightarrow> u8 list \<Rightarrow> zio_cksum option" where
  "fletcher_2_native big buf = fletcher_2_loop (\<lambda>x. x) (words64 big buf) 0 0 0 0"

definition fletcher_2_byteswap :: "bool \<Rightarrow> u8 list \<Rightarrow> zio_cksum option" where
  "fletcher_2_byteswap big buf = fletcher_2_loop BSWAP_64 (words64 big buf) 0 0 0 0"

fun fletcher_4_loop :: "(u32 \<Rightarrow> u32) \<Rightarrow> u32 list \<Rightarrow> u64 \<Rightarrow> u64 \<Rightarrow> u64 \<Rightarrow> u64 \<Rightarrow> zio_cksum" where
  "fletcher_4_loop f [] a b c d = zio_cksum_of a b c d"
| "fletcher_4_loop f (x # ip) a b c d =
     (let a = a + ucast (f x); b = b + a; c = c + b; d = d + c in fletcher_4_loop f ip a b c d)"

definition fletcher_4_native :: "bool \<Rightarrow> u8 list \<Rightarrow> zio_cksum option" where
  "fletcher_4_native big buf = Some (fletcher_4_loop (\<lambda>x. x) (words32 big buf) 0 0 0 0)"

definition fletcher_4_byteswap :: "bool \<Rightarrow> u8 list \<Rightarrow> zio_cksum option" where
  "fletcher_4_byteswap big buf = Some (fletcher_4_loop BSWAP_32 (words32 big buf) 0 0 0 0)"

definition fletcher_4_incremental_native :: "bool \<Rightarrow> u8 list \<Rightarrow> zio_cksum \<Rightarrow> zio_cksum" where
  "fletcher_4_incremental_native big buf zc =
     fletcher_4_loop (\<lambda>x. x) (words32 big buf) (zc_word0 zc) (zc_word1 zc) (zc_word2 zc) (zc_word3 zc)"

definition fletcher_4_incremental_byteswap :: "bool \<Rightarrow> u8 list \<Rightarrow> zio_cksum \<Rightarrow> zio_cksum" where
  "fletcher_4_incremental_byteswap big buf zc =
     fletcher_4_loop BSWAP_32 (words32 big buf) (zc_word0 zc) (zc_word1 zc) (zc_word2 zc) (zc_word3 zc)"

section \<open>SHA-256\<close>

definition Ch :: "u32 \<Rightarrow> u32 \<Rightarrow> u32 \<Rightarrow> u32" where "Ch x y z = z XOR (x AND (y XOR z))"
definition Maj :: "u32 \<Rightarrow> u32 \<Rightarrow> u32 \<Rightarrow> u32" where "Maj x y z = (x AND y) XOR (z AND (x XOR y))"
definition Rot32 :: "u32 \<Rightarrow> nat \<Rightarrow> u32" where "Rot32 x s = drop_bit s x OR push_bit (32 - s) x"
definition SIGMA0 :: "u32 \<Rightarrow> u32" where "SIGMA0 x = Rot32 x 2 XOR Rot32 x 13 XOR Rot32 x 22"
definition SIGMA1 :: "u32 \<Rightarrow> u32" where "SIGMA1 x = Rot32 x 6 XOR Rot32 x 11 XOR Rot32 x 25"
definition sigma0 :: "u32 \<Rightarrow> u32" where "sigma0 x = Rot32 x 7 XOR Rot32 x 18 XOR drop_bit 3 x"
definition sigma1 :: "u32 \<Rightarrow> u32" where "sigma1 x = Rot32 x 17 XOR Rot32 x 19 XOR drop_bit 10 x"

definition SHA256_K :: "u32 list" where
  "SHA256_K = [
     0x428a2f98, 0x71374491, 0xb5c0fbcf, 0xe9b5dba5,
     0x3956c25b, 0x59f111f1, 0x923f82a4, 0xab1c5ed5,
     0xd807aa98, 0x12835b01, 0x243185be, 0x550c7dc3,
     0x72be5d74, 0x80deb1fe, 0x9bdc06a7, 0xc19bf174,
     0xe49b69c1, 0xefbe4786, 0x0fc19dc6, 0x240ca1cc,
     0x2de92c6f, 0x4a7484aa, 0x5cb0a9dc, 0x76f988da,
     0x983e5152, 0xa831c66d, 0xb00327c8, 0xbf597fc7,
     0xc6e00bf3, 0xd5a79147, 0x06ca6351, 0x14292967,
     0x27b70a85, 0x2e1b2138, 0x4d2c6dfc, 0x53380d13,
     0x650a7354, 0x766a0abb, 0x81c2c92e, 0x92722c85,
     0xa2bfe8a1, 0xa81a664b, 0xc24b8b70, 0xc76c51a3,
     0xd192e819, 0xd6990624, 0xf40e3585, 0x106aa070,
     0x19a4c116, 0x1e376c08, 0x2748774c, 0x34b0bcb5,
     0x391c0cb3, 0x4ed8aa4a, 0x5b9cca4f, 0x682e6ff3,
     0x748f82ee, 0x78a5636f, 0x84c87814, 0x8cc70208,
     0x90befffa, 0xa4506ceb, 0xbef9a3f7, 0xc67178f2]"

type_synonym sha_state = "u32 \<times> u32 \<times> u32 \<times> u32 \<times> u32 \<times> u32 \<times> u32 \<times> u32"

definition sha_schedule :: "u8 list \<Rightarrow> u32 list" where
  \<comment> \<open>the array \<^verbatim>\<open>W\<close>\<close>
  "sha_schedule cp =
     fold (\<lambda>t W. W @ [sigma1 (W ! (t - 2)) + W ! (t - 7) + sigma0 (W ! (t - 15)) + W ! (t - 16)]) [16..<64]
       (map (\<lambda>t. push_bit 24 (ucast (cp ! (4 * t))) OR push_bit 16 (ucast (cp ! (4 * t + 1))) OR
                 push_bit 8 (ucast (cp ! (4 * t + 2))) OR ucast (cp ! (4 * t + 3))) [0..<16])"

fun sha_round :: "u32 \<times> u32 \<Rightarrow> sha_state \<Rightarrow> sha_state" where
  "sha_round (k, w) (a, b, c, d, e, f, g, h) =
     (let t1 = h + SIGMA1 e + Ch e f g + k + w; t2 = SIGMA0 a + Maj a b c
      in (t1 + t2, a, b, c, d + t1, e, f, g))"

fun sha_add :: "sha_state \<Rightarrow> sha_state \<Rightarrow> sha_state" where
  "sha_add (a, b, c, d, e, f, g, h) (a', b', c', d', e', f', g', h') =
     (a + a', b + b', c + c', d + d', e + e', f + f', g + g', h + h')"

definition SHA256Transform :: "sha_state \<Rightarrow> u8 list \<Rightarrow> sha_state" where
  "SHA256Transform H cp = sha_add H (fold sha_round (zip SHA256_K (sha_schedule cp)) H)"

definition pad_need :: "nat \<Rightarrow> nat" where
  \<comment> \<open>how many bytes are missing\<close>
  "pad_need n = (if n mod 64 \<le> 56 then 56 - n mod 64 else 120 - n mod 64)"

lemma pad_need_Suc: "n mod 64 \<noteq> 56 \<Longrightarrow> pad_need n = Suc (pad_need (Suc n))"
  using mod_less_divisor [of 64 n] by (auto simp: pad_need_def mod_Suc)

function sha_pad :: "u8 list \<Rightarrow> u8 list" where
  \<comment> \<open>zero bytes up to eight short of a block\<close>
  "sha_pad pad = (if length pad mod 64 = 56 then pad else sha_pad (pad @ [0]))"
  by pat_completeness auto
termination
  by (relation "measure (\<lambda>pad. pad_need (length pad))") (simp_all add: pad_need_Suc)

declare sha_pad.simps [simp del]

definition sha_init :: sha_state where
  "sha_init = (0x6a09e667, 0xbb67ae85, 0x3c6ef372, 0xa54ff53a, 0x510e527f, 0x9b05688c, 0x1f83d9ab, 0x5be0cd19)"

definition zio_checksum_SHA256 :: "u8 list \<Rightarrow> zio_cksum" where
  "zio_checksum_SHA256 buf =
     (let n = length buf div 64 * 64;
          H = fold (\<lambda>cp H. SHA256Transform H cp) (words 64 (\<lambda>cp. cp) (take n buf)) sha_init;
          pad = sha_pad (drop n buf @ [0x80]) @ map (\<lambda>i. ucast (drop_bit i (push_bit 3 (of_nat (length buf) :: u64)))) [56, 48, 40, 32, 24, 16, 8, 0];
          (a, b, c, d, e, f, g, h) = fold (\<lambda>cp H. SHA256Transform H cp) (words 64 (\<lambda>cp. cp) pad) H
      in zio_cksum_of (push_bit 32 (ucast a) OR ucast b) (push_bit 32 (ucast c) OR ucast d)
           (push_bit 32 (ucast e) OR ucast f) (push_bit 32 (ucast g) OR ucast h))"

section \<open>Byte order\<close>

lemma bit_le_word:
  "bit (le_word bs :: 'a :: len word) n \<longleftrightarrow> n < LENGTH('a) \<and> n < 8 * length bs \<and> bit (bs ! (n div 8)) (n mod 8)"
proof (induction bs arbitrary: n)
  case (Cons b bs)
  have "bit b n \<Longrightarrow> n < 8" using bit_imp_le_length [of b n] by simp
  then show ?case
    by (cases "n < 8") (auto simp: bit_or_iff bit_push_bit_iff bit_ucast_iff Cons.IH le_div_geq le_mod_geq)
qed simp

lemma bit_BSWAP_8: "bit (BSWAP_8 x :: 'a :: len word) n \<longleftrightarrow> n < 8 \<and> bit x n"
proof -
  have "BSWAP_8 x = take_bit 8 x" by (simp add: BSWAP_8_def take_bit_eq_mask mask_eq_exp_minus_1)
  then show ?thesis by (simp only: bit_take_bit_iff)
qed

lemma bit_BSWAP_16: "bit (BSWAP_16 x :: 'a :: len word) n \<longleftrightarrow>
    n < LENGTH('a) \<and> n < 16 \<and> bit x (if n < 8 then n + 8 else n - 8)"
  by (cases "n < 8")
    (auto simp: BSWAP_16_def bit_or_iff bit_push_bit_iff bit_drop_bit_eq bit_BSWAP_8 add.commute dest: bit_imp_le_length)

lemma bit_BSWAP_32: "bit (BSWAP_32 x :: 'a :: len word) n \<longleftrightarrow> n < LENGTH('a) \<and> n < 32 \<and>
    bit x (if n < 8 then n + 24 else if n < 16 then n + 8 else if n < 24 then n - 8 else n - 24)"
  by (auto simp: BSWAP_32_def bit_or_iff bit_push_bit_iff bit_drop_bit_eq bit_BSWAP_16 add.commute)

lemma swap_index:
  fixes k r :: nat
  assumes "r < 8" "k \<in> {0, 1, 2, 3, 4, 5, 6, 7}"
  shows "8 * (7 - k) + r = (let n = 8 * k + r in if n < 32 then if n < 8 then n + 56 else if n < 16 then n + 40 else if n < 24 then n + 24 else n + 8
      else if n < 40 then n - 8 else if n < 48 then n - 24 else if n < 56 then n - 40 else n - 56)"
  using assms(2,1) by (elim insertE emptyE) simp_all

lemma swap_index_32:
  fixes k r :: nat
  assumes "r < 8" "k \<in> {0, 1, 2, 3}"
  shows "8 * (3 - k) + r = (let n = 8 * k + r in if n < 8 then n + 24 else if n < 16 then n + 8 else if n < 24 then n - 8 else n - 24)"
  using assms(2,1) by (elim insertE emptyE) simp_all

lemma bit_BSWAP_64: "bit (BSWAP_64 x :: u64) n \<longleftrightarrow> n < 64 \<and> bit x (8 * (7 - n div 8) + n mod 8)"
proof -
  have e1: "bit (BSWAP_64 x) n \<longleftrightarrow> n < 64 \<and> bit x (if n < 32 then if n < 8 then n + 56 else if n < 16 then n + 40 else if n < 24 then n + 24 else n + 8
      else if n < 40 then n - 8 else if n < 48 then n - 24 else if n < 56 then n - 40 else n - 56)"
    by (auto simp: BSWAP_64_def bit_or_iff bit_push_bit_iff bit_drop_bit_eq bit_BSWAP_32 add.commute)
  have e2: "8 * (7 - n div 8) + n mod 8 = (if n < 32 then if n < 8 then n + 56 else if n < 16 then n + 40 else if n < 24 then n + 24 else n + 8
      else if n < 40 then n - 8 else if n < 48 then n - 24 else if n < 56 then n - 40 else n - 56)" if "n < 64"
  proof -
    have "n div 8 < 8" using that by simp
    then have "n div 8 \<in> {0, 1, 2, 3, 4, 5, 6, 7}" unfolding insert_iff empty_iff by linarith
    then show ?thesis using swap_index [of "n mod 8" "n div 8"] by simp
  qed
  show ?thesis
  proof (cases "n < 64")
    case True
    then show ?thesis unfolding e2 [OF True] using e1 by blast
  qed (use e1 in blast)
qed

lemma load_rev:
  assumes "\<And>n. n < LENGTH('a) \<Longrightarrow> bit (f (le_word bs)) n \<longleftrightarrow> bit (le_word bs :: 'a :: len word) (8 * (length bs - 1 - n div 8) + n mod 8)"
    and "LENGTH('a) = 8 * length bs"
  shows "f (le_word bs) = (le_word (rev bs) :: 'a word)"
proof (rule bit_word_eqI)
  fix n assume n: "n < LENGTH('a)"
  then have k: "n div 8 < length bs" using assms(2) by simp
  have "8 * (length bs - 1 - n div 8) + n mod 8 < 8 * length bs" using k by simp
  then show "bit (f (le_word bs)) n = bit (le_word (rev bs) :: 'a word) n"
    using n k assms(2) by (simp add: assms(1) bit_le_word rev_nth)
qed

lemma BSWAP_load:
  "length bs = 8 \<Longrightarrow> BSWAP_64 (load big bs :: u64) = load (\<not> big) bs"
  "length bs = 4 \<Longrightarrow> BSWAP_32 (load big bs :: u32) = load (\<not> big) bs"
proof -
  have a: "BSWAP_64 (le_word bs :: u64) = le_word (rev bs)" if "length bs = 8" for bs
    by (rule load_rev) (use that in \<open>simp_all add: bit_BSWAP_64\<close>)
  show "BSWAP_64 (load big bs :: u64) = load (\<not> big) bs" if "length bs = 8"
    using a [of bs] a [of "rev bs"] that by (cases big) (simp_all add: load_def)
  have c: "8 * (3 - n div 8) + n mod 8 = (if n < 8 then n + 24 else if n < 16 then n + 8 else if n < 24 then n - 8 else n - 24)"
    if "n < 32" for n :: nat
  proof -
    have "n div 8 < 4" using that by (simp add: less_mult_imp_div_less)
    then have "n div 8 \<in> {0, 1, 2, 3}" unfolding insert_iff empty_iff by linarith
    then show ?thesis using swap_index_32 [of "n mod 8" "n div 8"] by simp
  qed
  have b: "BSWAP_32 (le_word bs :: u32) = le_word (rev bs)" if "length bs = 4" for bs
    by (rule load_rev) (use that c in \<open>simp_all add: bit_BSWAP_32\<close>)
  show "BSWAP_32 (load big bs :: u32) = load (\<not> big) bs" if "length bs = 4"
    using b [of bs] b [of "rev bs"] that by (cases big) (simp_all add: load_def)
qed

lemma words_map:
  assumes "\<And>bs. length bs = k \<Longrightarrow> f (ld bs) = ld' bs"
  shows "map f (words k ld buf) = words k ld' buf"
proof (induction buf rule: length_induct)
  case (1 buf)
  have "map f (words k ld (drop k buf)) = words k ld' (drop k buf)" if "k \<noteq> 0" "k \<le> length buf"
    using 1 that by simp
  then show ?case using assms by (simp add: words.simps [of k ld buf] words.simps [of k ld' buf])
qed

lemma words_append:
  assumes "k dvd length xs"
  shows "words k ld (xs @ ys) = words k ld xs @ words k ld ys"
  using assms
proof (induction xs rule: length_induct)
  case (1 xs)
  show ?case
  proof (cases "k = 0 \<or> length xs < k")
    case True
    then have "k = 0 \<or> xs = []" using 1(2) by (auto simp: dvd_def)
    then show ?thesis by (auto simp: words.simps [of k ld xs] words.simps [of 0])
  next
    case False
    then have "words k ld (drop k xs @ ys) = words k ld (drop k xs) @ words k ld ys"
      using 1 by (auto simp: dvd_minus_self)
    then show ?thesis
      using False by (subst words.simps, subst (2) words.simps) simp
  qed
qed

lemma fletcher_loops_map:
  "fletcher_2_loop f ip a0 a1 b0 b1 = fletcher_2_loop (\<lambda>x. x) (map f ip) a0 a1 b0 b1"
  "fletcher_4_loop g ip' a b c d = fletcher_4_loop (\<lambda>x. x) (map g ip') a b c d"
proof -
  show "fletcher_2_loop f ip a0 a1 b0 b1 = fletcher_2_loop (\<lambda>x. x) (map f ip) a0 a1 b0 b1"
    by (induction f ip a0 a1 b0 b1 rule: fletcher_2_loop.induct) (simp_all add: Let_def)
  show "fletcher_4_loop g ip' a b c d = fletcher_4_loop (\<lambda>x. x) (map g ip') a b c d"
    by (induction ip' arbitrary: a b c d) (simp_all add: Let_def)
qed

lemma fletcher_byteswap:
  "fletcher_2_byteswap (\<not> big) buf = fletcher_2_native big buf" "fletcher_4_byteswap (\<not> big) buf = fletcher_4_native big buf"
proof -
  have "map BSWAP_64 (words64 (\<not> big) buf) = words64 big buf" "map BSWAP_32 (words32 (\<not> big) buf) = words32 big buf"
    unfolding words64_def words32_def by (rule words_map, simp add: BSWAP_load)+
  then show "fletcher_2_byteswap (\<not> big) buf = fletcher_2_native big buf" "fletcher_4_byteswap (\<not> big) buf = fletcher_4_native big buf"
    by (simp_all add: fletcher_2_byteswap_def fletcher_2_native_def fletcher_4_byteswap_def fletcher_4_native_def
      fletcher_loops_map(1) [of BSWAP_64] fletcher_loops_map(2) [of BSWAP_32])
qed

lemma fletcher_4_loop_append:
  "fletcher_4_loop f (xs @ ys) a b c d =
     (let zc = fletcher_4_loop f xs a b c d in fletcher_4_loop f ys (zc_word0 zc) (zc_word1 zc) (zc_word2 zc) (zc_word3 zc))"
  by (induction xs arbitrary: a b c d) (simp_all add: Let_def zio_cksum_of_def)

lemma fletcher_4_incremental:
  assumes "4 dvd length xs"
  shows "fletcher_4_native big (xs @ ys) = map_option (fletcher_4_incremental_native big ys) (fletcher_4_native big xs)"
    "fletcher_4_byteswap big (xs @ ys) = map_option (fletcher_4_incremental_byteswap big ys) (fletcher_4_byteswap big xs)"
  by (simp_all add: words_append [OF assms] fletcher_4_native_def fletcher_4_byteswap_def fletcher_4_incremental_native_def fletcher_4_incremental_byteswap_def
      words32_def fletcher_4_loop_append Let_def)

lemma fletcher_2_returns:
  assumes "16 dvd length buf"
  shows "\<exists>zc. fletcher_2_loop f (words64 big buf) a0 a1 b0 b1 = Some zc"
  using assms
proof (induction buf arbitrary: a0 a1 b0 b1 rule: length_induct)
  case (1 buf)
  show ?case
  proof (cases "buf = []")
    case True
    then show ?thesis by (simp add: words64_def words.simps)
  next
    case False
    then have l: "16 \<le> length buf" using 1(2) by (simp add: dvd_imp_le)
    then have "words64 big buf = load big (take 8 buf) # load big (take 8 (drop 8 buf)) # words64 big (drop 16 buf)"
      unfolding words64_def by (subst words.simps, subst words.simps) simp
    moreover have "16 dvd length (drop 16 buf)" using 1(2) l by (simp add: dvd_minus_self)
    ultimately show ?thesis using 1(1) l by (simp add: Let_def)
  qed
qed

section \<open>SHA-256\<close>

lemma FIPS_functions:
  "Ch x y z = (x AND y) XOR (NOT x AND z)" "Maj x y z = (x AND y) XOR (x AND z) XOR (y AND z)"
  by (rule bit_word_eqI; auto simp: Ch_def Maj_def bit_simps)+

lemma sha_pad_length:
  "length (sha_pad pad) mod 64 = 56" "length pad \<le> length (sha_pad pad)" "length (sha_pad pad) < length pad + 64"
proof -
  have "length (sha_pad pad) mod 64 = 56 \<and> length (sha_pad pad) = length pad + pad_need (length pad)"
  proof (induction pad rule: sha_pad.induct)
    case (1 pad)
    show ?case
    proof (cases "length pad mod 64 = 56")
      case True
      then show ?thesis by (simp add: sha_pad.simps [of pad] pad_need_def)
    next
      case False
      then have "sha_pad pad = sha_pad (pad @ [0])" by (simp add: sha_pad.simps [of pad])
      then show ?thesis using 1 [OF False] pad_need_Suc [OF False] by (metis add_Suc_right add_Suc length_append_singleton)
    qed
  qed
  moreover have "pad_need (length pad) < 64" unfolding pad_need_def by (simp split: if_split) linarith
  ultimately show "length (sha_pad pad) mod 64 = 56" "length pad \<le> length (sha_pad pad)" "length (sha_pad pad) < length pad + 64"
    by (blast, linarith, linarith)
qed

lemma sha_pad_fits:
  \<comment> \<open>the padding fits the buffer \<^verbatim>\<open>pad[128]\<close> and is a whole number of blocks\<close>
  fixes buf :: "u8 list"
  defines "pad \<equiv> sha_pad (drop (length buf div 64 * 64) buf @ [0x80])"
  shows "length pad + 8 \<in> {64, 128}"
proof -
  have "length (drop (length buf div 64 * 64) buf) = length buf mod 64" by (simp add: minus_div_mult_eq_mod)
  then have "length pad mod 64 = 56" "length pad < 128"
    using sha_pad_length [of "drop (length buf div 64 * 64) buf @ [0x80]"] mod_less_divisor [of 64 "length buf"]
    unfolding pad_def by (simp, simp) linarith
  moreover have "length pad div 64 < 2" using \<open>length pad < 128\<close> by (simp add: less_mult_imp_div_less)
  then have "length pad div 64 = 0 \<or> length pad div 64 = 1" by linarith
  ultimately have "length pad = 56 \<or> length pad = 120" using div_mult_mod_eq [of "length pad" 64] by auto
  then show ?thesis by auto
qed

end
