(* ===== verification/Zio_Checksum.thy ===== *)
theory Zio_Checksum
  imports Checksum Vdev
begin

text \<open>
  Checksumming of blocks (\<^verbatim>\<open>src/lib/libzpool/zio_checksum.c\<close>): the table of checksum functions, the selection, generating the checksum of a
  block, either for the block pointer or embedded in the tail of the block, and verifying it, on a host of either byte order. The
  main result: a block that one host checksums verifies on every host, and verification leaves the block as it was.
\<close>

unbundle bit_operations_syntax

section \<open>The block tail\<close>

definition ZBT_MAGIC :: u64 where "ZBT_MAGIC = 0x210da7ab10c7a11"

definition store64 :: "bool \<Rightarrow> u64 \<Rightarrow> u8 list" where
  "store64 big w = (let bs = map (\<lambda>j. ucast (drop_bit (8 * j) w)) [0..<8] in if big then rev bs else bs)"

definition store_cksum :: "bool \<Rightarrow> zio_cksum \<Rightarrow> u8 list" where
  "store_cksum big zc = store64 big (zc_word0 zc) @ store64 big (zc_word1 zc) @ store64 big (zc_word2 zc) @ store64 big (zc_word3 zc)"

definition load_cksum :: "bool \<Rightarrow> u8 list \<Rightarrow> zio_cksum" where
  "load_cksum big bs = zio_cksum_of (load big (take 8 bs)) (load big (take 8 (drop 8 bs)))
     (load big (take 8 (drop 16 bs))) (load big (take 8 (drop 24 bs)))"

text \<open>The tail is the last 40 bytes of the block: the magic number and the checksum.\<close>

definition zbt_magic :: "bool \<Rightarrow> u8 list \<Rightarrow> u64" where
  "zbt_magic big data = load big (take 8 (drop (length data - 40) data))"

definition set_zbt_magic :: "bool \<Rightarrow> u64 \<Rightarrow> u8 list \<Rightarrow> u8 list" where
  "set_zbt_magic big m data = take (length data - 40) data @ store64 big m @ drop (length data - 32) data"

definition zbt_cksum :: "bool \<Rightarrow> u8 list \<Rightarrow> zio_cksum" where
  "zbt_cksum big data = load_cksum big (drop (length data - 32) data)"

definition set_zbt_cksum :: "bool \<Rightarrow> zio_cksum \<Rightarrow> u8 list \<Rightarrow> u8 list" where
  "set_zbt_cksum big zc data = take (length data - 32) data @ store_cksum big zc"

definition byteswap_cksum :: "zio_cksum \<Rightarrow> zio_cksum" where
  \<comment> \<open>\<^verbatim>\<open>byteswap_uint64_array(zc, sizeof (zio_cksum_t))\<close>\<close>
  "byteswap_cksum zc = zio_cksum_of (BSWAP_64 (zc_word0 zc)) (BSWAP_64 (zc_word1 zc)) (BSWAP_64 (zc_word2 zc)) (BSWAP_64 (zc_word3 zc))"

section \<open>The table\<close>

type_synonym checksum_func = "bool \<Rightarrow> u8 list \<Rightarrow> zio_cksum option"

record zio_checksum_info =
  ci_func :: "(checksum_func \<times> checksum_func) option"  \<comment> \<open>for native and byte-swapped data\<close>
  ci_correctable :: nat
  ci_zbt :: bool
  ci_name :: string

definition zio_checksum_off :: checksum_func where
  "zio_checksum_off big buf = Some (zio_cksum_of 0 0 0 0)"

abbreviation SHA256_func :: checksum_func where
  "SHA256_func big buf \<equiv> Some (zio_checksum_SHA256 buf)"

definition zio_checksum_table :: "zio_checksum_info list" where
  "zio_checksum_table = [
     \<lparr>ci_func = None, ci_correctable = 0, ci_zbt = False, ci_name = ''inherit''\<rparr>,
     \<lparr>ci_func = None, ci_correctable = 0, ci_zbt = False, ci_name = ''on''\<rparr>,
     \<lparr>ci_func = Some (zio_checksum_off, zio_checksum_off), ci_correctable = 0, ci_zbt = False, ci_name = ''off''\<rparr>,
     \<lparr>ci_func = Some (SHA256_func, SHA256_func), ci_correctable = 1, ci_zbt = True, ci_name = ''label''\<rparr>,
     \<lparr>ci_func = Some (SHA256_func, SHA256_func), ci_correctable = 1, ci_zbt = True, ci_name = ''gang_header''\<rparr>,
     \<lparr>ci_func = Some (fletcher_2_native, fletcher_2_byteswap), ci_correctable = 0, ci_zbt = True, ci_name = ''zilog''\<rparr>,
     \<lparr>ci_func = Some (fletcher_2_native, fletcher_2_byteswap), ci_correctable = 0, ci_zbt = False, ci_name = ''fletcher2''\<rparr>,
     \<lparr>ci_func = Some (fletcher_4_native, fletcher_4_byteswap), ci_correctable = 1, ci_zbt = False, ci_name = ''fletcher4''\<rparr>,
     \<lparr>ci_func = Some (SHA256_func, SHA256_func), ci_correctable = 1, ci_zbt = False, ci_name = ''SHA256''\<rparr>]"

definition ZIO_CHECKSUM_INHERIT :: nat where "ZIO_CHECKSUM_INHERIT = 0"
definition ZIO_CHECKSUM_ON :: nat where "ZIO_CHECKSUM_ON = 1"
definition ZIO_CHECKSUM_GANG_HEADER :: nat where "ZIO_CHECKSUM_GANG_HEADER = 4"
definition ZIO_CHECKSUM_ON_VALUE :: nat where "ZIO_CHECKSUM_ON_VALUE = 6"
definition ZIO_CHECKSUM_FUNCTIONS :: nat where "ZIO_CHECKSUM_FUNCTIONS = 9"

definition zio_checksum_select :: "nat \<Rightarrow> nat \<Rightarrow> nat option" where
  "zio_checksum_select child parent = do {
     VERIFY (child < ZIO_CHECKSUM_FUNCTIONS);
     VERIFY (parent < ZIO_CHECKSUM_FUNCTIONS);
     VERIFY (parent \<noteq> ZIO_CHECKSUM_INHERIT \<and> parent \<noteq> ZIO_CHECKSUM_ON);
     Some (if child = ZIO_CHECKSUM_INHERIT then parent
       else if child = ZIO_CHECKSUM_ON then ZIO_CHECKSUM_ON_VALUE else child) }"

section \<open>Generating and verifying\<close>

definition zio_checksum :: "bool \<Rightarrow> nat \<Rightarrow> u8 list \<Rightarrow> (zio_cksum \<times> u8 list) option" where
  \<comment> \<open>the checksum for the caller, and the block\<close>
  "zio_checksum big checksum data = do {
     VERIFY (checksum < ZIO_CHECKSUM_FUNCTIONS);
     let ci = zio_checksum_table ! checksum;
     (func, _) \<leftarrow> ci_func ci;
     if ci_zbt ci then do {
       VERIFY (length data \<ge> 40);
       let zc = zbt_cksum big data;
       let data = set_zbt_magic big ZBT_MAGIC data;
       c \<leftarrow> func big data;
       Some (zc, set_zbt_cksum big c data) }
     else do {
       zc \<leftarrow> func big data;
       Some (zc, data) } }"

definition SPA_GANGBLOCKSIZE :: u64 where "SPA_GANGBLOCKSIZE = SPA_MINBLOCKSIZE"

definition ZIO_GET_IOSIZE :: "blkptr \<Rightarrow> u64" where
  "ZIO_GET_IOSIZE bp = (if BP_IS_GANG bp \<noteq> 0 then SPA_GANGBLOCKSIZE else BP_GET_PSIZE bp)"

definition zio_set_gang_verifier :: "blkptr \<Rightarrow> zio_cksum" where
  "zio_set_gang_verifier bp = zio_cksum_of (DVA_GET_VDEV (BP_IDENTITY bp)) (DVA_GET_OFFSET (BP_IDENTITY bp)) (blk_birth bp) 0"

definition host_byteorder :: "bool \<Rightarrow> u64" where
  \<comment> \<open>\<^const>\<open>ZFS_HOST_BYTEORDER\<close> on either host\<close>
  "host_byteorder big = (if big then 0 else - 1)"

definition checksum_verdict :: "bool \<Rightarrow> (int \<Rightarrow> int) \<Rightarrow> int \<Rightarrow> zio_cksum \<Rightarrow> zio_cksum \<Rightarrow> int" where
  \<comment> \<open>the comparison, and fault injection for a zio without error\<close>
  "checksum_verdict inject_enabled inject err actual zc =
     (if \<not> ZIO_CHECKSUM_EQUAL actual zc then ECKSUM
      else if inject_enabled \<and> err = 0 then inject ECKSUM else 0)"

definition tail_checksum :: "bool \<Rightarrow> checksum_func \<Rightarrow> checksum_func \<Rightarrow> zio_cksum \<Rightarrow> u8 list \<Rightarrow> (zio_cksum \<times> zio_cksum \<times> u8 list) option" where
  \<comment> \<open>the checksum of a block with a tail, the one it should have, and the block\<close>
  "tail_checksum big native swapped zc data =
     (if zbt_magic big data = BSWAP_64 ZBT_MAGIC then do {
        let expected = byteswap_cksum (zbt_cksum big data);
        let data = set_zbt_cksum big (byteswap_cksum zc) data;
        actual \<leftarrow> swapped big data;
        Some (actual, expected, set_zbt_cksum big (byteswap_cksum expected) data) }
      else do {
        let expected = zbt_cksum big data;
        let data = set_zbt_cksum big zc data;
        actual \<leftarrow> native big data;
        Some (actual, expected, set_zbt_cksum big expected data) })"

definition zio_checksum_error :: "bool \<Rightarrow> bool \<Rightarrow> (int \<Rightarrow> int) \<Rightarrow> blkptr \<Rightarrow> int \<Rightarrow> u8 list \<Rightarrow> (int \<times> u8 list) option" where
  \<comment> \<open>the result and the buffer; the arguments after the host are \<^verbatim>\<open>zio_injection_enabled\<close>, \<^verbatim>\<open>zio_handle_fault_injection()\<close> and
     \<^verbatim>\<open>io_bp\<close>, \<^verbatim>\<open>io_error\<close>, \<^verbatim>\<open>io_data\<close> of the zio\<close>
  "zio_checksum_error big inject_enabled inject bp err buf =
     (let checksum = (if BP_IS_GANG bp \<noteq> 0 then ZIO_CHECKSUM_GANG_HEADER else unat (BP_GET_CHECKSUM bp));
          byteswap = (BP_GET_BYTEORDER bp \<noteq> host_byteorder big);
          sz = unat (ZIO_GET_IOSIZE bp);
          ci = zio_checksum_table ! checksum in
      if checksum \<ge> ZIO_CHECKSUM_FUNCTIONS \<or> ci_func ci = None then Some (EINVAL, buf)
      else
        let (native, swapped) = the (ci_func ci) in do {
          VERIFY (sz \<le> length buf);
          (actual, zc, data) \<leftarrow>
            (if ci_zbt ci then do {
               VERIFY (sz \<ge> 40);
               tail_checksum big native swapped
                 (if checksum = ZIO_CHECKSUM_GANG_HEADER then zio_set_gang_verifier bp else blk_cksum bp) (take sz buf) }
             else do {
               actual \<leftarrow> (if byteswap then swapped big (take sz buf) else native big (take sz buf));
               Some (actual, blk_cksum bp, take sz buf) });
          Some (checksum_verdict inject_enabled inject err actual zc, data @ drop sz buf) })"

section \<open>The tail of a block\<close>

lemma length_store [simp]: "length (store64 big w) = 8" "length (store_cksum big zc) = 32"
  by (simp_all add: store64_def store_cksum_def Let_def)

lemma load_store [simp]: "load big (store64 big w) = w"
proof -
  have "le_word (map (\<lambda>j. ucast (drop_bit (8 * j) w) :: u8) [0..<8]) = w"
    by (rule bit_word_eqI) (auto simp: bit_le_word bit_ucast_iff bit_drop_bit_eq)
  then show ?thesis by (simp add: load_def store64_def Let_def)
qed

lemma store_load: "length bs = 8 \<Longrightarrow> store64 big (load big bs) = bs"
proof -
  have "map (\<lambda>j. ucast (drop_bit (8 * j) (le_word xs :: u64))) [0..<8] = xs" if "length xs = 8" for xs :: "u8 list"
  proof (rule nth_equalityI)
    fix j assume "j < length (map (\<lambda>j. ucast (drop_bit (8 * j) (le_word xs :: u64)) :: u8) [0..<8])"
    then have j: "j < 8" by simp
    have "bit (ucast (drop_bit (8 * j) (le_word xs :: u64)) :: u8) n = bit (xs ! j) n" if "n < 8" for n
      using that j \<open>length xs = 8\<close> by (simp add: bit_ucast_iff bit_drop_bit_eq bit_le_word)
    then show "map (\<lambda>j. ucast (drop_bit (8 * j) (le_word xs :: u64))) [0..<8] ! j = xs ! j"
      using j by (intro bit_word_eqI) simp
  qed (use that in simp)
  then show "length bs = 8 \<Longrightarrow> store64 big (load big bs) = bs"
    by (cases big) (simp_all add: load_def store64_def Let_def rev_swap)
qed

lemma store_swapped: "store64 (\<not> big) (BSWAP_64 w) = store64 big w"
proof -
  have "BSWAP_64 w = load (\<not> big) (store64 big w)" using BSWAP_load(1) [of "store64 big w" big] by simp
  then show ?thesis by (simp add: store_load)
qed

lemma BSWAP_64_twice [simp]: "BSWAP_64 (BSWAP_64 w) = (w :: u64)"
  using BSWAP_load(1) [of "store64 False w" False] BSWAP_load(1) [of "store64 False w" True] by simp

lemma load_cksum_store [simp]: "load_cksum big (store_cksum big zc) = zc"
  by (simp add: load_cksum_def store_cksum_def zio_cksum_of_def)

lemma load_cksum_swapped: "length bs = 32 \<Longrightarrow> byteswap_cksum (load_cksum (\<not> big) bs) = load_cksum big bs"
  by (simp add: byteswap_cksum_def load_cksum_def zio_cksum_of_def BSWAP_load)

lemma store_cksum_swapped: "store_cksum (\<not> big) (byteswap_cksum zc) = store_cksum big zc"
  by (simp add: store_cksum_def byteswap_cksum_def zio_cksum_of_def store_swapped)

lemma tail_split:
  assumes "40 \<le> length data"
  obtains body mg ck where "data = body @ mg @ ck" "length mg = 8" "length ck = 32"
proof
  show "data = take (length data - 40) data @ take 8 (drop (length data - 40) data) @ drop 8 (drop (length data - 40) data)"
    by (metis append_take_drop_id)
qed (use assms in auto)

lemma tail_parts:
  assumes "length mg = 8" "length ck = 32"
  shows "zbt_magic big (body @ mg @ ck) = load big mg" "zbt_cksum big (body @ mg @ ck) = load_cksum big ck"
    "set_zbt_magic big m (body @ mg @ ck) = body @ store64 big m @ ck" "set_zbt_cksum big zc (body @ mg @ ck) = body @ mg @ store_cksum big zc"
  using assms by (simp_all add: zbt_magic_def zbt_cksum_def set_zbt_magic_def set_zbt_cksum_def)

section \<open>Functions of the table\<close>

lemma table_cases:
  assumes "c < ZIO_CHECKSUM_FUNCTIONS" "ci_func (zio_checksum_table ! c) = Some (f, g)"
  shows "g (\<not> big) buf = f big buf"
proof -
  have "c \<in> {0, 1, 2, 3, 4, 5, 6, 7, 8}" using assms(1) unfolding ZIO_CHECKSUM_FUNCTIONS_def insert_iff empty_iff by linarith
  then show ?thesis
    using assms(2) by (elim insertE emptyE) (auto simp: zio_checksum_table_def zio_checksum_off_def fletcher_byteswap)
qed

lemma zbt_magic_palindrome: "BSWAP_64 ZBT_MAGIC \<noteq> ZBT_MAGIC"
  by (simp add: ZBT_MAGIC_def BSWAP_64_def BSWAP_32_def BSWAP_16_def BSWAP_8_def)

section \<open>Round trip\<close>

definition describes :: "blkptr \<Rightarrow> bool \<Rightarrow> nat \<Rightarrow> zio_cksum \<Rightarrow> nat \<Rightarrow> bool" where
  \<comment> \<open>the block pointer of a block of \<open>n\<close> bytes that a host of order \<open>big\<close> checksummed with function \<open>c\<close>, which gave \<open>zc\<close>\<close>
  "describes bp big c zc n \<longleftrightarrow>
     c = (if BP_IS_GANG bp \<noteq> 0 then ZIO_CHECKSUM_GANG_HEADER else unat (BP_GET_CHECKSUM bp)) \<and>
     zc = (if c = ZIO_CHECKSUM_GANG_HEADER then zio_set_gang_verifier bp else blk_cksum bp) \<and>
     unat (ZIO_GET_IOSIZE bp) = n \<and> BP_GET_BYTEORDER bp = host_byteorder big"

lemma host_byteorder_eq: "host_byteorder a = host_byteorder b \<longleftrightarrow> a = b"
  by (cases a; cases b) (simp_all add: host_byteorder_def)

lemma verdict_0: "checksum_verdict False inject err actual zc = 0 \<longleftrightarrow> actual = zc"
  by (simp add: checksum_verdict_def ZIO_CHECKSUM_EQUAL_iff ECKSUM_def)

lemma error_eq:
  assumes d: "describes bp big c zc (length buf)" and c: "c < ZIO_CHECKSUM_FUNCTIONS" "ci_func (zio_checksum_table ! c) = Some (f, g)"
  shows "zio_checksum_error host False inject bp err (buf @ rest) = do {
      (actual, zc', data) \<leftarrow> (if ci_zbt (zio_checksum_table ! c) then do { VERIFY (length buf \<ge> 40); tail_checksum host f g zc buf }
        else do { actual \<leftarrow> f big buf; Some (actual, blk_cksum bp, buf) });
      Some (checksum_verdict False inject err actual zc', data @ rest) }"
proof -
  have e: "(if BP_IS_GANG bp \<noteq> 0 then ZIO_CHECKSUM_GANG_HEADER else unat (BP_GET_CHECKSUM bp)) = c"
    "(if c = ZIO_CHECKSUM_GANG_HEADER then zio_set_gang_verifier bp else blk_cksum bp) = zc"
    "unat (ZIO_GET_IOSIZE bp) = length buf" "BP_GET_BYTEORDER bp = host_byteorder big"
    using d by (simp_all add: describes_def)
  have "(if host_byteorder big \<noteq> host_byteorder host then g host buf else f host buf) = f big buf"
    using table_cases [OF c, of big buf] by (cases big; cases host) (simp_all add: host_byteorder_def)
  then show ?thesis
    unfolding zio_checksum_error_def Let_def e
    using c by (cases "host_byteorder big = host_byteorder host") simp_all
qed

lemma store_load_cksum: "length ck = 32 \<Longrightarrow> store_cksum big (load_cksum big ck) = ck"
proof -
  assume l: "length ck = 32"
  have "store_cksum big (load_cksum big ck) = take 8 ck @ take 8 (drop 8 ck) @ take 8 (drop 16 ck) @ take 8 (drop 24 ck)"
    using l by (simp add: store_cksum_def load_cksum_def zio_cksum_of_def store_load)
  also have "take 8 (drop 24 ck) = drop 8 (drop 16 ck)" using l by simp
  also have "take 8 (drop 16 ck) @ drop 8 (drop 16 ck) = drop 8 (drop 8 ck)" by (simp add: append_take_drop_id [of 8 "drop 16 ck", simplified])
  also have "take 8 (drop 8 ck) @ drop 8 (drop 8 ck) = drop 8 ck" by (rule append_take_drop_id)
  finally show ?thesis by simp
qed

lemma tail_checksum_eq:
  assumes c: "c < ZIO_CHECKSUM_FUNCTIONS" "ci_func (zio_checksum_table ! c) = Some (f, g)" and ck: "length ck = 32"
  shows "tail_checksum host f g zc (body @ store64 big ZBT_MAGIC @ ck) = do {
    actual \<leftarrow> f big (body @ store64 big ZBT_MAGIC @ store_cksum big zc);
    Some (actual, load_cksum big ck, body @ store64 big ZBT_MAGIC @ ck) }"
proof (cases "host = big")
  case True
  then show ?thesis
    using zbt_magic_palindrome ck by (simp add: tail_checksum_def tail_parts store_load_cksum)
next
  case False
  then have h: "host = (\<not> big)" by auto
  have m: "load (\<not> big) (store64 big ZBT_MAGIC) = BSWAP_64 ZBT_MAGIC"
    using BSWAP_load(1) [of "store64 big ZBT_MAGIC" big] by simp
  have k: "byteswap_cksum (load_cksum (\<not> big) ck) = load_cksum big ck" by (rule load_cksum_swapped [OF ck])
  show ?thesis
    unfolding h tail_checksum_def using ck
    by (simp add: tail_parts m k store_cksum_swapped table_cases [OF c] store_load_cksum)
qed

section \<open>Properties\<close>

text \<open>C9. Checksums do not depend on the byte order of the host. When a host checksums a block, with any function of the table,
  embedded in the block's tail or not, gang headers included, every host that reads the block through a block pointer describing it
  finds no error, and verification leaves the buffer as it was. For checksums kept in the block pointer, verification accepts exactly the
  blocks of that size for which the writing host would have computed the same checksum.\<close>
theorem zio_checksum_roundtrip:
  assumes "zio_checksum big c data = Some (zc, data')" and "describes bp big c zc (length data)"
  shows "zio_checksum_error host False inject bp err (data' @ rest) = Some (0, data' @ rest) \<and>
    (\<not> ci_zbt (zio_checksum_table ! c) \<and> length buf = length data \<longrightarrow>
      (zio_checksum_error host False inject bp err buf = Some (0, buf)) = (zio_checksum big c buf = Some (zc, buf)))"
proof -
  have c: "c < ZIO_CHECKSUM_FUNCTIONS" using assms(1) by (auto simp: zio_checksum_def split: if_splits)
  obtain f g where fg: "ci_func (zio_checksum_table ! c) = Some (f, g)"
    using assms(1) c by (cases "ci_func (zio_checksum_table ! c)") (auto simp: zio_checksum_def)
  have z: "zc = blk_cksum bp" if "\<not> ci_zbt (zio_checksum_table ! c)"
    using assms(2) that by (auto simp: describes_def ZIO_CHECKSUM_GANG_HEADER_def zio_checksum_table_def)
  show ?thesis
  proof (cases "ci_zbt (zio_checksum_table ! c)")
    case False
    have gen: "zio_checksum big c d = map_option (\<lambda>zc. (zc, d)) (f big d)" for d
      using c fg False by (cases "f big d") (simp_all add: zio_checksum_def)
    have err: "zio_checksum_error host False inject bp err (d @ r) = map_option (\<lambda>a. (checksum_verdict False inject err a zc, d @ r)) (f big d)"
      if "length d = length data" for d r
      using error_eq [of bp big c zc d f g host inject err r] assms(2) c fg False that z by (cases "f big d") simp_all
    have "f big data = Some zc" "data' = data" using assms(1) gen by auto
    moreover have "(zio_checksum_error host False inject bp err buf = Some (0, buf)) = (zio_checksum big c buf = Some (zc, buf))"
      if "length buf = length data"
      using err [of buf "[]"] gen [of buf] that by (cases "f big buf") (auto simp: verdict_0)
    ultimately show ?thesis using err [of data rest] by (simp add: verdict_0)
  next
    case True
    then have l: "40 \<le> length data" using assms(1) c fg by (auto simp: zio_checksum_def split: if_splits)
    obtain body mg ck where d: "data = body @ mg @ ck" "length mg = 8" "length ck = 32" by (rule tail_split [OF l])
    obtain cs where cs: "f big (body @ store64 big ZBT_MAGIC @ ck) = Some cs" "zc = load_cksum big ck"
      "data' = body @ store64 big ZBT_MAGIC @ store_cksum big cs"
      using assms(1) c fg True l unfolding d(1) by (auto simp: zio_checksum_def tail_parts d(2,3) split: bind_splits)
    show ?thesis
      using error_eq [of bp big c zc data' f g host inject err rest] assms(2) c fg True l cs d
      by (simp add: tail_checksum_eq [OF c fg] store_load_cksum [OF d(3)] verdict_0)
  qed
qed

definition demo_block :: "u8 list" where "demo_block = replicate 512 7"

definition demo_cksum :: zio_cksum where "demo_cksum = the (fletcher_4_native True demo_block)"

definition demo_blkptr :: blkptr where
  \<comment> \<open>512 bytes, written by a big-endian host, Fletcher-4\<close>
  "demo_blkptr = (let z = \<lparr>dva_word0 = 0, dva_word1 = 0\<rparr> in
     \<lparr>blk_dva0 = z, blk_dva1 = z, blk_dva2 = z, blk_prop = 0x70000000000, blk_pad0 = 0, blk_pad1 = 0, blk_pad2 = 0,
      blk_birth = 0, blk_fill = 0, blk_cksum = demo_cksum\<rparr>)"

theorem zio_checksum_roundtrip_witness:
  "zio_checksum True 7 demo_block = Some (demo_cksum, demo_block) \<and> describes demo_blkptr True 7 demo_cksum 512 \<and>
   zio_checksum_error False False (\<lambda>e. e) demo_blkptr 0 demo_block = Some (0, demo_block)"
proof -
  have g: "zio_checksum True 7 demo_block = Some (demo_cksum, demo_block)"
    by (simp add: zio_checksum_def ZIO_CHECKSUM_FUNCTIONS_def zio_checksum_table_def demo_cksum_def fletcher_4_native_def)
  have d: "describes demo_blkptr True 7 demo_cksum 512"
    by (simp add: describes_def demo_blkptr_def Let_def BP_IS_GANG_def BP_IDENTITY_def DVA_GET_GANG_def BP_GET_CHECKSUM_def BP_GET_BYTEORDER_def
        BF64_DECODE_take ZIO_GET_IOSIZE_def BP_GET_PSIZE_def BF64_GET_SB_def ZIO_CHECKSUM_GANG_HEADER_def host_byteorder_def SPA_MINBLOCKSHIFT_def)
  have l: "length demo_block = 512" by (simp add: demo_block_def)
  from zio_checksum_roundtrip [OF g, of demo_blkptr False "\<lambda>e. e" 0 "[]" "[]"] d show ?thesis
    by (simp add: g l)
qed

end
