(* ===== verification/Zio_Pipe.thy ===== *)
theory Zio_Pipe
  imports Zio_Compress Zio_Checksum
begin

text \<open>
  The stages of the I/O pipeline that transform the data of a block (\<^verbatim>\<open>src/lib/libzpool/zio.c\<close>): on the way to disk,
  compression and checksumming; on the way back, verification and decompression. The members \<^verbatim>\<open>io_data\<close> and \<^verbatim>\<open>io_size\<close> of a zio are
  those of the top of its stack of transforms, which \<^verbatim>\<open>zio_create()\<close> starts with the caller's buffer. Scheduling of the
  stages, the vdev and the allocation stages are not part of the model: what was stored is put into the buffer of a read.
\<close>

section \<open>I/Os and their buffers\<close>

record zio_transform =
  zt_data :: "u8 list"
  zt_size :: u64
  zt_bufsize :: u64

datatype pipeline = ZIO_PIPELINE_GIVEN | ZIO_REWRITE_PIPELINE | ZIO_WAIT_FOR_CHILDREN_PIPELINE

record pipe_zio =
  z_bp :: blkptr
  z_txg :: u64
  z_compress :: zio_compress
  z_checksum :: nat
  z_transform_stack :: "zio_transform list"
  z_error :: int
  z_pipeline :: pipeline  \<comment> \<open>the pipeline, if a stage replaced the given one\<close>
  z_decompress :: bool  \<comment> \<open>the stage \<^verbatim>\<open>ZIO_STAGE_READ_DECOMPRESS\<close> has been added\<close>
  z_gang :: bool  \<comment> \<open>the stage \<^verbatim>\<open>ZIO_STAGE_READ_GANG_MEMBERS\<close> has been added\<close>
  z_dont_cache :: bool  \<comment> \<open>the flag \<^verbatim>\<open>ZIO_FLAG_DONT_CACHE\<close>\<close>
  z_speculative :: bool  \<comment> \<open>the flag \<^verbatim>\<open>ZIO_FLAG_SPECULATIVE\<close>\<close>
  z_ereport :: bool  \<comment> \<open>a checksum error has been reported\<close>

definition z_data :: "pipe_zio \<Rightarrow> u8 list" where "z_data zio = zt_data (hd (z_transform_stack zio))"
definition z_size :: "pipe_zio \<Rightarrow> u64" where "z_size zio = zt_size (hd (z_transform_stack zio))"

definition set_data :: "u8 list \<Rightarrow> pipe_zio \<Rightarrow> pipe_zio" where
  \<comment> \<open>new contents of the buffer\<close>
  "set_data d zio = zio\<lparr>z_transform_stack := (hd (z_transform_stack zio))\<lparr>zt_data := d\<rparr> # tl (z_transform_stack zio)\<rparr>"

definition zio_push_transform :: "u8 list \<Rightarrow> u64 \<Rightarrow> u64 \<Rightarrow> pipe_zio \<Rightarrow> pipe_zio" where
  "zio_push_transform data sz bufsize zio =
     zio\<lparr>z_transform_stack := \<lparr>zt_data = data, zt_size = sz, zt_bufsize = bufsize\<rparr> # z_transform_stack zio\<rparr>"

fun zio_pop_transform :: "pipe_zio \<Rightarrow> (zio_transform \<times> pipe_zio) option" where
  "zio_pop_transform zio =
     (case z_transform_stack zio of [] \<Rightarrow> None | zt # rest \<Rightarrow> Some (zt, zio\<lparr>z_transform_stack := rest\<rparr>))"

fun clear_loop :: "zio_transform \<Rightarrow> zio_transform list \<Rightarrow> zio_transform list" where
  \<comment> \<open>the buffers that the loop frees, after \<open>zt\<close> has been popped\<close>
  "clear_loop zt [] = []"
| "clear_loop zt (next # rest) = zt # clear_loop next rest"

definition zio_clear_transform_stack :: "pipe_zio \<Rightarrow> (zio_transform list \<times> pipe_zio) option" where
  \<comment> \<open>the freed buffers, and the zio\<close>
  "zio_clear_transform_stack zio = do {
     (zt, zio) \<leftarrow> zio_pop_transform zio;
     Some (clear_loop zt (z_transform_stack zio), zio\<lparr>z_transform_stack := []\<rparr>) }"

section \<open>Compression settings in a block pointer\<close>

fun compress_num :: "zio_compress \<Rightarrow> u64" where
  "compress_num ZIO_COMPRESS_INHERIT = 0" | "compress_num ZIO_COMPRESS_ON = 1" | "compress_num ZIO_COMPRESS_OFF = 2"
| "compress_num ZIO_COMPRESS_LZJB = 3" | "compress_num ZIO_COMPRESS_EMPTY = 4" | "compress_num ZIO_COMPRESS_GZIP_1 = 5"
| "compress_num ZIO_COMPRESS_GZIP_2 = 6" | "compress_num ZIO_COMPRESS_GZIP_3 = 7" | "compress_num ZIO_COMPRESS_GZIP_4 = 8"
| "compress_num ZIO_COMPRESS_GZIP_5 = 9" | "compress_num ZIO_COMPRESS_GZIP_6 = 10" | "compress_num ZIO_COMPRESS_GZIP_7 = 11"
| "compress_num ZIO_COMPRESS_GZIP_8 = 12" | "compress_num ZIO_COMPRESS_GZIP_9 = 13"

definition compress_of :: "u64 \<Rightarrow> zio_compress option" where
  \<comment> \<open>\<^const>\<open>None\<close>: beyond the end of the table\<close>
  "compress_of x = find (\<lambda>c. compress_num c = x)
     [ZIO_COMPRESS_INHERIT, ZIO_COMPRESS_ON, ZIO_COMPRESS_OFF, ZIO_COMPRESS_LZJB, ZIO_COMPRESS_EMPTY, ZIO_COMPRESS_GZIP_1,
      ZIO_COMPRESS_GZIP_2, ZIO_COMPRESS_GZIP_3, ZIO_COMPRESS_GZIP_4, ZIO_COMPRESS_GZIP_5, ZIO_COMPRESS_GZIP_6,
      ZIO_COMPRESS_GZIP_7, ZIO_COMPRESS_GZIP_8, ZIO_COMPRESS_GZIP_9]"

section \<open>Stages\<close>

definition zp_dontcompress :: nat where "zp_dontcompress = 4"
definition zp_rewrite :: nat where "zp_rewrite = 1"

definition zio_write_compress :: "(zio_compress \<Rightarrow> zio_compress_info) \<Rightarrow> (nat \<Rightarrow> u8 list) \<Rightarrow> nat \<Rightarrow> pipe_zio \<Rightarrow> pipe_zio option" where
  \<comment> \<open>\<open>sync_pass\<close> is \<^verbatim>\<open>spa_sync_pass(zio->io_spa)\<close>\<close>
  "zio_write_compress table zio_buf_alloc sync_pass zio = do {
     let bp = z_bp zio;
     let lsize = z_size zio;
     let rewriting = (blk_birth bp = z_txg zio);
     VERIFY (rewriting \<or> BP_IS_HOLE bp);
     let pass = (if rewriting then sync_pass else 1);
     let compress = (if rewriting \<and> pass > zp_dontcompress then ZIO_COMPRESS_OFF else z_compress zio);
     r \<leftarrow> (if compress \<noteq> ZIO_COMPRESS_OFF then zio_compress_data table zio_buf_alloc compress (take (unat lsize) (z_data zio)) else Some None);
     let compress = (if r = None then ZIO_COMPRESS_OFF else compress);
     let csize = (case r of Some (_, csize, _) \<Rightarrow> csize | None \<Rightarrow> lsize);
     let zio = (case r of Some (cbuf, csize, cbufsize) \<Rightarrow> if csize \<noteq> 0 then zio_push_transform cbuf csize cbufsize zio else zio | None \<Rightarrow> zio);
     if rewriting \<and> BP_GET_PSIZE bp = csize \<and> pass > zp_rewrite then do {
       VERIFY (csize \<noteq> 0);
       Some (zio\<lparr>z_bp := BP_SET_COMPRESS (BP_SET_LSIZE bp lsize) (compress_num compress), z_pipeline := ZIO_REWRITE_PIPELINE\<rparr>) }
     else
       let bp = (if rewriting then BP_ZERO bp else bp) in
       if csize = 0 then Some (zio\<lparr>z_bp := BP_ZERO bp, z_pipeline := ZIO_WAIT_FOR_CHILDREN_PIPELINE\<rparr>)
       else do {
         VERIFY (BP_GET_NDVAS bp = 0);
         Some (zio\<lparr>z_bp := BP_SET_COMPRESS (BP_SET_PSIZE (BP_SET_LSIZE bp lsize) csize) (compress_num compress)\<rparr>) } }"

definition zio_checksum_generate :: "bool \<Rightarrow> pipe_zio \<Rightarrow> pipe_zio option" where
  "zio_checksum_generate big zio = do {
     VERIFY (z_size zio = BP_GET_PSIZE (z_bp zio));
     let bp = BP_SET_BYTEORDER (BP_SET_CHECKSUM (z_bp zio) (of_nat (z_checksum zio))) (host_byteorder big);
     let n = unat (z_size zio);
     (zc, data) \<leftarrow> zio_checksum big (z_checksum zio) (take n (z_data zio));
     Some (set_data (data @ drop n (z_data zio)) (zio\<lparr>z_bp := bp\<lparr>blk_cksum := zc\<rparr>\<rparr>)) }"

definition zio_gang_checksum_generate :: "bool \<Rightarrow> pipe_zio \<Rightarrow> pipe_zio option" where
  "zio_gang_checksum_generate big zio = do {
     VERIFY (BP_IS_GANG (z_bp zio) \<noteq> 0);
     VERIFY (z_size zio = SPA_GANGBLOCKSIZE);
     let n = unat (z_size zio);
     (_, data) \<leftarrow> zio_checksum big ZIO_CHECKSUM_GANG_HEADER (set_zbt_cksum big (zio_set_gang_verifier (z_bp zio)) (take n (z_data zio)));
     Some (set_data (data @ drop n (z_data zio)) zio) }"

definition zio_read_init :: "(nat \<Rightarrow> u8 list) \<Rightarrow> (u64 \<Rightarrow> bool) \<Rightarrow> pipe_zio \<Rightarrow> pipe_zio" where
  \<comment> \<open>\<open>ot_metadata\<close>: the member of \<^verbatim>\<open>dmu_ot[]\<close>\<close>
  "zio_read_init zio_buf_alloc ot_metadata zio =
     (let bp = z_bp zio; csize = BP_GET_PSIZE bp;
          zio = (if BP_GET_COMPRESS bp \<noteq> compress_num ZIO_COMPRESS_OFF
                 then (zio_push_transform (zio_buf_alloc (unat csize)) csize csize zio)\<lparr>z_decompress := True\<rparr> else zio);
          zio = (if BP_IS_GANG bp \<noteq> 0
                 then (zio_push_transform (zio_buf_alloc (unat SPA_GANGBLOCKSIZE)) SPA_GANGBLOCKSIZE SPA_GANGBLOCKSIZE zio)\<lparr>z_gang := True\<rparr> else zio)
      in if \<not> ot_metadata (BP_GET_TYPE bp) \<and> BP_GET_LEVEL bp = 0 then zio\<lparr>z_dont_cache := True\<rparr> else zio)"

definition zio_checksum_verify :: "bool \<Rightarrow> bool \<Rightarrow> (int \<Rightarrow> int) \<Rightarrow> pipe_zio \<Rightarrow> pipe_zio option" where
  "zio_checksum_verify big inject_enabled inject zio = do {
     (err, data) \<leftarrow> zio_checksum_error big inject_enabled inject (z_bp zio) (z_error zio) (z_data zio);
     let zio = set_data data (zio\<lparr>z_error := err\<rparr>);
     Some (if err \<noteq> 0 \<and> \<not> z_speculative zio then zio\<lparr>z_ereport := True\<rparr> else zio) }"

definition zio_read_decompress :: "(zio_compress \<Rightarrow> zio_compress_info) \<Rightarrow> pipe_zio \<Rightarrow> pipe_zio option" where
  "zio_read_decompress table zio = do {
     compress \<leftarrow> compress_of (BP_GET_COMPRESS (z_bp zio));
     VERIFY (compress \<noteq> ZIO_COMPRESS_OFF);
     (t, zio) \<leftarrow> zio_pop_transform zio;
     VERIFY (z_transform_stack zio \<noteq> []);
     let n = unat (z_size zio);
     (ret, data) \<leftarrow> zio_decompress_data table compress (take (unat (zt_size t)) (zt_data t)) (take n (z_data zio));
     let zio = set_data (data @ drop n (z_data zio)) zio;
     Some (if ret \<noteq> 0 then zio\<lparr>z_error := EIO\<rparr> else zio) }"

section \<open>A write and a read\<close>

definition write_block :: "bool \<Rightarrow> (zio_compress \<Rightarrow> zio_compress_info) \<Rightarrow> (nat \<Rightarrow> u8 list) \<Rightarrow> nat \<Rightarrow> pipe_zio \<Rightarrow> pipe_zio option" where
  \<comment> \<open>the stages of a write; a hole is not written\<close>
  "write_block big table zio_buf_alloc sync_pass zio = do {
     zio \<leftarrow> zio_write_compress table zio_buf_alloc sync_pass zio;
     if z_pipeline zio = ZIO_WAIT_FOR_CHILDREN_PIPELINE then Some zio else zio_checksum_generate big zio }"

definition read_block :: "bool \<Rightarrow> (zio_compress \<Rightarrow> zio_compress_info) \<Rightarrow> (nat \<Rightarrow> u8 list) \<Rightarrow> (u64 \<Rightarrow> bool) \<Rightarrow> (int \<Rightarrow> int) \<Rightarrow> u8 list \<Rightarrow> pipe_zio \<Rightarrow> pipe_zio option" where
  \<comment> \<open>the stages of a read that finds \<open>stored\<close> on disk, without fault injection; after an error the stages for the data are skipped\<close>
  "read_block big table zio_buf_alloc ot_metadata inject stored zio = do {
     let zio = set_data stored (zio_read_init zio_buf_alloc ot_metadata zio);
     zio \<leftarrow> zio_checksum_verify big False inject zio;
     if z_error zio = 0 \<and> z_decompress zio then zio_read_decompress table zio else Some zio }"

section \<open>Buffers\<close>

lemma clear_loop_eq: "clear_loop zt rest = butlast (zt # rest)"
  by (induction rest arbitrary: zt) auto

lemma clear_keeps_callers_buffer:
  "z_transform_stack zio \<noteq> [] \<Longrightarrow> zio_clear_transform_stack zio = Some (butlast (z_transform_stack zio), zio\<lparr>z_transform_stack := []\<rparr>)"
  by (cases "z_transform_stack zio") (auto simp: zio_clear_transform_stack_def clear_loop_eq)

lemma push_pop: "zio_pop_transform (zio_push_transform d sz bufsize zio) = Some (\<lparr>zt_data = d, zt_size = sz, zt_bufsize = bufsize\<rparr>, zio)"
  by (simp add: zio_push_transform_def)

section \<open>Block pointers of written blocks\<close>

lemma compress_of_num [simp]: "compress_of (compress_num c) = Some c"
  by (cases c) (simp_all add: compress_of_def)

lemma compress_num_small: "unat (compress_num c) < 256"
  by (cases c) simp_all

lemma compress_num_eq [simp]: "compress_num c = compress_num d \<longleftrightarrow> c = d"
  by (metis compress_of_num option.inject)

definition written_bp :: "blkptr \<Rightarrow> u64 \<Rightarrow> u64 \<Rightarrow> zio_compress \<Rightarrow> nat \<Rightarrow> bool \<Rightarrow> zio_cksum \<Rightarrow> blkptr" where
  \<comment> \<open>what the two stages make of a block pointer\<close>
  "written_bp bp lsize psize compress c big zc =
     (BP_SET_BYTEORDER (BP_SET_CHECKSUM (BP_SET_COMPRESS (BP_SET_PSIZE (BP_SET_LSIZE bp lsize) psize) (compress_num compress)) (of_nat c))
       (host_byteorder big))\<lparr>blk_cksum := zc\<rparr>"

lemma psize_set:
  assumes "512 dvd unat p" "512 \<le> unat p" "unat p \<le> 2 ^ 25"
  shows "BP_GET_PSIZE (BP_SET_COMPRESS (BP_SET_PSIZE bp p) co) = p" "BP_GET_PSIZE (BP_SET_PSIZE bp p) = p"
  using size_field [OF assms, of 16, unfolded BF64_GET_SB_def BF64_SET_SB_def]
  by (simp_all add: BP_GET_PSIZE_def BP_SET_PSIZE_def BP_SET_COMPRESS_def BF64_GET_SB_def BF64_SET_SB_def SPA_MINBLOCKSHIFT_def BF64_SET_same BF64_SET_other)

lemma psize_keep [simp]:
  "BP_GET_PSIZE (BP_SET_COMPRESS bp co) = BP_GET_PSIZE bp" "BP_GET_PSIZE (BP_SET_LSIZE bp l) = BP_GET_PSIZE bp"
  "BP_GET_PSIZE (bp\<lparr>blk_birth := t\<rparr>) = BP_GET_PSIZE bp"
  by (simp_all add: BP_GET_PSIZE_def BP_SET_LSIZE_def BP_SET_COMPRESS_def BF64_GET_SB_def BF64_SET_SB_def BF64_SET_other)

lemma written_bp_prop:
  fixes bp :: blkptr
  assumes sizes: "512 dvd unat l" "512 \<le> unat l" "unat l \<le> 2 ^ 25" "512 dvd unat p" "512 \<le> unat p" "unat p \<le> 2 ^ 25" and c: "c < 256"
    and b: "blk_prop b = blk_prop (written_bp bp l p compress c big zc)"
  shows "BP_GET_PSIZE b = p" "BP_GET_COMPRESS b = compress_num compress" "BP_GET_CHECKSUM b = of_nat c"
    "BP_GET_BYTEORDER b = host_byteorder big" "\<not> BP_IS_HOLE b \<Longrightarrow> BP_GET_LSIZE b = l"
proof -
  note defs = written_bp_def BP_SET_LSIZE_def BP_SET_PSIZE_def BP_SET_COMPRESS_def BP_SET_CHECKSUM_def BP_SET_BYTEORDER_def
    BF64_GET_SB_def BF64_SET_SB_def SPA_MINBLOCKSHIFT_def BF64_SET_same BF64_SET_other
  note size = size_field [unfolded BF64_GET_SB_def BF64_SET_SB_def]
  show "BP_GET_PSIZE b = p" using size [OF sizes(4-6), of 16] by (simp add: BP_GET_PSIZE_def b defs)
  show "BP_GET_COMPRESS b = compress_num compress"
    using compress_num_small [of compress] by (simp add: BP_GET_COMPRESS_def b defs take_bit_small)
  show "BP_GET_CHECKSUM b = of_nat c"
    using c by (simp add: BP_GET_CHECKSUM_def b defs take_bit_small unat_of_nat)
  show "BP_GET_BYTEORDER b = host_byteorder big"
    by (cases big) (simp_all add: BP_GET_BYTEORDER_def b defs host_byteorder_def take_bit_Suc)
  show "BP_GET_LSIZE b = l" if "\<not> BP_IS_HOLE b"
    using that size [OF sizes(1-3), of 0] by (simp add: BP_GET_LSIZE_def b defs)
qed

section \<open>Checksums\<close>

lemma checksum_returns:
  assumes "c < ZIO_CHECKSUM_FUNCTIONS" "ci_func (zio_checksum_table ! c) \<noteq> None" "\<not> ci_zbt (zio_checksum_table ! c)" "512 dvd length data"
  obtains zc f g where "zio_checksum big c data = Some (zc, data)" "ci_func (zio_checksum_table ! c) = Some (f, g)" "f big data = Some zc"
proof -
  obtain f g where fg: "ci_func (zio_checksum_table ! c) = Some (f, g)" using assms(2) by auto
  have "16 dvd length data" using assms(4) by (rule dvd_trans [rotated]) simp
  then have r2: "\<exists>zc. fletcher_2_native big data = Some zc" unfolding fletcher_2_native_def by (rule fletcher_2_returns)
  have "c \<in> {0, 1, 2, 3, 4, 5, 6, 7, 8}" using assms(1) unfolding ZIO_CHECKSUM_FUNCTIONS_def insert_iff empty_iff by linarith
  then have "\<exists>zc. f big data = Some zc"
    using fg assms(3) r2 by (elim insertE emptyE) (auto simp: zio_checksum_table_def zio_checksum_off_def fletcher_4_native_def)
  then obtain zc where "f big data = Some zc" by blast
  with that [of zc f g] fg assms(1,3) show ?thesis by (simp add: zio_checksum_def)
qed

lemma plain_verifies:
  assumes "c < ZIO_CHECKSUM_FUNCTIONS" "ci_func (zio_checksum_table ! c) = Some (f, g)" "\<not> ci_zbt (zio_checksum_table ! c)"
    and "f big data = Some (blk_cksum bp)" "BP_IS_GANG bp = 0" "BP_GET_CHECKSUM bp = of_nat c" "BP_GET_BYTEORDER bp = host_byteorder big"
      "unat (BP_GET_PSIZE bp) = length data"
  shows "zio_checksum_error host False inject bp err data = Some (0, data)"
proof -
  have "c \<noteq> ZIO_CHECKSUM_GANG_HEADER" using assms(3) by (auto simp: ZIO_CHECKSUM_GANG_HEADER_def zio_checksum_table_def)
  moreover have "unat (of_nat c :: u64) = c" using assms(1) by (simp add: ZIO_CHECKSUM_FUNCTIONS_def unat_of_nat)
  ultimately have "describes bp big c (blk_cksum bp) (length data)" using assms by (simp add: describes_def ZIO_GET_IOSIZE_def)
  from error_eq [OF this assms(1,2), of host inject err "[]"] assms(3,4) verdict_0 show ?thesis by simp
qed

section \<open>Writing and reading back\<close>

definition write_request :: "pipe_zio \<Rightarrow> u8 list \<Rightarrow> bool" where
  \<comment> \<open>a new write of \<open>data\<close>: whole sectors, at most the largest block, LZJB or no compression, a checksum for the block pointer\<close>
  "write_request zio data \<longleftrightarrow>
     z_transform_stack zio = [\<lparr>zt_data = data, zt_size = of_nat (length data), zt_bufsize = of_nat (length data)\<rparr>] \<and>
     512 dvd length data \<and> 512 \<le> length data \<and> length data \<le> unat SPA_MAXBLOCKSIZE \<and>
     BP_IS_HOLE (z_bp zio) \<and> BP_GET_NDVAS (z_bp zio) = 0 \<and> z_txg zio \<noteq> 0 \<and> z_pipeline zio = ZIO_PIPELINE_GIVEN \<and>
     (z_compress zio = ZIO_COMPRESS_OFF \<or> z_compress zio = ZIO_COMPRESS_LZJB) \<and>
     z_checksum zio < ZIO_CHECKSUM_FUNCTIONS \<and> ci_func (zio_checksum_table ! z_checksum zio) \<noteq> None \<and> \<not> ci_zbt (zio_checksum_table ! z_checksum zio)"

definition read_request :: "pipe_zio \<Rightarrow> blkptr \<Rightarrow> bool" where
  \<comment> \<open>a new read of the block \<open>bp\<close>, into a buffer of its logical size\<close>
  "read_request zio bp \<longleftrightarrow> z_bp zio = bp \<and> z_error zio = 0 \<and> \<not> z_decompress zio \<and>
     (\<exists>buf. length buf = unat (BP_GET_LSIZE bp) \<and> z_transform_stack zio = [\<lparr>zt_data = buf, zt_size = BP_GET_LSIZE bp, zt_bufsize = BP_GET_LSIZE bp\<rparr>])"

definition placed :: "blkptr \<Rightarrow> blkptr \<Rightarrow> bool" where
  \<comment> \<open>\<open>bp'\<close> is \<open>bp\<close> after allocation: with addresses and a birth, and not a gang block\<close>
  "placed bp bp' \<longleftrightarrow> blk_prop bp' = blk_prop bp \<and> blk_cksum bp' = blk_cksum bp \<and> \<not> BP_IS_HOLE bp' \<and> BP_IS_GANG bp' = 0"

lemma write_compress_new:
  assumes w: "write_request zio data"
    and r: "(if z_compress zio \<noteq> ZIO_COMPRESS_OFF then zio_compress_data table alloc (z_compress zio) data else Some None) = Some r"
  shows "zio_write_compress table alloc pass zio = Some (let lsize = of_nat (length data) in case r of
      None \<Rightarrow> zio\<lparr>z_bp := BP_SET_COMPRESS (BP_SET_PSIZE (BP_SET_LSIZE (z_bp zio) lsize) lsize) (compress_num ZIO_COMPRESS_OFF)\<rparr>
    | Some (cbuf, csize, cbufsize) \<Rightarrow> if csize = 0 then zio\<lparr>z_bp := BP_ZERO (z_bp zio), z_pipeline := ZIO_WAIT_FOR_CHILDREN_PIPELINE\<rparr>
        else (zio_push_transform cbuf csize cbufsize zio)\<lparr>z_bp := BP_SET_COMPRESS (BP_SET_PSIZE (BP_SET_LSIZE (z_bp zio) lsize) csize) (compress_num (z_compress zio))\<rparr>)"
proof -
  have f: "z_data zio = data" "z_size zio = of_nat (length data)" "blk_birth (z_bp zio) \<noteq> z_txg zio" "BP_IS_HOLE (z_bp zio)" "BP_GET_NDVAS (z_bp zio) = 0"
    "length data \<le> 2 ^ 17"
    using w by (auto simp: write_request_def z_data_def z_size_def BP_IS_HOLE_def SPA_MAXBLOCKSIZE_def SPA_MAXBLOCKSHIFT_def)
  have t: "take (unat (of_nat (length data) :: u64)) data = data" using f(6) by (simp add: unat_of_nat)
  have nz: "(of_nat (length data) :: u64) \<noteq> 0" using w f(6) by (auto simp: write_request_def word_unat_eq_iff unat_of_nat)
  show ?thesis
    unfolding zio_write_compress_def Let_def f(1,2) t
    using r f(3-5) nz by (cases r) (auto simp: zio_push_transform_def split: if_splits)
qed

lemma checksum_generate_new:
  assumes w: "z_transform_stack zio = \<lparr>zt_data = d, zt_size = p, zt_bufsize = n\<rparr> # rest" "unat p \<le> length d" "BP_GET_PSIZE (z_bp zio) = p"
    and zc: "zio_checksum big (z_checksum zio) (take (unat p) d) = Some (zc, take (unat p) d)"
  shows "zio_checksum_generate big zio = Some (zio\<lparr>z_bp := (BP_SET_BYTEORDER (BP_SET_CHECKSUM (z_bp zio) (of_nat (z_checksum zio))) (host_byteorder big))\<lparr>blk_cksum := zc\<rparr>\<rparr>)"
  using assms by (simp add: zio_checksum_generate_def z_data_def z_size_def set_data_def)

lemma read_plain:
  assumes r: "read_request zio bp" and bp: "BP_GET_COMPRESS bp = compress_num ZIO_COMPRESS_OFF" "BP_IS_GANG bp = 0"
    and ok: "zio_checksum_error host False inject bp 0 stored = Some (0, stored)"
  shows "\<exists>zio'. read_block host table alloc ot inject stored zio = Some zio' \<and> z_error zio' = 0 \<and> z_data zio' = stored"
proof -
  have "z_bp zio = bp" "z_error zio = 0" "\<not> z_decompress zio" using r by (auto simp: read_request_def)
  then show ?thesis
    using bp ok by (auto simp: read_block_def zio_read_init_def Let_def zio_checksum_verify_def set_data_def z_data_def)
qed

lemma read_compressed:
  assumes r: "read_request zio bp" and bp: "BP_GET_COMPRESS bp = compress_num c" "c \<noteq> ZIO_COMPRESS_OFF" "BP_IS_GANG bp = 0"
    and ok: "zio_checksum_error host False inject bp 0 stored = Some (0, stored)" and l: "length stored = unat (BP_GET_PSIZE bp)"
    and de: "\<And>buf. length buf = unat (BP_GET_LSIZE bp) \<Longrightarrow> zio_decompress_data table c stored buf = Some (0, data)"
  shows "\<exists>zio'. read_block host table alloc ot inject stored zio = Some zio' \<and> z_error zio' = 0 \<and> z_data zio' = data"
proof -
  obtain buf where f: "z_bp zio = bp" "z_error zio = 0" "length buf = unat (BP_GET_LSIZE bp)"
    "z_transform_stack zio = [\<lparr>zt_data = buf, zt_size = BP_GET_LSIZE bp, zt_bufsize = BP_GET_LSIZE bp\<rparr>]"
    using r by (auto simp: read_request_def)
  have ne: "compress_num c \<noteq> 2" using bp(2) compress_num_eq [of c ZIO_COMPRESS_OFF] by simp
  from f show ?thesis
    using bp ok l de [OF f(3)] ne
    by (auto simp: read_block_def zio_read_init_def Let_def zio_checksum_verify_def set_data_def z_data_def z_size_def zio_push_transform_def
        zio_read_decompress_def)
qed

lemma written_back:
  fixes zio :: pipe_zio and p :: u64
  assumes w: "write_request zio data" and stored: "length stored = unat p" "512 dvd unat p" "512 \<le> unat p" "unat p \<le> 2 ^ 25"
    and st: "z_transform_stack zio' = \<lparr>zt_data = stored @ pad, zt_size = p, zt_bufsize = n\<rparr> # rest"
    and bp: "z_bp zio' = BP_SET_COMPRESS (BP_SET_PSIZE (BP_SET_LSIZE (z_bp zio) (of_nat (length data))) p) (compress_num co)" "z_checksum zio' = z_checksum zio"
  obtains zio'' where "zio_checksum_generate big zio' = Some zio''" "z_pipeline zio'' = z_pipeline zio'" "z_transform_stack zio'' = z_transform_stack zio'"
    "\<And>b host inject. placed (z_bp zio'') b \<Longrightarrow> BP_GET_LSIZE b = of_nat (length data) \<and> BP_GET_PSIZE b = p \<and> BP_GET_COMPRESS b = compress_num co \<and> BP_IS_GANG b = 0 \<and>
      zio_checksum_error host False inject b 0 stored = Some (0, stored)"
proof -
  let ?c = "z_checksum zio" and ?l = "of_nat (length data) :: u64"
  have c: "?c < ZIO_CHECKSUM_FUNCTIONS" "ci_func (zio_checksum_table ! ?c) \<noteq> None" "\<not> ci_zbt (zio_checksum_table ! ?c)"
    using w by (simp_all add: write_request_def)
  have c256: "?c < 256" using c(1) by (simp add: ZIO_CHECKSUM_FUNCTIONS_def)
  have "length data \<le> 2 ^ 17" using w by (simp add: write_request_def SPA_MAXBLOCKSIZE_def SPA_MAXBLOCKSHIFT_def)
  then have l: "512 dvd unat ?l" "512 \<le> unat ?l" "unat ?l \<le> 2 ^ 25" using w by (simp_all add: write_request_def unat_of_nat)
  obtain zc f g where zc: "zio_checksum big ?c stored = Some (zc, stored)" "ci_func (zio_checksum_table ! ?c) = Some (f, g)" "f big stored = Some zc"
    using checksum_returns [OF c, of stored big] stored(1,2) by metis
  note props = written_bp_prop [OF l stored(2-4) c256]
  have ps: "BP_GET_PSIZE (z_bp zio') = p"
    using psize_set [OF stored(2-4)] by (simp add: bp)
  have gen: "zio_checksum_generate big zio' = Some (zio'\<lparr>z_bp := written_bp (z_bp zio) ?l p co ?c big zc\<rparr>)"
    using checksum_generate_new [OF st _ ps, of big zc] zc(1) stored(1) bp by (simp add: written_bp_def)
  show ?thesis
  proof (rule that [OF gen])
    fix b host inject assume "placed (z_bp (zio'\<lparr>z_bp := written_bp (z_bp zio) ?l p co ?c big zc\<rparr>)) b"
    then have b: "blk_prop b = blk_prop (written_bp (z_bp zio) ?l p co ?c big zc)" "blk_cksum b = zc" "\<not> BP_IS_HOLE b" "BP_IS_GANG b = 0"
      by (simp_all add: placed_def written_bp_def)
    note P = props [OF b(1)]
    have "zio_checksum_error host False inject b 0 stored = Some (0, stored)"
      by (rule plain_verifies [OF c(1) zc(2) c(3), of big]) (use zc(3) b(2,4) P(1,3,4) stored(1) in simp_all)
    then show "BP_GET_LSIZE b = ?l \<and> BP_GET_PSIZE b = p \<and> BP_GET_COMPRESS b = compress_num co \<and> BP_IS_GANG b = 0 \<and>
      zio_checksum_error host False inject b 0 stored = Some (0, stored)"
      using P(1,2) P(5) [OF b(3)] b(4) by simp
  qed simp_all
qed

lemma lzjb_nonempty: "lzjb_decompress [] buf = Some (0, s) \<Longrightarrow> buf = []"
  by (cases buf) (auto simp: lzjb_decompress_def lzjb_dloop.simps fetch_def NBBY_def)

definition reads_back :: "pipe_zio \<Rightarrow> (zio_compress \<Rightarrow> zio_compress_info) \<Rightarrow> (nat \<Rightarrow> u8 list) \<Rightarrow> u8 list \<Rightarrow> bool" where
  \<comment> \<open>the sectors of the written \<open>zio\<close> give \<open>data\<close> when they are read on any host, through any placement of its block pointer\<close>
  "reads_back zio table alloc data \<longleftrightarrow> (\<forall>bp rd host ot inject. placed (z_bp zio) bp \<and> read_request rd bp \<longrightarrow>
     (\<exists>rd'. read_block host table alloc ot inject (take (unat (z_size zio)) (z_data zio)) rd = Some rd' \<and> z_error rd' = 0 \<and> z_data rd' = data))"

lemma write_request_facts:
  assumes "write_request zio data"
  shows "length data \<le> 2 ^ 17" "512 dvd length data" "512 \<le> length data" "unat (of_nat (length data) :: u64) = length data"
    "z_pipeline zio = ZIO_PIPELINE_GIVEN"
    "z_transform_stack zio = [\<lparr>zt_data = data, zt_size = of_nat (length data), zt_bufsize = of_nat (length data)\<rparr>]"
  using assms by (simp_all add: write_request_def SPA_MAXBLOCKSIZE_def SPA_MAXBLOCKSHIFT_def unat_of_nat)

lemma plain_reads_back:
  fixes zio :: pipe_zio
  assumes w: "write_request zio data"
  defines "zio1 \<equiv> zio\<lparr>z_bp := BP_SET_COMPRESS (BP_SET_PSIZE (BP_SET_LSIZE (z_bp zio) (of_nat (length data))) (of_nat (length data))) (compress_num ZIO_COMPRESS_OFF)\<rparr>"
  shows "\<exists>z. zio_checksum_generate big zio1 = Some z \<and> z_pipeline z = ZIO_PIPELINE_GIVEN \<and> reads_back z table alloc data"
proof -
  let ?l = "of_nat (length data) :: u64"
  note F = write_request_facts [OF w]
  obtain z where z: "zio_checksum_generate big zio1 = Some z" "z_pipeline z = z_pipeline zio1" "z_transform_stack z = z_transform_stack zio1"
    "\<And>b host inject. placed (z_bp z) b \<Longrightarrow> BP_GET_COMPRESS b = compress_num ZIO_COMPRESS_OFF \<and> BP_IS_GANG b = 0 \<and>
      zio_checksum_error host False inject b 0 data = Some (0, data)"
    by (rule written_back [OF w, of data ?l zio1 "[]" ?l "[]" ZIO_COMPRESS_OFF big]) (use F in \<open>auto simp: zio1_def\<close>)
  have d: "take (unat (z_size z)) (z_data z) = data" using z(3) F(4,6) by (simp add: z_size_def z_data_def zio1_def)
  have "reads_back z table alloc data" unfolding reads_back_def d
  proof (intro allI impI)
    fix bp rd host ot inject assume "placed (z_bp z) bp \<and> read_request rd bp"
    then show "\<exists>rd'. read_block host table alloc ot inject data rd = Some rd' \<and> z_error rd' = 0 \<and> z_data rd' = data"
      using z(4) [of bp] read_plain [of rd bp host inject data] by blast
  qed
  then show ?thesis using z(1,2) F(5) by (auto simp: zio1_def)
qed

lemma lzjb_reads_back:
  fixes zio :: pipe_zio
  assumes w: "write_request zio data" and alloc: "\<And>n. length (alloc n) = n"
    and t: "ci_compress (table ZIO_COMPRESS_LZJB) = Some (\<lambda>s d_len n. lzjb_compress s_start lempel s d_len)"
      "ci_decompress (table ZIO_COMPRESS_LZJB) = Some (\<lambda>s buf n. lzjb_decompress s buf)"
    and nz: "\<not> list_all (\<lambda>b. b = 0) data" and res: "zio_compress_data table alloc ZIO_COMPRESS_LZJB data = Some (Some (cbuf, csize, cbufsize))"
  defines "zio1 \<equiv> (zio_push_transform cbuf csize cbufsize zio)\<lparr>z_bp := BP_SET_COMPRESS (BP_SET_PSIZE (BP_SET_LSIZE (z_bp zio) (of_nat (length data))) csize) (compress_num ZIO_COMPRESS_LZJB)\<rparr>"
  shows "csize \<noteq> 0" "\<exists>z. zio_checksum_generate big zio1 = Some z \<and> z_pipeline z = ZIO_PIPELINE_GIVEN \<and> reads_back z table alloc data"
proof -
  let ?l = "of_nat (length data) :: u64"
  note F = write_request_facts [OF w]
  have len63: "length data < 2 ^ 63" using F(1) by simp
  note R = lz.block_roundtrip [where zio_buf_alloc = alloc, OF t len63 nz _ alloc res]
  define stored where "stored = take (unat csize) cbuf"
  have R': "length cbuf = unat cbufsize" "csize \<le> cbufsize" "512 dvd unat csize" "8 * unat cbufsize \<le> 7 * length data + 7"
    using R(1-4) [of data] by simp_all
  have de: "zio_decompress_data table ZIO_COMPRESS_LZJB stored buf = Some (0, data)" if "length buf = length data" for buf
    using R(5) [OF that] by (simp add: stored_def)
  show ne: "csize \<noteq> 0"
  proof
    assume "csize = 0"
    then have "lzjb_decompress [] data = Some (0, data)" using de [of data] t(2) by (simp add: stored_def zio_decompress_data_def)
    then show False using lzjb_nonempty F(3) by fastforce
  qed
  then have "unat csize \<noteq> 0" by (simp add: unat_eq_0)
  then have s: "length stored = unat csize" "512 \<le> unat csize" "unat csize \<le> 2 ^ 25"
    using R' F(1) by (auto simp: stored_def word_le_nat_alt dest: dvd_imp_le)
  obtain z where z: "zio_checksum_generate big zio1 = Some z" "z_pipeline z = z_pipeline zio1" "z_transform_stack z = z_transform_stack zio1"
    "\<And>b host inject. placed (z_bp z) b \<Longrightarrow> BP_GET_LSIZE b = ?l \<and> BP_GET_PSIZE b = csize \<and> BP_GET_COMPRESS b = compress_num ZIO_COMPRESS_LZJB \<and> BP_IS_GANG b = 0 \<and>
      zio_checksum_error host False inject b 0 stored = Some (0, stored)"
    by (rule written_back [OF w, of stored csize zio1 "drop (unat csize) cbuf" cbufsize "z_transform_stack zio" ZIO_COMPRESS_LZJB big])
      (use s R'(3) in \<open>auto simp: zio1_def zio_push_transform_def stored_def\<close>)
  have d: "take (unat (z_size z)) (z_data z) = stored" using z(3) by (simp add: z_size_def z_data_def zio1_def zio_push_transform_def stored_def)
  have "reads_back z table alloc data" unfolding reads_back_def d
  proof (intro allI impI)
    fix bp rd host ot inject assume a: "placed (z_bp z) bp \<and> read_request rd bp"
    show "\<exists>rd'. read_block host table alloc ot inject stored rd = Some rd' \<and> z_error rd' = 0 \<and> z_data rd' = data"
      by (rule read_compressed [of rd bp ZIO_COMPRESS_LZJB]) (use a z(4) [of bp] s(1) de F(4) in auto)
  qed
  then show "\<exists>z. zio_checksum_generate big zio1 = Some z \<and> z_pipeline z = ZIO_PIPELINE_GIVEN \<and> reads_back z table alloc data"
    using z(1,2) F(5) by (auto simp: zio1_def zio_push_transform_def)
qed

section \<open>Properties\<close>

text \<open>C1. A block that is written is read back. A new write of whole sectors, with LZJB or without compression and with any checksum for
  the block pointer, goes through compression and checksumming on one host. It is then either a hole, and its data all zero,
  or some sectors to be stored. Once the block pointer has been given addresses, a read of these sectors through it on any host, of
  either byte order, passes verification and delivers the data that was written.\<close>
theorem block_write_read:
  fixes s_start lempel gzip gunzip
  assumes w: "write_request zio data" and alloc: "\<And>n. length (alloc n) = n"
  shows "let table = zio_compress_table (lzjb_compress s_start lempel) gzip gunzip in
    \<exists>zio'. write_block big table alloc pass zio = Some zio' \<and>
     (if z_pipeline zio' = ZIO_WAIT_FOR_CHILDREN_PIPELINE then BP_IS_HOLE (z_bp zio') \<and> data = replicate (length data) 0
      else reads_back zio' table alloc data)"
proof -
  define table where "table = zio_compress_table (lzjb_compress s_start lempel) gzip gunzip"
  have t: "ci_compress (table ZIO_COMPRESS_LZJB) = Some (\<lambda>s d_len n. lzjb_compress s_start lempel s d_len)"
    "ci_decompress (table ZIO_COMPRESS_LZJB) = Some (\<lambda>s buf n. lzjb_decompress s buf)" by (simp_all add: table_def zio_compress_table_def)
  let ?r = "if z_compress zio \<noteq> ZIO_COMPRESS_OFF then zio_compress_data table alloc (z_compress zio) data else Some None"
  have "\<exists>r. ?r = Some r" using w t by (auto simp: write_request_def zio_compress_data_def Let_def split: prod.splits)
  then obtain r where r: "?r = Some r" by blast
  note W = write_compress_new [OF w r, of pass, unfolded Let_def]
  note gv = write_request_facts(5) [OF w]
  show ?thesis unfolding table_def [symmetric] Let_def
  proof (cases r)
    case None
    then show "\<exists>zio'. write_block big table alloc pass zio = Some zio' \<and>
      (if z_pipeline zio' = ZIO_WAIT_FOR_CHILDREN_PIPELINE then BP_IS_HOLE (z_bp zio') \<and> data = replicate (length data) 0 else reads_back zio' table alloc data)"
      using plain_reads_back [OF w, of big table alloc] W gv by (auto simp: write_block_def)
  next
    case (Some c)
    then obtain cbuf csize cbufsize where c: "r = Some (cbuf, csize, cbufsize)" by (cases c) auto
    have lz: "z_compress zio = ZIO_COMPRESS_LZJB" using w r c by (auto simp: write_request_def split: if_splits)
    have res: "zio_compress_data table alloc ZIO_COMPRESS_LZJB data = Some (Some (cbuf, csize, cbufsize))" using r lz c by simp
    show "\<exists>zio'. write_block big table alloc pass zio = Some zio' \<and>
      (if z_pipeline zio' = ZIO_WAIT_FOR_CHILDREN_PIPELINE then BP_IS_HOLE (z_bp zio') \<and> data = replicate (length data) 0 else reads_back zio' table alloc data)"
    proof (cases "list_all (\<lambda>b. b = 0) data")
      case True
      then have "csize = 0" using res by (simp add: zio_compress_data_def)
      moreover have "data = replicate (length data) 0" using True by (simp add: list_eq_iff_nth_eq list_all_length)
      ultimately show ?thesis using W c by (simp add: write_block_def BP_ZERO_def BP_ZERO_DVAS_def BP_IS_HOLE_def Let_def)
    next
      case False
      show ?thesis using lzjb_reads_back(1) [OF w alloc t False res] lzjb_reads_back(2) [OF w alloc t False res, of big] W c lz gv by (auto simp: write_block_def zio_push_transform_def)
    qed
  qed
qed

definition demo_write :: pipe_zio where
  \<comment> \<open>1024 bytes, LZJB, Fletcher-4\<close>
  "demo_write = \<lparr>z_bp = BP_ZERO demo_blkptr, z_txg = 5, z_compress = ZIO_COMPRESS_LZJB, z_checksum = 7,
     z_transform_stack = [\<lparr>zt_data = replicate 1024 7, zt_size = 1024, zt_bufsize = 1024\<rparr>], z_error = 0, z_pipeline = ZIO_PIPELINE_GIVEN,
     z_decompress = False, z_gang = False, z_dont_cache = False, z_speculative = False, z_ereport = False\<rparr>"

theorem block_write_read_witness:
  "let table = zio_compress_table (lzjb_compress 0x1000 (\<lambda>_. 0)) (\<lambda>s d_len n. (length s, [])) (\<lambda>s buf n. None) in
   \<exists>zio'. write_block True table (\<lambda>n. replicate n 9) 1 demo_write = Some zio' \<and> reads_back zio' table (\<lambda>n. replicate n 9) (replicate 1024 7)"
proof -
  have w: "write_request demo_write (replicate 1024 7)"
    by (simp add: write_request_def demo_write_def SPA_MAXBLOCKSIZE_def SPA_MAXBLOCKSHIFT_def BP_IS_HOLE_def BP_ZERO_def BP_ZERO_DVAS_def Let_def
        BP_GET_NDVAS_def DVA_GET_ASIZE_def BF64_GET_SB_def BF64_DECODE_take ZIO_CHECKSUM_FUNCTIONS_def zio_checksum_table_def)
  from block_write_read [OF w, of "\<lambda>n. replicate n 9" "0x1000" "\<lambda>_. 0" "\<lambda>s d_len n. (length s, [])" "\<lambda>s buf n. None" True 1] show ?thesis
    by (auto simp: Let_def replicate_eq_replicate split: if_splits)
qed

lemma rewrite_late:
  assumes "blk_birth (z_bp zio) = z_txg zio" "zp_dontcompress < pass" "z_size zio \<noteq> 0"
  shows "zio_write_compress table alloc pass zio = Some (let bp = z_bp zio; l = z_size zio in
    if BP_GET_PSIZE bp = l then zio\<lparr>z_bp := BP_SET_COMPRESS (BP_SET_LSIZE bp l) (compress_num ZIO_COMPRESS_OFF), z_pipeline := ZIO_REWRITE_PIPELINE\<rparr>
    else zio\<lparr>z_bp := BP_SET_COMPRESS (BP_SET_PSIZE (BP_SET_LSIZE (BP_ZERO bp) l) l) (compress_num ZIO_COMPRESS_OFF)\<rparr>)"
proof -
  have "zp_rewrite < pass" using assms(2) by (simp add: zp_rewrite_def zp_dontcompress_def)
  moreover have "BP_GET_NDVAS (BP_ZERO (z_bp zio)) = 0"
    by (simp add: BP_GET_NDVAS_def BP_ZERO_def BP_ZERO_DVAS_def Let_def DVA_GET_ASIZE_def BF64_GET_SB_def BF64_DECODE_take)
  ultimately show ?thesis using assms by (simp add: zio_write_compress_def Let_def)
qed

definition rewritten_in_place :: "pipe_zio \<Rightarrow> pipe_zio \<Rightarrow> bool" where
  "rewritten_in_place zio zio' \<longleftrightarrow> z_pipeline zio' = ZIO_REWRITE_PIPELINE \<and> z_transform_stack zio' = z_transform_stack zio \<and>
     blk_dva0 (z_bp zio') = blk_dva0 (z_bp zio) \<and> blk_dva1 (z_bp zio') = blk_dva1 (z_bp zio) \<and> blk_dva2 (z_bp zio') = blk_dva2 (z_bp zio) \<and>
     blk_birth (z_bp zio') = blk_birth (z_bp zio) \<and> BP_GET_PSIZE (z_bp zio') = BP_GET_PSIZE (z_bp zio)"

text \<open>C10. Synchronising a pool converges. A block of the transaction group being synchronised that is written again after pass
  \<open>zp_dontcompress\<close> is not compressed. Whatever its pointer was, from then on every further write of the same size in
  such a pass keeps its addresses and its physical size: it is reallocated at most once.\<close>
theorem sync_rewrites_in_place:
  assumes "blk_birth (z_bp zio) = z_txg zio" "zp_dontcompress < pass" "512 dvd unat (z_size zio)" "512 \<le> unat (z_size zio)" "unat (z_size zio) \<le> 2 ^ 25"
    and "blk_birth (z_bp later) = z_txg later" "zp_dontcompress < pass'" "z_size later = z_size zio"
  shows "\<exists>zio'. zio_write_compress table alloc pass zio = Some zio' \<and> z_transform_stack zio' = z_transform_stack zio \<and>
    (BP_GET_PSIZE (z_bp later) = BP_GET_PSIZE (z_bp zio') \<longrightarrow>
      (\<exists>later'. zio_write_compress table alloc pass' later = Some later' \<and> rewritten_in_place later later'))"
proof -
  let ?l = "z_size zio"
  have nz: "?l \<noteq> 0" using assms(4) by auto
  note ps = psize_set [OF assms(3-5)]
  have "rewritten_in_place later (later\<lparr>z_bp := BP_SET_COMPRESS (BP_SET_LSIZE (z_bp later) ?l) co, z_pipeline := ZIO_REWRITE_PIPELINE\<rparr>)" for co
    by (simp add: rewritten_in_place_def) (simp add: BP_SET_COMPRESS_def BP_SET_LSIZE_def)
  then show ?thesis
    using rewrite_late [OF assms(1,2) nz, of table alloc] rewrite_late [OF assms(6,7), of table alloc] nz assms(8) ps
    by (cases "BP_GET_PSIZE (z_bp zio) = ?l") (auto simp: Let_def)
qed

theorem sync_rewrites_in_place_witness:
  "let zio = demo_write\<lparr>z_bp := demo_blkptr\<lparr>blk_birth := 5\<rparr>\<rparr>; later = zio\<lparr>z_bp := (BP_SET_PSIZE demo_blkptr 1024)\<lparr>blk_birth := 5\<rparr>\<rparr>;
       table = zio_compress_table (lzjb_compress 0x1000 (\<lambda>_. 0)) (\<lambda>s d_len n. (length s, [])) (\<lambda>s buf n. None) in
   \<exists>later'. zio_write_compress table (\<lambda>n. replicate n 9) 6 later = Some later' \<and> rewritten_in_place later later'"
proof -
  define zio where "zio = demo_write\<lparr>z_bp := demo_blkptr\<lparr>blk_birth := 5\<rparr>\<rparr>"
  define later where "later = zio\<lparr>z_bp := (BP_SET_PSIZE demo_blkptr 1024)\<lparr>blk_birth := 5\<rparr>\<rparr>"
  define table where "table = zio_compress_table (lzjb_compress 0x1000 (\<lambda>_. 0)) (\<lambda>s d_len n. (length s, [])) (\<lambda>s buf n. None)"
  have h: "blk_birth (z_bp zio) = z_txg zio" "z_size zio = 1024" "blk_birth (z_bp later) = z_txg later" "z_size later = 1024"
    by (simp_all add: zio_def later_def demo_write_def z_size_def)
  have p: "BP_GET_PSIZE (z_bp zio) = 512" "BP_GET_PSIZE (z_bp later) = 1024"
    using psize_set(2) [of 1024 demo_blkptr]
    by (simp_all add: zio_def later_def) (simp add: demo_blkptr_def Let_def BP_GET_PSIZE_def BF64_GET_SB_def BF64_DECODE_take SPA_MINBLOCKSHIFT_def)
  define bp where "bp = BP_SET_COMPRESS (BP_SET_PSIZE (BP_SET_LSIZE (BP_ZERO (z_bp zio)) 1024) 1024) (compress_num ZIO_COMPRESS_OFF)"
  have "zio_write_compress table (\<lambda>n. replicate n 9) 5 zio = Some (zio\<lparr>z_bp := bp\<rparr>)" "BP_GET_PSIZE (z_bp later) = BP_GET_PSIZE bp"
    using rewrite_late [OF h(1), of 5 table "\<lambda>n. replicate n 9"] h(2) p psize_set(2) [of 1024] by (simp_all add: zp_dontcompress_def Let_def bp_def)
  then have "\<exists>later'. zio_write_compress table (\<lambda>n. replicate n 9) 6 later = Some later' \<and> rewritten_in_place later later'"
    using sync_rewrites_in_place [of zio 5 later 6 table "\<lambda>n. replicate n 9"] h by (auto simp: zp_dontcompress_def)
  then show ?thesis by (simp add: Let_def zio_def later_def table_def)
qed

end
