(* ===== verification/Spec2Isabelle.thy ===== *)
theory Spec2Isabelle
  imports Avl Space_Map Space_Map_Disk Metaslab_FF Blkptr Galois Raidz_Loop Compress Zio_Compress Vdev_Mirror Rrwlock Rprwlock Zio_Pipe
begin

text \<open>
  A verification of the storage core of ZFS on FUSE: how blocks are described, transformed, checksummed and replicated, how free space is
  kept and handed out, and the trees, lists, counts and locks these parts are built on. Paths are relative to the root of the repository's
  sources.

  \<^bold>\<open>The program.\<close> A write of a logical block goes down a pipeline of stages. It is compressed and checksummed, given
  space by the metaslab allocator, which takes it from a space map, and sent to a top-level virtual device, which may be a
  mirror or a RAID-Z group. The block pointer records sizes, functions, byte order, checksum and addresses. A read follows the block
  pointer back; the checksum decides whether a copy or a reconstruction is good. Space maps are AVL trees in memory and logs of
  64-bit entries on disk; dirty time logs of devices are space maps of transaction groups.

  \<^bold>\<open>Theories.\<close>
  \<^item> \<open>Prelude\<close>: machine words, the alignment and bit-field macros, calls that may not return, and facts on lists and words.
  \<^item> \<open>Avl\<close>: \<^verbatim>\<open>src/lib/libavl/avl.c\<close>. A pointer to a node is the subtree there with the path to the root. Insertion and removal
    keep balance and order and change the sequence of elements by the one element; searches, neighbours, in-place updates, the packed
    parent word, destruction in postorder, logarithmic depth. The locale \<open>avl_order\<close> has what a comparison function must satisfy; the
    one of space map segments is an instance.
  \<^item> \<open>Space_Map\<close>, \<open>Space_Map_Disk\<close>: \<^verbatim>\<open>src/lib/libzpool/space_map.c\<close>. A map stands for a set of offsets. Each operation is shown to be the
    operation on sets and to keep the invariant of disjoint, non-adjacent segments with the right total; any sequence of maps
    synced to the log is reproduced when the log is loaded.
  \<^item> \<open>Metaslab_FF\<close>: the first-fit picker of \<^verbatim>\<open>src/lib/libzpool/metaslab.c\<close>, sound and complete for aligned requests. The locale
    \<open>block_picker\<close> is the interface of the \<^verbatim>\<open>smop_*\<close> vector; first fit is an instance, and allocation from a map rests on it.
  \<^item> \<open>Blkptr\<close>: DVAs, block pointers and checksums of \<^verbatim>\<open>src/lib/libzfscommon/include/sys/spa.h\<close>; fields do not disturb each other.
  \<^item> \<open>Galois\<close>, \<open>Raidz\<close>, \<open>Raidz_Map\<close>, \<open>Raidz_IO\<close>, \<open>Raidz_Read\<close>, \<open>Raidz_Loop\<close>: \<^verbatim>\<open>src/lib/libzpool/vdev_raidz.c\<close>. Arithmetic in
    GF(2^8) by tables, parity and the three reconstructions, the layout of an I/O on the children, the whole of starting and
    finishing an I/O. A block is read back when no more children are bad than there are parity columns, also when they lie about it.
  \<^item> \<open>Vdev\<close>: states, statistics and dirty time logs of \<^verbatim>\<open>src/lib/libzpool/vdev.c\<close>; reassessment computes what each device and each
    group may be missing.
  \<^item> \<open>Vdev_Mirror\<close>: \<^verbatim>\<open>src/lib/libzpool/vdev_mirror.c\<close>. A read finds a good child if there is one; repairs write good data only.
  \<^item> \<open>Lzjb\<close>, \<open>Compress\<close>, \<open>Zio_Compress\<close>: \<^verbatim>\<open>src/lib/libzpool/lzjb.c\<close>, its copy in \<^verbatim>\<open>src/lib/libzfscommon/compress.c\<close>, and block
    compression in \<^verbatim>\<open>src/lib/libzpool/zio_compress.c\<close> and \<^verbatim>\<open>src/lib/libzpool/gzip.c\<close>. Round trips and bounds. The locale
    \<open>compressor\<close> is what block compression needs of a function; LZJB is an instance, and gzip is one under stated
    assumptions on zlib.
  \<^item> \<open>Checksum\<close>, \<open>Zio_Checksum\<close>: \<^verbatim>\<open>src/lib/libzpool/fletcher.c\<close>, \<^verbatim>\<open>src/lib/libzpool/sha256.c\<close> and \<^verbatim>\<open>src/lib/libzpool/zio_checksum.c\<close> on a
    host of either byte order. What one host checksums verifies on every host.
  \<^item> \<open>Zio_Pipe\<close>: the stages of \<^verbatim>\<open>src/lib/libzpool/zio.c\<close> that transform the data of a block, which join block pointers, compression
    and checksums. What is written on one host is read back on any other; late sync passes rewrite in place.
  \<^item> \<open>Sys_List\<close>: \<^verbatim>\<open>src/lib/libzfscommon/list.c\<close> as assignments in a store of link nodes, refining sequences of objects. The locale
    \<open>object_list\<close> has the laws that loops over a list use.
  \<^item> \<open>Refcount\<close>, \<open>Rrwlock\<close>, \<open>Rprwlock\<close>: \<^verbatim>\<open>src/lib/libzpool/refcount.c\<close>, \<^verbatim>\<open>rrwlock.c\<close> and \<^verbatim>\<open>rprwlock.c\<close>. The locks are step relations over
    any number of threads; invariants give exclusion, re-entrance without blocking, and that no wake-up is lost.

  \<^bold>\<open>Conventions.\<close> Machine integers are words and wrap. \<^const>\<open>None\<close> is a call that does not return: a failing assertion, a panic, a
  call through a null pointer or a read outside a buffer. Errors that the code returns are values. State is passed and returned in
  records. Code outside the modelled files (DMU, zlib, allocation of buffers, random numbers, fault injection, child I/Os) is
  an argument, with what is assumed of it in the statements.

  \<^bold>\<open>Bounds.\<close> Loops that are not structural have termination proofs. Fuel is used for destroying a tree (more than the number of
  nodes plus one is enough), for excising a range from a space map (more than the number of segments that overlap it), for the rounds of
  a mirror read (children plus one) and for walking or draining a list (objects plus one); the properties say that this gives a result. A
  RAID-Z read is issued again at most once. Read holds of a lock are taken to be fewer than 2^63.

  \<^bold>\<open>Findings.\<close> The repair of a RAID-Z parity column whose read failed writes the buffer the failed read left. The sign of an exponent
  in a comment of \<^verbatim>\<open>vdev_raidz.c\<close>, the bit numbers in a diagram of \<^verbatim>\<open>space_map.h\<close>, the claim of \<^verbatim>\<open>compress.c\<close> that it never
  reads past its input, and the contract in \<^verbatim>\<open>rrwlock.h\<close> on tags, do not agree with the code.

  \<^bold>\<open>Not modelled.\<close> Of the pipeline: creating, scheduling and completing I/Os, gang trees and allocation, which run on task queues and
  call back asynchronously. Of the metaslab allocator: groups, classes and their weights, and of the devices: opening from a
  configuration, labels, queues, caches and file I/O, which are mostly locks, name-value lists and the host. The closing of mirrors and RAID-Z
  groups only closes the children. The ARC, DMU, DSL, ZAP, intent log, pool management, the file system and FUSE server, the user libraries and the
  Solaris compatibility layer depend on threads, on each other's on-disk objects and on the host throughout, so that little of
  them could be stated without inventing behaviour for the parts they call.
\<close>

end
